(* ===== verification/Cache_Prelude.thy ===== *)
theory Cache_Prelude
  imports Main "HOL-Library.Word" "HOL-Library.Multiset"
begin

text \<open>
  Shared vocabulary of the development: the machine type of weights and capacities
  (\<open>size_t\<close>, a 64-bit word), the error kinds the facade raises, the collections of
  facts the component proofs share, and generic lemmas on lists and words.
\<close>

section \<open>Types shared by all components\<close>

type_synonym size_t = "64 word"

text \<open>
  The two exceptions of \<open>limited/base.h\<close> and \<open>unordered_map::at\<close>:
  \<open>no_space_error\<close> and \<open>std::out_of_range\<close>.
\<close>

datatype error = NoSpace | OutOfRange

text \<open>A sum of word weights read in \<open>nat\<close>: the quantity the weight counter tracks.\<close>

definition unat_sum :: "('a \<Rightarrow> size_t) \<Rightarrow> 'a list \<Rightarrow> nat" where
  "unat_sum f xs = sum_list (map (\<lambda>x. unat (f x)) xs)"

section \<open>Fact collections\<close>

text \<open>
  \<open>ring_split\<close> collects the facts that take a doubly linked ring apart at a node;
  \<open>heap_frame\<close> the facts that a pointer update leaves a list segment alone.
\<close>

named_theorems ring_split
named_theorems heap_frame

section \<open>Lists\<close>

lemma butlast_Cons_append [simp]:
  "ys \<noteq> [] \<Longrightarrow> butlast (x # xs @ ys) = x # xs @ butlast ys"
  by (simp add: butlast_append)

lemma hd_append_snoc [simp]: "hd (xs @ [x]) = (if xs = [] then x else hd xs)"
  by (cases xs) simp_all

lemma last_Cons_append_eq: "last (x # xs) \<in> set (x # xs)"
  by simp

lemma set_butlast_subset: "set (butlast xs) \<subseteq> set xs"
  by (induction xs) auto

lemma set_tl_subset: "set (tl xs) \<subseteq> set xs"
  by (cases xs) auto

lemma notin_set_tl: "x \<notin> set xs \<Longrightarrow> x \<notin> set (tl xs)"
  using set_tl_subset by fast

lemma notin_set_butlast: "x \<notin> set xs \<Longrightarrow> x \<notin> set (butlast xs)"
  using set_butlast_subset by fast

lemma hd_in_set_snoc: "hd (xs @ [x]) \<in> set xs \<union> {x}"
  by (cases xs) auto

lemma distinct_last_notin_butlast:
  "distinct xs \<Longrightarrow> last xs \<notin> set (butlast xs)"
  by (cases xs rule: rev_cases) auto

lemma distinct_hd_notin_tl:
  "distinct xs \<Longrightarrow> hd xs \<notin> set (tl xs)"
  by (cases xs) auto

section \<open>Words\<close>

lemma unat_sum_simps [simp]:
  "unat_sum f [] = 0"
  "unat_sum f (x # xs) = unat (f x) + unat_sum f xs"
  "unat_sum f (xs @ ys) = unat_sum f xs + unat_sum f ys"
  by (simp_all add: unat_sum_def)

lemma unat_sum_cong:
  "(\<And>x. x \<in> set xs \<Longrightarrow> f x = g x) \<Longrightarrow> unat_sum f xs = unat_sum g xs"
  unfolding unat_sum_def by (induction xs) simp_all

lemma unat_sum_map: "unat_sum f (map g xs) = unat_sum (f \<circ> g) xs"
  by (induction xs) simp_all

lemma unat_add_no_wrap:
  "unat (a::size_t) + unat b < 2 ^ 64 \<Longrightarrow> unat (a + b) = unat a + unat b"
  using unat_add_lem [of a b] by simp

text \<open>A running total in \<open>size_t\<close> that does not wrap is the sum in \<open>nat\<close>.\<close>

lemma unat_fold_sum:
  "unat (w::size_t) + unat_sum (f \<circ> g) xs < 2 ^ 64 \<Longrightarrow>
   unat (fold (\<lambda>x w. w + f (g x)) xs w) = unat w + unat_sum (f \<circ> g) xs"
proof (induction xs arbitrary: w)
  case Nil
  then show ?case by simp
next
  case (Cons x xs)
  have "unat w + unat (f (g x)) < 2 ^ 64" using Cons.prems by simp
  then have "unat (w + f (g x)) = unat w + unat (f (g x))" by (rule unat_add_no_wrap)
  then show ?case using Cons.IH [of "w + f (g x)"] Cons.prems by simp
qed

lemma unat_bound: "unat (c::'a::len word) < 2 ^ LENGTH('a)"
  by (rule unsigned_less)

lemma unat_add_le_unat:
  assumes "unat (a::'a::len word) + unat b \<le> unat (c::'a word)"
  shows "unat (a + b) = unat a + unat b"
proof -
  have "unat c < 2 ^ LENGTH('a)" by (rule unat_bound)
  then have "unat a + unat b < 2 ^ LENGTH('a)" using assms by linarith
  then show ?thesis by (simp only: unat_add_lem)
qed

lemma unat_sum_mset:
  "mset xs = mset ys \<Longrightarrow> unat_sum f xs = unat_sum f ys"
  unfolding unat_sum_def by (metis mset_map sum_mset_sum_list)

lemma unat_sum_upd:
  "distinct xs \<Longrightarrow> p \<in> set xs \<Longrightarrow> unat_sum (f(p := w)) xs + unat (f p) = unat_sum f xs + unat w"
proof (induction xs)
  case (Cons x xs)
  then show ?case
  proof (cases "x = p")
    case True
    then have "unat_sum (f(p := w)) xs = unat_sum f xs" using Cons.prems by (intro unat_sum_cong) auto
    then show ?thesis using True by (simp only: unat_sum_simps fun_upd_same)
  qed simp
qed simp

lemma unat_sum_member: "p \<in> set xs \<Longrightarrow> unat (f p) \<le> unat_sum f xs"
  by (induction xs) auto

lemma unat_sub_no_wrap:
  "(b::size_t) \<le> a \<Longrightarrow> unat (a - b) = unat a - unat b"
  by (simp add: unat_sub)

lemma filter_remove_one:
  assumes "distinct (as @ v # bs)" and "as @ v # bs = filter P xs0"
  shows "as @ bs = filter (\<lambda>p. P p \<and> p \<noteq> v) xs0"
proof -
  have "filter (\<lambda>p. P p \<and> p \<noteq> v) xs0 = filter (\<lambda>p. p \<noteq> v) (filter P xs0)"
    by (simp add: filter_filter)
  also have "\<dots> = filter (\<lambda>p. p \<noteq> v) (as @ v # bs)" by (simp only: assms(2))
  also have "\<dots> = as @ bs"
  proof -
    have "filter (\<lambda>p. p \<noteq> v) as = as" "filter (\<lambda>p. p \<noteq> v) bs = bs"
      using assms(1) by (auto intro!: filter_True)
    then show ?thesis by simp
  qed
  finally show ?thesis by simp
qed

lemma set_remove1_distinct: "distinct xs \<Longrightarrow> set (remove1 e xs) = set xs - {e}"
  by (induction xs) auto

end
