(* ===== verification/Cache_Node.thy ===== *)
theory Cache_Node
  imports Cache_Prelude
begin

text \<open>
  The nodes of the replacement list (\<open>cache_manager/base.h\<close>). A
  \<open>stored_node<T>\<close> is a pair of the managed value and a \<open>cache_node<T>\<close> holding
  the \<open>prev\<close> and \<open>next\<close> pointers and, in debug builds, the cached weight. The memory
  of all nodes is modelled as a split heap: one function per field, from node addresses
  \<open>'p\<close>. \<open>__link\<close> is \<open>link\<close>. A well-formed replacement list is a ring
  \<open>s, x1, ..., xn, s\<close> through the sentinel \<open>s\<close> whose \<open>next\<close> and \<open>prev\<close> fields
  agree (\<open>dl_ring\<close>); the lemmas below take such a ring apart and splice segments
  in and out of it, the two moves every list operation of the library is made of.
\<close>

section \<open>The node heap\<close>

record ('p, 'v) heap =
  node_value :: "'p \<Rightarrow> 'v"
  node_prev :: "'p \<Rightarrow> 'p"
  node_next :: "'p \<Rightarrow> 'p"
  node_weight :: "'p \<Rightarrow> size_t"

text \<open>\<open>weight<T>\<close>, the default weigher: every value weighs 1.\<close>

definition default_weight :: "'v \<Rightarrow> size_t" where
  "default_weight v = 1"

text \<open>\<open>__link(first, second)\<close>: \<open>__next(first) = second; __prev(second) = first\<close>.\<close>

definition link :: "'p \<Rightarrow> 'p \<Rightarrow> ('p, 'v) heap \<Rightarrow> ('p, 'v) heap" where
  "link a b h = h\<lparr>node_next := (node_next h)(a := b), node_prev := (node_prev h)(b := a)\<rparr>"

section \<open>Rings\<close>

text \<open>\<open>links h zs\<close>: consecutive nodes of \<open>zs\<close> point at each other both ways.\<close>

fun links :: "('p, 'v) heap \<Rightarrow> 'p list \<Rightarrow> bool" where
  "links h (a # b # zs) \<longleftrightarrow> node_next h a = b \<and> node_prev h b = a \<and> links h (b # zs)"
| "links h _ \<longleftrightarrow> True"

text \<open>
  The replacement list with sentinel \<open>s\<close> holds the nodes \<open>xs\<close>, in order: walking
  \<open>next\<close> from \<open>s\<close> visits \<open>xs\<close> and returns to \<open>s\<close>, and \<open>prev\<close> is its mirror
  (invariant I2 of the design).
\<close>

definition dl_ring :: "('p, 'v) heap \<Rightarrow> 'p \<Rightarrow> 'p list \<Rightarrow> bool" where
  "dl_ring h s xs \<longleftrightarrow> distinct (s # xs) \<and> links h (s # xs @ [s])"

text \<open>\<open>seg f p ys q\<close>: iterating \<open>f\<close> from \<open>p\<close> visits \<open>ys\<close> before first reaching \<open>q\<close>.\<close>

fun seg :: "('p \<Rightarrow> 'p) \<Rightarrow> 'p \<Rightarrow> 'p list \<Rightarrow> 'p \<Rightarrow> bool" where
  "seg f p [] q \<longleftrightarrow> p = q"
| "seg f p (y # ys) q \<longleftrightarrow> p = y \<and> p \<noteq> q \<and> seg f (f p) ys q"

section \<open>Pointer updates\<close>

lemma link_apply [simp]:
  "node_next (link a b h) = (node_next h)(a := b)"
  "node_prev (link a b h) = (node_prev h)(b := a)"
  "node_value (link a b h) = node_value h"
  "node_weight (link a b h) = node_weight h"
  by (simp_all add: link_def)

lemma links_pair [simp]: "links h [a, b] \<longleftrightarrow> node_next h a = b \<and> node_prev h b = a"
  by simp

lemma links_append:
  assumes "xs \<noteq> []" "ys \<noteq> []"
  shows "links h (xs @ ys) \<longleftrightarrow>
    links h xs \<and> node_next h (last xs) = hd ys \<and> node_prev h (hd ys) = last xs \<and> links h ys"
  using assms
proof (induction xs)
  case Nil
  then show ?case by simp
next
  case (Cons x xs)
  then show ?case by (cases xs; cases ys) auto
qed

lemma links_Cons_append:
  "ys \<noteq> [] \<Longrightarrow> links h (x # ys) \<longleftrightarrow> node_next h x = hd ys \<and> node_prev h (hd ys) = x \<and> links h ys"
  by (cases ys) auto

lemma links_frame [heap_frame]:
  "a \<notin> set (butlast zs) \<Longrightarrow> b \<notin> set (tl zs) \<Longrightarrow> links (link a b h) zs = links h zs"
proof (induction h zs rule: links.induct)
  case (1 h x y zs)
  then have "a \<noteq> x" "b \<noteq> y" "a \<notin> set (butlast (y # zs))" "b \<notin> set (tl (y # zs))"
    by simp_all
  with "1.IH" show ?case by simp
qed simp_all

lemma links_value_weight [simp]:
  "links (h\<lparr>node_weight := w\<rparr>) zs = links h zs"
  "links (h\<lparr>node_value := v\<rparr>) zs = links h zs"
  by (induction h zs rule: links.induct) simp_all

lemma dl_ring_value_weight [simp]:
  "dl_ring (h\<lparr>node_weight := w\<rparr>) s xs = dl_ring h s xs"
  "dl_ring (h\<lparr>node_value := v\<rparr>) s xs = dl_ring h s xs"
  by (simp_all add: dl_ring_def)

section \<open>Taking a ring apart\<close>

lemma dl_ring_links_split [ring_split]:
  assumes "dl_ring h s (as @ bs)"
  shows "links h (s # as)" "links h (bs @ [s])"
    "node_next h (last (s # as)) = hd (bs @ [s])"
    "node_prev h (hd (bs @ [s])) = last (s # as)"
proof -
  have "links h ((s # as) @ (bs @ [s]))"
    using assms by (simp add: dl_ring_def)
  moreover have "links h ((s # as) @ (bs @ [s])) \<longleftrightarrow> links h (s # as) \<and>
      node_next h (last (s # as)) = hd (bs @ [s]) \<and> node_prev h (hd (bs @ [s])) = last (s # as) \<and>
      links h (bs @ [s])"
    by (rule links_append) simp_all
  ultimately show "links h (s # as)" "links h (bs @ [s])"
    "node_next h (last (s # as)) = hd (bs @ [s])"
    "node_prev h (hd (bs @ [s])) = last (s # as)"
    by blast+
qed

lemma dl_ring_links_mid [ring_split]:
  assumes "dl_ring h s (as @ ms @ bs)" "ms \<noteq> []"
  shows "links h ms"
    "node_next h (last (s # as)) = hd ms" "node_prev h (hd ms) = last (s # as)"
    "node_next h (last ms) = hd (bs @ [s])" "node_prev h (hd (bs @ [s])) = last ms"
proof -
  have "links h ((s # as) @ (ms @ (bs @ [s])))"
    using assms(1) by (simp add: dl_ring_def)
  moreover have "links h ((s # as) @ (ms @ (bs @ [s]))) \<longleftrightarrow> links h (s # as) \<and>
      node_next h (last (s # as)) = hd ms \<and> node_prev h (hd ms) = last (s # as) \<and>
      links h (ms @ (bs @ [s]))"
    using links_append [of "s # as" "ms @ (bs @ [s])" h] assms(2) by simp
  moreover have "links h (ms @ (bs @ [s])) \<longleftrightarrow> links h ms \<and>
      node_next h (last ms) = hd (bs @ [s]) \<and> node_prev h (hd (bs @ [s])) = last ms \<and>
      links h (bs @ [s])"
    using assms(2) by (rule links_append) simp
  ultimately show "links h ms"
    "node_next h (last (s # as)) = hd ms" "node_prev h (hd ms) = last (s # as)"
    "node_next h (last ms) = hd (bs @ [s])" "node_prev h (hd (bs @ [s])) = last ms"
    by blast+
qed

lemma dl_ring_node [ring_split]:
  assumes "dl_ring h s (as @ p # bs)"
  shows "node_prev h p = last (s # as)" "node_next h p = hd (bs @ [s])"
  using dl_ring_links_mid [of h s as "[p]" bs] assms by simp_all

lemma dl_ring_distinct:
  "dl_ring h s xs \<Longrightarrow> distinct (s # xs)"
  by (simp add: dl_ring_def)

lemma dl_ring_seg:
  assumes "links h (bs @ [s])" "s \<notin> set bs"
  shows "seg (node_next h) (hd (bs @ [s])) bs s"
  using assms
proof (induction bs)
  case Nil
  then show ?case by simp
next
  case (Cons b bs)
  then show ?case by (cases bs) auto
qed

lemma dl_ring_suffix_seg:
  "dl_ring h s (as @ bs) \<Longrightarrow> seg (node_next h) (hd (bs @ [s])) bs s"
  using dl_ring_distinct [of h s "as @ bs"] by (intro dl_ring_seg dl_ring_links_split(2)) auto

section \<open>Splicing segments out of and into a ring\<close>

lemma ring_unlink_seg:
  assumes r: "dl_ring h s (as @ ms @ bs)" and ne: "ms \<noteq> []"
  shows "dl_ring (link (last (s # as)) (hd (bs @ [s])) h) s (as @ bs)"
proof -
  let ?A = "last (s # as)" and ?B = "hd (bs @ [s])"
  let ?h = "link ?A ?B h"
  have d: "distinct (s # as @ ms @ bs)" using r by (rule dl_ring_distinct)
  have A: "?A \<in> set (s # as)" and B: "?B \<in> set (bs @ [s])" by simp_all
  have l1: "links h (s # as)"
    using dl_ring_links_split(1) [of h s as "ms @ bs"] r by simp
  have l2: "links h (bs @ [s])"
    using dl_ring_links_split(2) [of h s "as @ ms" bs] r by simp
  have "?A \<notin> set (butlast (s # as))"
    using d by (intro distinct_last_notin_butlast) simp
  moreover have "?B \<notin> set (tl (s # as))"
    using d B by auto
  ultimately have k1: "links ?h (s # as)"
    using l1 by (simp add: links_frame)
  have "?A \<notin> set (butlast (bs @ [s]))"
    using d A by auto
  moreover have "?B \<notin> set (tl (bs @ [s]))"
    using d by (intro distinct_hd_notin_tl) simp
  ultimately have k2: "links ?h (bs @ [s])"
    using l2 by (simp add: links_frame)
  have "links ?h ((s # as) @ (bs @ [s]))"
    using k1 k2 links_append [of "s # as" "bs @ [s]" ?h] by simp
  moreover have "distinct (s # as @ bs)" using d by auto
  ultimately show ?thesis by (simp add: dl_ring_def)
qed

lemma ring_splice_seg:
  assumes r: "dl_ring h s (as @ bs)" and ne: "ms \<noteq> []" and dm: "distinct ms"
    and dj: "set ms \<inter> set (s # as @ bs) = {}" and lm: "links h ms"
  shows "dl_ring (link (last ms) (hd (bs @ [s])) (link (last (s # as)) (hd ms) h)) s (as @ ms @ bs)"
proof -
  let ?A = "last (s # as)" and ?B = "hd (bs @ [s])"
  let ?h1 = "link ?A (hd ms) h"
  let ?h2 = "link (last ms) ?B ?h1"
  have d: "distinct (s # as @ bs)" using r by (rule dl_ring_distinct)
  have A: "?A \<in> set (s # as)" and B: "?B \<in> set (bs @ [s])" by simp_all
  have M: "hd ms \<in> set ms" "last ms \<in> set ms" using ne by simp_all
  have l1: "links h (s # as)" and l2: "links h (bs @ [s])"
    using dl_ring_links_split [OF r] by simp_all
  have "?A \<notin> set (butlast (s # as))"
    using d by (intro distinct_last_notin_butlast) simp
  moreover have "hd ms \<notin> set (tl (s # as))" "last ms \<notin> set (butlast (s # as))"
    "?B \<notin> set (tl (s # as))"
    using d dj M B by (auto intro!: notin_set_butlast)
  ultimately have k1: "links ?h2 (s # as)"
    using l1 by (simp add: links_frame)
  have "?B \<notin> set (tl (bs @ [s]))"
    using d by (intro distinct_hd_notin_tl) simp
  moreover have "?A \<notin> set (butlast (bs @ [s]))" "hd ms \<notin> set (tl (bs @ [s]))"
    "last ms \<notin> set (butlast (bs @ [s]))"
    using d dj M A by (auto intro!: notin_set_tl notin_set_butlast)
  ultimately have k2: "links ?h2 (bs @ [s])"
    using l2 by (simp add: links_frame)
  have "last ms \<notin> set (butlast ms)" "hd ms \<notin> set (tl ms)"
    using dm by (simp_all add: distinct_last_notin_butlast distinct_hd_notin_tl)
  moreover have "?A \<notin> set (butlast ms)" "?B \<notin> set (tl ms)"
    using dj A B by (auto intro!: notin_set_tl notin_set_butlast)
  ultimately have k3: "links ?h2 ms"
    using lm by (simp add: links_frame)
  have "?A \<noteq> last ms" "?B \<noteq> hd ms" using dj A B M by auto
  then have e: "node_next ?h2 ?A = hd ms" "node_prev ?h2 (hd ms) = ?A"
    "node_next ?h2 (last ms) = ?B" "node_prev ?h2 ?B = last ms"
    by simp_all
  have "links ?h2 ((s # as) @ (ms @ (bs @ [s])))"
    using k1 k2 k3 e ne links_append [of "s # as" "ms @ (bs @ [s])" ?h2]
      links_append [of ms "bs @ [s]" ?h2] by simp
  moreover have "distinct (s # as @ ms @ bs)" using d dm dj by auto
  ultimately show ?thesis by (simp add: dl_ring_def)
qed

lemma link_relink:
  assumes "node_next h a = p" "node_prev h p = a" "node_next h p = b" "node_prev h b = p"
  shows "link p b (link a p (link a b h)) = h"
proof -
  have "(node_next h)(a := p, p := b) = node_next h" "(node_prev h)(p := a, b := p) = node_prev h"
    using assms by (simp_all add: fun_upd_idem)
  then show ?thesis by (simp add: link_def)
qed

end
