(* ===== verification/Replacement_Ops.thy ===== *)
theory Replacement_Ops
  imports Cache_Node
begin

text \<open>
  The list surgery of \<open>cache_manager/replacement_iterator.h\<close>: the static members of
  \<open>iterator_operations\<close> (\<open>move\<close>, \<open>iter_swap\<close>, \<open>swap_ranges\<close>, \<open>reverse\<close>,
  \<open>rotate\<close>), each a fixed sequence of \<open>__link\<close> calls on pointers read before the
  first write, as in the source. A \<open>replacement_iterator\<close> is the address of the node it
  points at; \<open>++\<close> is \<open>node_next\<close>. The loop of \<open>reverse\<close> follows pointers and is a
  \<open>partial_function (option)\<close>. The lemmas relate each operation to the ring it
  produces (for \<open>move\<close>, \<open>rotate\<close> and \<open>iter_swap\<close> of neighbours) and record
  where the operations break the list on inputs their documentation admits.
\<close>

section \<open>Iterators\<close>

text \<open>
  A \<open>replacement_iterator\<close> is the address of its node. \<open>operator*\<close> reads the
  value; \<open>++\<close> and \<open>--\<close> first assert that the link they follow is mirrored
  (\<open>__prev(__next(_ptr)) == _ptr\<close>, \<open>__next(__prev(_ptr)) == _ptr\<close>), an assertion
  that fails being \<open>None\<close>.
\<close>

definition ri_deref :: "('p, 'v) heap \<Rightarrow> 'p \<Rightarrow> 'v" where
  "ri_deref h p = node_value h p"

definition ri_next :: "('p, 'v) heap \<Rightarrow> 'p \<Rightarrow> 'p option" where
  "ri_next h p = (if node_prev h (node_next h p) = p then Some (node_next h p) else None)"

definition ri_prev :: "('p, 'v) heap \<Rightarrow> 'p \<Rightarrow> 'p option" where
  "ri_prev h p = (if node_next h (node_prev h p) = p then Some (node_prev h p) else None)"

text \<open>\<open>operator==\<close> and \<open>operator!=\<close>: the node pointers compared.\<close>

definition ri_eq :: "'p \<Rightarrow> 'p \<Rightarrow> bool" where
  "ri_eq p q \<longleftrightarrow> p = q"

text \<open>\<open>swap(other)\<close> of two iterators exchanges their node pointers.\<close>

definition ri_swap :: "'p \<Rightarrow> 'p \<Rightarrow> 'p \<times> 'p" where
  "ri_swap p q = (q, p)"

section \<open>Operations\<close>

text \<open>\<open>move(first, last, dest)\<close>: splice the range \<open>[first, last)\<close> before \<open>dest\<close>.\<close>

definition move :: "'p \<Rightarrow> 'p \<Rightarrow> 'p \<Rightarrow> ('p, 'v) heap \<Rightarrow> ('p, 'v) heap" where
  "move first_it last_it dest h =
     (let before_ptr = node_prev h first_it; first_ptr = first_it;
          last_ptr = node_prev h last_it; after_ptr = last_it;
          d_before_ptr = node_prev h dest; d_after_ptr = dest
      in link last_ptr d_after_ptr (link d_before_ptr first_ptr (link before_ptr after_ptr h)))"

text \<open>\<open>iter_swap(a, b)\<close>: the three cases of the source, \<open>a\<close> right before \<open>b\<close>,
  \<open>a\<close> right after \<open>b\<close>, and apart; nothing when \<open>a = b\<close>.\<close>

definition iter_swap :: "'p \<Rightarrow> 'p \<Rightarrow> ('p, 'v) heap \<Rightarrow> ('p, 'v) heap" where
  "iter_swap a b h =
     (let before_a_ptr = node_prev h a; after_a_ptr = node_next h a;
          before_b_ptr = node_prev h b; after_b_ptr = node_next h b
      in if a = before_b_ptr then
           link a after_b_ptr (link b a (link before_a_ptr b h))
         else if a = after_b_ptr then
           link b after_a_ptr (link a b (link before_b_ptr a h))
         else if a \<noteq> b then
           link b after_a_ptr (link before_a_ptr b (link a after_b_ptr (link before_b_ptr a h)))
         else h)"

text \<open>\<open>swap_ranges(first1, last1, first2, last2)\<close>.\<close>

definition swap_ranges :: "'p \<Rightarrow> 'p \<Rightarrow> 'p \<Rightarrow> 'p \<Rightarrow> ('p, 'v) heap \<Rightarrow> ('p, 'v) heap" where
  "swap_ranges first1 last1 first2 last2 h =
     (let before1_ptr = node_prev h first1; first1_ptr = first1;
          last1_ptr = node_prev h last1; after1_ptr = last1;
          before2_ptr = node_prev h first2; first2_ptr = first2;
          last2_ptr = node_prev h last2; after2_ptr = last2
      in if first2_ptr = after1_ptr then
           link last1_ptr after2_ptr (link last2_ptr first1_ptr (link before1_ptr first2_ptr h))
         else if first1_ptr = after2_ptr then
           link last2_ptr after1_ptr (link last1_ptr first2_ptr (link before2_ptr first1_ptr h))
         else if first1_ptr \<noteq> first2_ptr \<or> last1_ptr \<noteq> last2_ptr then
           link last1_ptr after2_ptr (link before2_ptr first1_ptr
             (link last2_ptr after1_ptr (link before1_ptr first2_ptr h)))
         else h)"

text \<open>The loop of \<open>reverse\<close>: \<open>while(cur_ptr != after_ptr)\<close>, turning each link round.\<close>

partial_function (option) reverse_loop ::
  "'p \<Rightarrow> 'p \<Rightarrow> ('p, 'v) heap \<Rightarrow> ('p, 'v) heap option" where
  "reverse_loop cur_ptr after_ptr h =
     (if cur_ptr = after_ptr then Some h
      else (let next_ptr = node_next h cur_ptr
            in reverse_loop next_ptr after_ptr (link cur_ptr (node_prev h cur_ptr) h)))"

definition reverse :: "'p \<Rightarrow> 'p \<Rightarrow> ('p, 'v) heap \<Rightarrow> ('p, 'v) heap option" where
  "reverse first_it last_it h =
     (let before_ptr = node_prev h first_it; first_ptr = first_it;
          last_ptr = node_prev h last_it; after_ptr = last_it
      in map_option (\<lambda>h'. link first_ptr after_ptr (link before_ptr last_ptr h'))
           (reverse_loop (node_next h first_ptr) after_ptr h))"

text \<open>\<open>rotate(first, n_first, last)\<close> is \<open>move(first, n_first, last)\<close>.\<close>

definition rotate_iop :: "'p \<Rightarrow> 'p \<Rightarrow> 'p \<Rightarrow> ('p, 'v) heap \<Rightarrow> ('p, 'v) heap" where
  "rotate_iop first_it n_first last_it h = move first_it n_first last_it h"

section \<open>Commuting pointer writes\<close>

lemma link_commute:
  "x \<noteq> u \<Longrightarrow> y \<noteq> v \<Longrightarrow> link x y (link u v h) = link u v (link x y h)"
  by (simp add: link_def fun_upd_twist)

section \<open>move\<close>

text \<open>
  Moving the non-empty range \<open>ms\<close> of the ring before a node \<open>dest\<close> outside it, other
  than the end of the range: the ring of the list with \<open>ms\<close> taken out and put back in
  front of \<open>dest\<close>.
\<close>

lemma move_ring:
  assumes r: "dl_ring h s (as @ ms @ bs)" and ne: "ms \<noteq> []"
    and split: "as @ bs = cs @ ds" and dest: "dest = hd (ds @ [s])"
    and not_end: "dest \<noteq> hd (bs @ [s])"
  shows "dl_ring (move (hd ms) (hd (bs @ [s])) dest h) s (cs @ ms @ ds)"
proof -
  let ?A = "last (s # as)" and ?B = "hd (bs @ [s])"
  let ?h1 = "link ?A ?B h"
  have d: "distinct (s # as @ ms @ bs)" using r by (rule dl_ring_distinct)
  have r1: "dl_ring ?h1 s (as @ bs)" using r ne by (rule ring_unlink_seg)
  then have r1': "dl_ring ?h1 s (cs @ ds)" by (simp add: split)
  have pf: "node_prev h (hd ms) = ?A" and pl: "node_prev h ?B = last ms"
    using dl_ring_links_mid [OF r ne] by simp_all
  have "node_prev ?h1 dest = last (s # cs)"
    using dl_ring_links_split(4) [OF r1'] dest by simp
  then have pd: "node_prev h dest = last (s # cs)"
    using not_end by simp
  have M: "hd ms \<in> set ms" "last ms \<in> set ms" using ne by simp_all
  have A: "?A \<in> set (s # as)" and B: "?B \<in> set (bs @ [s])" by simp_all
  have "?A \<notin> set (butlast ms)" "?B \<notin> set (tl ms)"
    using d A B by (auto intro!: notin_set_tl notin_set_butlast)
  then have lm: "links ?h1 ms"
    using dl_ring_links_mid(1) [OF r ne] by (simp add: links_frame)
  have "set (cs @ ds) = set (as @ bs)" by (simp only: split)
  then have dj: "set ms \<inter> set (s # cs @ ds) = {}" using d by auto
  have dm: "distinct ms" using d by simp
  have "dl_ring (link (last ms) (hd (ds @ [s])) (link (last (s # cs)) (hd ms) ?h1)) s (cs @ ms @ ds)"
    using r1' ne dm dj lm by (rule ring_splice_seg)
  then show ?thesis
    using pf pl pd dest by (simp add: move_def Let_def)
qed

section \<open>rotate\<close>

text \<open>
  C36. \<open>rotate(first, n_first, last)\<close> with a non-empty prefix \<open>[first, n_first)\<close>
  and a non-empty rest \<open>[n_first, last)\<close> exchanges the two parts in the list.
\<close>

lemma rotate_iop_ring:
  assumes r: "dl_ring h s (as @ ms1 @ ms2 @ bs)" and "ms1 \<noteq> []" "ms2 \<noteq> []"
  shows "dl_ring (rotate_iop (hd ms1) (hd ms2) (hd (bs @ [s])) h) s (as @ ms2 @ ms1 @ bs)"
proof -
  have d: "distinct (s # as @ ms1 @ ms2 @ bs)" using r by (rule dl_ring_distinct)
  have "hd (bs @ [s]) \<noteq> hd ((ms2 @ bs) @ [s])"
    using d \<open>ms2 \<noteq> []\<close> by (cases ms2; cases bs) auto
  then have "dl_ring (move (hd ms1) (hd ((ms2 @ bs) @ [s])) (hd (bs @ [s])) h) s
      ((as @ ms2) @ ms1 @ bs)"
    using r \<open>ms1 \<noteq> []\<close> by (intro move_ring [where as = as and bs = "ms2 @ bs"]) simp_all
  then show ?thesis
    using \<open>ms2 \<noteq> []\<close> by (simp add: rotate_iop_def)
qed

text \<open>
  C37. A rotation by an empty prefix, \<open>rotate(first, first, last)\<close>, which
  \<open>std::rotate\<close> accepts as a no-op, calls \<open>move\<close> on an empty range: the nodes from
  \<open>first\<close> up to the end of the list are cut out of it and the list stops before them.
\<close>

lemma rotate_iop_empty_prefix:
  assumes r: "dl_ring h s (as @ bs)" and ne: "bs \<noteq> []"
  shows "dl_ring (rotate_iop (hd bs) (hd bs) s h) s as"
proof -
  let ?A = "last (s # as)" and ?f = "hd bs" and ?L = "last bs"
  have d: "distinct (s # as @ bs)" using r by (rule dl_ring_distinct)
  have nA: "node_next h ?A = ?f" and pf: "node_prev h ?f = ?A"
    using dl_ring_links_split(3,4) [OF r] ne by simp_all
  have ps: "node_prev h s = ?L"
    using dl_ring_links_split(4) [of h s "as @ bs" "[]"] r ne by simp
  have id: "link ?A ?f h = h"
    using nA pf by (simp add: link_def fun_upd_idem)
  let ?h = "link ?A s (link ?L ?f h)"
  have F: "?f \<in> set bs" "?L \<in> set bs" using ne by simp_all
  have "?A \<notin> set (butlast (s # as))"
    using d by (intro distinct_last_notin_butlast) simp
  moreover have "?L \<notin> set (butlast (s # as))" "?f \<notin> set (tl (s # as))" "s \<notin> set (tl (s # as))"
    using d F by (auto intro!: notin_set_butlast)
  ultimately have "links ?h (s # as)"
    using dl_ring_links_split(1) [OF r] by (simp add: links_frame)
  moreover have "?A \<in> set (s # as)" by simp
  then have "?A \<noteq> ?L" using d F by auto
  then have "node_next ?h ?A = s" "node_prev ?h s = ?A" by simp_all
  ultimately have "links ?h ((s # as) @ [s])"
    using links_append [of "s # as" "[s]" ?h] by simp
  moreover have "distinct (s # as)" using d by simp
  ultimately have "dl_ring ?h s as" by (simp add: dl_ring_def)
  then show ?thesis
    using pf ps id by (simp add: rotate_iop_def move_def Let_def)
qed

section \<open>iter_swap\<close>

text \<open>Swapping a node with its successor, the case the swapping policy uses.\<close>

lemma iter_swap_next_ring:
  assumes r: "dl_ring h s (as @ b # a # bs)"
  shows "dl_ring (iter_swap a b h) s (as @ a # b # bs)"
proof -
  let ?A = "last (s # as)" and ?B = "hd (bs @ [s])"
  have d: "distinct (s # as @ b # a # bs)" using r by (rule dl_ring_distinct)
  have pb: "node_prev h b = ?A" and nb: "node_next h b = a"
    using dl_ring_node [of h s as b "a # bs"] r by simp_all
  have pa: "node_prev h a = b" and na: "node_next h a = ?B"
    using dl_ring_node [of h s "as @ [b]" a bs] r by simp_all
  have A: "?A \<in> set (s # as)" and B: "?B \<in> set (bs @ [s])" by simp_all
  have ne: "a \<noteq> ?A" "b \<noteq> ?A" "?B \<noteq> a" "?B \<noteq> b" "a \<noteq> b"
    using d A B by auto
  have pB: "node_prev h ?B = a"
    using dl_ring_links_mid(5) [of h s "as @ [b]" "[a]" bs] r by simp
  have "iter_swap a b h = link b ?B (link a b (link ?A a h))"
    using pb nb pa na ne by (simp add: iter_swap_def Let_def)
  also have "\<dots> = link a b (link ?A a (link b ?B h))"
    using ne by (simp add: link_commute)
  also have "\<dots> = move a ?B b h"
    using pa pB pb by (simp add: move_def Let_def)
  finally have eq: "iter_swap a b h = move a ?B b h" .
  have "dl_ring (move (hd [a]) (hd (bs @ [s])) b h) s (as @ [a] @ b # bs)"
    using r ne by (intro move_ring [where as = "as @ [b]" and bs = bs]) simp_all
  then show ?thesis using eq by simp
qed

section \<open>Iterating a ring\<close>

text \<open>On a ring, the links at every node, the sentinel included, are mirrored.\<close>

lemma ring_links_mirrored:
  assumes r: "dl_ring h s xs" and p: "p \<in> set (s # xs)"
  shows "node_prev h (node_next h p) = p \<and> node_next h (node_prev h p) = p"
proof (cases "p = s")
  case True
  have "node_next h s = hd (xs @ [s])" "node_prev h (hd (xs @ [s])) = s"
    using dl_ring_links_split(3,4) [of h s "[]" xs] r by simp_all
  moreover have "node_prev h s = last (s # xs)" "node_next h (last (s # xs)) = s"
    using dl_ring_links_split(3,4) [of h s xs "[]"] r by simp_all
  ultimately show ?thesis using True by simp
next
  case False
  then obtain as bs where xs: "xs = as @ p # bs" using p by (auto dest: split_list)
  have n: "node_prev h p = last (s # as)" "node_next h p = hd (bs @ [s])"
    using dl_ring_node [of h s as p bs] r xs by simp_all
  have "node_prev h (hd (bs @ [s])) = last (s # as @ [p])"
    using dl_ring_links_split(4) [of h s "as @ [p]" bs] r xs by simp
  moreover have "node_next h (last (s # as)) = hd ((p # bs) @ [s])"
    using dl_ring_links_split(3) [of h s as "p # bs"] r xs by simp
  ultimately show ?thesis using n by simp
qed

text \<open>
  C38. On a well-formed list, \<open>++\<close> and \<open>--\<close> pass their assertions at every node,
  the end included, and undo each other: \<open>--\<close> after \<open>++\<close> and \<open>++\<close> after \<open>--\<close>
  return to the node they started from.
\<close>

theorem ri_next_prev_roundtrip:
  assumes r: "dl_ring h s xs" and p: "p \<in> set (s # xs)"
  shows "ri_next h p = Some (node_next h p) \<and> ri_prev h p = Some (node_prev h p) \<and>
    ri_prev h (node_next h p) = Some p \<and> ri_next h (node_prev h p) = Some p"
  using ring_links_mirrored [OF r p] by (simp add: ri_next_def ri_prev_def)

end
