(* ===== verification/Policy.thy ===== *)
theory Policy
  imports Replacement_Ops
begin

text \<open>
  Replacement policies (\<open>cache_manager/policy.h\<close>). A policy has up to three hooks,
  detected by \<open>provides_insert\<close>, \<open>provides_erase\<close> and \<open>provides_access\<close> and
  called through \<open>policy_extractor\<close>, which falls back to the list end, the list head
  and no reordering. The built-in policies without an erase hook are
  \<open>base_policy\<close>; \<open>locked_policy\<close> and \<open>priority_policy\<close> take one of them as parent,
  which is exactly what their \<open>static_assert\<close> admits, and inherit its insert and access
  hooks. The priority type of a policy is its parameter \<open>'r\<close>, an unsigned word
  \<open>'w word\<close> of any width wherever the erase hook is used, so
  \<open>numeric_limits::max()\<close> is \<open>-1\<close> and \<open>min()\<close> is \<open>0\<close>. The pointer
  loops of the two erase hooks are \<open>partial_function (option)\<close>; \<open>None\<close> is also the value of the
  \<open>assert(first != last)\<close> of \<open>priority_policy::erase_position\<close>. Each hook is
  related to a list-level function (the policy table of the design) by a lemma that also
  shows the loop returns.
\<close>

section \<open>Policies\<close>

datatype base_policy = Fifo | Lifo | Lru | Mru | Swapping

datatype ('v, 'r) policy =
    Plain base_policy
  | Example
  | Locked base_policy "'v \<Rightarrow> bool"
  | Priority base_policy "'v \<Rightarrow> 'r"

text \<open>
  \<open>provides_insert\<close>, \<open>provides_erase\<close> and \<open>provides_access\<close>: whether a policy
  class defines the hook (\<open>locked_policy\<close> and \<open>priority_policy\<close> inherit the
  insert and access hooks of their parent policy and define an erase hook).
\<close>

fun provides_insert :: "('v, 'r) policy \<Rightarrow> bool" where
  "provides_insert (Plain b) = (b \<in> {Lifo, Mru, Swapping})"
| "provides_insert Example = True"
| "provides_insert (Locked b lk) = (b \<in> {Lifo, Mru, Swapping})"
| "provides_insert (Priority b pr) = (b \<in> {Lifo, Mru, Swapping})"

fun provides_erase :: "('v, 'r) policy \<Rightarrow> bool" where
  "provides_erase (Plain b) = False"
| "provides_erase Example = True"
| "provides_erase (Locked b lk) = True"
| "provides_erase (Priority b pr) = True"

fun provides_access :: "('v, 'r) policy \<Rightarrow> bool" where
  "provides_access (Plain b) = (b \<in> {Lru, Mru, Swapping})"
| "provides_access Example = True"
| "provides_access (Locked b lk) = (b \<in> {Lru, Mru, Swapping})"
| "provides_access (Priority b pr) = (b \<in> {Lru, Mru, Swapping})"

section \<open>Insert hook\<close>

fun base_insert_position :: "base_policy \<Rightarrow> 'p \<Rightarrow> 'p \<Rightarrow> 'p" where
  "base_insert_position Fifo first_it last_it = last_it"
| "base_insert_position Lifo first_it last_it = first_it"
| "base_insert_position Lru first_it last_it = last_it"
| "base_insert_position Mru first_it last_it = first_it"
| "base_insert_position Swapping first_it last_it = first_it"

fun insert_position :: "('v, 'w::len word) policy \<Rightarrow> 'p \<Rightarrow> 'p \<Rightarrow> 'p" where
  "insert_position (Plain b) first_it last_it = base_insert_position b first_it last_it"
| "insert_position Example first_it last_it = first_it"
| "insert_position (Locked b lk) first_it last_it = base_insert_position b first_it last_it"
| "insert_position (Priority b pr) first_it last_it = base_insert_position b first_it last_it"

section \<open>Erase hook\<close>

text \<open>\<open>locked_policy::erase_position\<close>: the first unlocked node of \<open>[first, last)\<close>.\<close>

partial_function (option) locked_scan ::
  "('v \<Rightarrow> bool) \<Rightarrow> ('p, 'v) heap \<Rightarrow> 'p \<Rightarrow> 'p \<Rightarrow> 'p option" where
  "locked_scan lk h it last_it =
     (if it = last_it then Some last_it
      else if \<not> lk (node_value h it) then Some it
      else locked_scan lk h (node_next h it) last_it)"

text \<open>\<open>priority_policy::erase_position\<close>, first loop: skip the nodes of priority
  \<open>max()\<close>, returning \<open>last\<close> when the range runs out.\<close>

partial_function (option) skip_max ::
  "('v \<Rightarrow> 'w::len word) \<Rightarrow> ('p, 'v) heap \<Rightarrow> 'p \<Rightarrow> 'p \<Rightarrow> 'p option" where
  "skip_max pr h it last_it =
     (if pr (node_value h it) = - 1 then
        (let it' = node_next h it in if it' = last_it then Some last_it else skip_max pr h it' last_it)
      else Some it)"

text \<open>Second loop: \<open>while(currentPriority > min() && it != last)\<close>.\<close>

partial_function (option) prio_scan ::
  "('v \<Rightarrow> 'w::len word) \<Rightarrow> ('p, 'v) heap \<Rightarrow> 'p \<Rightarrow> 'p \<Rightarrow> 'p \<Rightarrow> 'w word \<Rightarrow> 'p option" where
  "prio_scan pr h it last_it low cur =
     (if 0 < cur \<and> it \<noteq> last_it then
        (let p = pr (node_value h it)
         in if p < cur then prio_scan pr h (node_next h it) last_it it p
            else prio_scan pr h (node_next h it) last_it low (cur - 1))
      else Some low)"

definition priority_erase_position ::
  "('v \<Rightarrow> 'w::len word) \<Rightarrow> ('p, 'v) heap \<Rightarrow> 'p \<Rightarrow> 'p \<Rightarrow> 'p option" where
  "priority_erase_position pr h first_it last_it =
     (if first_it = last_it then None
      else (case skip_max pr h first_it last_it of
              None \<Rightarrow> None
            | Some low \<Rightarrow> if low = last_it then Some last_it
                          else prio_scan pr h low last_it low (pr (node_value h low))))"

fun erase_position :: "('v, 'w::len word) policy \<Rightarrow> ('p, 'v) heap \<Rightarrow> 'p \<Rightarrow> 'p \<Rightarrow> 'p option" where
  "erase_position (Plain b) h first_it last_it = Some first_it"
| "erase_position Example h first_it last_it = Some first_it"
| "erase_position (Locked b lk) h first_it last_it = locked_scan lk h first_it last_it"
| "erase_position (Priority b pr) h first_it last_it = priority_erase_position pr h first_it last_it"

section \<open>Access hook\<close>

fun base_access :: "base_policy \<Rightarrow> 'p \<Rightarrow> 'p \<Rightarrow> 'p \<Rightarrow> ('p, 'v) heap \<Rightarrow> ('p, 'v) heap" where
  "base_access Fifo first_it last_it acc h = h"
| "base_access Lifo first_it last_it acc h = h"
| "base_access Lru first_it last_it acc h =
     (let nx = node_next h acc in if nx \<noteq> last_it then move acc nx last_it h else h)"
| "base_access Mru first_it last_it acc h =
     (if acc \<noteq> first_it then move acc (node_next h acc) first_it h else h)"
| "base_access Swapping first_it last_it acc h =
     (let nx = node_next h acc in if nx \<noteq> last_it then iter_swap nx acc h else h)"

fun access :: "('v, 'w::len word) policy \<Rightarrow> 'p \<Rightarrow> 'p \<Rightarrow> 'p \<Rightarrow> ('p, 'v) heap \<Rightarrow> ('p, 'v) heap" where
  "access (Plain b) first_it last_it acc h = base_access b first_it last_it acc h"
| "access Example first_it last_it acc h = h"
| "access (Locked b lk) first_it last_it acc h = base_access b first_it last_it acc h"
| "access (Priority b pr) first_it last_it acc h = base_access b first_it last_it acc h"

section \<open>List-level specification of the hooks\<close>

text \<open>
  What each hook does to the replacement order, as functions on the list of nodes
  (the policy table of the design): \<open>erase_pick\<close> is the victim chosen from the list
  \<open>ys\<close> of candidates before \<open>q\<close>, and \<open>access_list\<close> the order after an access.
  \<open>prio_scan_list\<close> is the priority scan of the source read on a list.
\<close>

fun prio_scan_list :: "('p \<Rightarrow> 'w::len word) \<Rightarrow> 'p list \<Rightarrow> 'p \<Rightarrow> 'w word \<Rightarrow> 'p" where
  "prio_scan_list f [] low cur = low"
| "prio_scan_list f (y # ys) low cur =
     (if 0 < cur then (if f y < cur then prio_scan_list f ys y (f y)
                       else prio_scan_list f ys low (cur - 1))
      else low)"

definition prio_pick :: "('p \<Rightarrow> 'w::len word) \<Rightarrow> 'p list \<Rightarrow> 'p \<Rightarrow> 'p" where
  "prio_pick f ys q =
     (case dropWhile (\<lambda>y. f y = - 1) ys of [] \<Rightarrow> q | y # zs \<Rightarrow> prio_scan_list f (y # zs) y (f y))"

fun erase_pick :: "('v, 'w::len word) policy \<Rightarrow> ('p \<Rightarrow> 'v) \<Rightarrow> 'p list \<Rightarrow> 'p \<Rightarrow> 'p" where
  "erase_pick (Plain b) val ys q = hd (ys @ [q])"
| "erase_pick Example val ys q = hd (ys @ [q])"
| "erase_pick (Locked b lk) val ys q = (case find (\<lambda>y. \<not> lk (val y)) ys of None \<Rightarrow> q | Some y \<Rightarrow> y)"
| "erase_pick (Priority b pr) val ys q = prio_pick (\<lambda>y. pr (val y)) ys q"

fun swap_next :: "'p \<Rightarrow> 'p list \<Rightarrow> 'p list" where
  "swap_next p (x # y # zs) = (if x = p then y # x # zs else x # swap_next p (y # zs))"
| "swap_next p zs = zs"

fun base_access_list :: "base_policy \<Rightarrow> 'p \<Rightarrow> 'p list \<Rightarrow> 'p list" where
  "base_access_list Fifo p xs = xs"
| "base_access_list Lifo p xs = xs"
| "base_access_list Lru p xs = remove1 p xs @ [p]"
| "base_access_list Mru p xs = p # remove1 p xs"
| "base_access_list Swapping p xs = swap_next p xs"

fun access_list :: "('v, 'r) policy \<Rightarrow> 'p \<Rightarrow> 'p list \<Rightarrow> 'p list" where
  "access_list (Plain b) p xs = base_access_list b p xs"
| "access_list Example p xs = xs"
| "access_list (Locked b lk) p xs = base_access_list b p xs"
| "access_list (Priority b pr) p xs = base_access_list b p xs"

text \<open>
  The victim of a whole call of the erase hook, the empty candidate list included: the
  list head or end for the policies without a hook, and no result for the priority
  policy's assertion on an empty range.
\<close>

fun is_priority :: "('v, 'r) policy \<Rightarrow> bool" where
  "is_priority (Priority b pr) = True"
| "is_priority _ = False"

definition erase_spec :: "('v, 'w::len word) policy \<Rightarrow> ('p \<Rightarrow> 'v) \<Rightarrow> 'p list \<Rightarrow> 'p \<Rightarrow> 'p option" where
  "erase_spec pol val ys q =
     (if ys = [] \<and> is_priority pol then None else Some (erase_pick pol val ys q))"

section \<open>The defaults of policy_extractor\<close>

text \<open>
  \<open>policy_extractor\<close> calls a hook the policy provides and otherwise falls back to
  inserting at \<open>last\<close>, evicting \<open>first\<close> and not reordering on access; every
  insert hook provided inserts at \<open>first\<close>.
\<close>

lemma base_insert_position_head:
  "base_insert_position b f l = (if b \<in> {Lifo, Mru, Swapping} then f else l)"
  by (cases b) simp_all

lemma insert_position_provided:
  "insert_position pol first_it last_it = (if provides_insert pol then first_it else last_it)"
  by (cases pol) (simp_all add: base_insert_position_head)

lemma erase_position_default:
  "\<not> provides_erase pol \<Longrightarrow> erase_position pol h first_it last_it = Some first_it"
  by (cases pol) simp_all

lemma access_default:
  "\<not> provides_access pol \<Longrightarrow> access pol first_it last_it acc h = h"
proof -
  have "b \<notin> {Lru, Mru, Swapping} \<Longrightarrow> base_access b first_it last_it acc h = h" for b
    by (cases b) simp_all
  then show "\<not> provides_access pol \<Longrightarrow> access pol first_it last_it acc h = h" by (cases pol) simp_all
qed

section \<open>The erase hooks return, and compute the list-level victim\<close>

lemma seg_suffix:
  "seg f p (as @ bs) q \<Longrightarrow> seg f (hd (bs @ [q])) bs q"
proof (induction as arbitrary: p)
  case Nil
  then show ?case by (cases bs) auto
next
  case (Cons a as)
  have "seg f (f a) (as @ bs) q" using Cons.prems by auto
  then show ?case by (rule Cons.IH)
qed

lemma seg_hd: "seg f p ys q \<Longrightarrow> ys \<noteq> [] \<Longrightarrow> p = hd ys"
  by (cases ys) auto

lemma locked_scan_seg:
  "seg (node_next h) p ys q \<Longrightarrow>
   locked_scan lk h p q = Some (case find (\<lambda>y. \<not> lk (node_value h y)) ys of None \<Rightarrow> q | Some y \<Rightarrow> y)"
proof (induction ys arbitrary: p)
  case Nil
  then show ?case by (simp add: locked_scan.simps)
next
  case (Cons y ys)
  then show ?case by (subst locked_scan.simps) auto
qed

lemma skip_max_seg:
  "seg (node_next h) p ys q \<Longrightarrow> ys \<noteq> [] \<Longrightarrow>
   skip_max pr h p q = Some (case dropWhile (\<lambda>y. pr (node_value h y) = - 1) ys of [] \<Rightarrow> q | y # _ \<Rightarrow> y)"
proof (induction ys arbitrary: p)
  case Nil
  then show ?case by simp
next
  case (Cons y ys)
  show ?case
  proof (cases "ys = []")
    case True
    with Cons.prems show ?thesis by (subst skip_max.simps) (auto simp: Let_def)
  next
    case False
    with Cons.prems have "node_next h p \<noteq> q" by (cases ys) auto
    with Cons False show ?thesis by (subst skip_max.simps) (auto simp: Let_def)
  qed
qed

lemma prio_scan_seg:
  "seg (node_next h) p ys q \<Longrightarrow>
   prio_scan pr h p q low cur = Some (prio_scan_list (\<lambda>y. pr (node_value h y)) ys low cur)"
proof (induction ys arbitrary: p low cur)
  case Nil
  then show ?case by (simp add: prio_scan.simps)
next
  case (Cons y ys)
  then show ?case by (subst prio_scan.simps) (auto simp: Let_def)
qed

lemma priority_erase_position_seg:
  assumes "seg (node_next h) p ys q" "ys \<noteq> []"
  shows "priority_erase_position pr h p q = Some (prio_pick (\<lambda>y. pr (node_value h y)) ys q)"
proof (cases "dropWhile (\<lambda>y. pr (node_value h y) = - 1) ys")
  case Nil
  have "skip_max pr h p q =
      Some (case dropWhile (\<lambda>y. pr (node_value h y) = - 1) ys of [] \<Rightarrow> q | y # _ \<Rightarrow> y)"
    by (rule skip_max_seg [OF assms])
  then have "skip_max pr h p q = Some q" by (simp only: Nil list.case)
  moreover have "p \<noteq> q" using assms by (cases ys) auto
  ultimately show ?thesis
    using Nil by (simp add: priority_erase_position_def prio_pick_def del: dropWhile_eq_Nil_conv)
next
  case (Cons y zs)
  let ?P = "\<lambda>y. pr (node_value h y) = - 1"
  have "ys = takeWhile ?P ys @ y # zs"
    using takeWhile_dropWhile_id [of ?P ys] Cons by simp
  then have "seg (node_next h) p (takeWhile ?P ys @ y # zs) q"
    using assms(1) by simp
  then have "seg (node_next h) y (y # zs) q"
    using seg_suffix [of "node_next h" p "takeWhile ?P ys" "y # zs" q] by simp
  then have ps: "prio_scan pr h y q y (pr (node_value h y)) =
      Some (prio_scan_list (\<lambda>y. pr (node_value h y)) (y # zs) y (pr (node_value h y)))"
    by (rule prio_scan_seg)
  have "y \<noteq> q" using \<open>seg (node_next h) y (y # zs) q\<close> by simp
  moreover have "p \<noteq> q" using assms by (cases ys) auto
  moreover have "skip_max pr h p q = Some y"
    using skip_max_seg [OF assms, of pr] Cons by simp
  ultimately show ?thesis
    using ps Cons by (simp add: priority_erase_position_def prio_pick_def del: prio_scan_list.simps)
qed

lemma erase_position_seg:
  "seg (node_next h) p ys q \<Longrightarrow> ys \<noteq> [] \<Longrightarrow>
   erase_position pol h p q = Some (erase_pick pol (node_value h) ys q)"
  by (cases pol) (auto simp: locked_scan_seg priority_erase_position_seg seg_hd)

section \<open>What the erase hooks choose\<close>

lemma prio_scan_list_in:
  "prio_scan_list f ys low cur \<in> insert low (set ys)"
  by (induction f ys low cur rule: prio_scan_list.induct) auto

lemma prio_scan_list_not_max:
  "f low \<noteq> - 1 \<Longrightarrow> f (prio_scan_list f ys low cur) \<noteq> - 1"
proof (induction f ys low cur rule: prio_scan_list.induct)
  case (2 f y ys low cur)
  have "f y < cur \<Longrightarrow> f y \<noteq> - 1"
    using word_order.extremum [of cur] by auto
  with 2 show ?case by auto
qed simp

lemma prio_pick_cases:
  "prio_pick f ys q = q \<and> (\<forall>y \<in> set ys. f y = - 1) \<or>
   prio_pick f ys q \<in> set ys \<and> f (prio_pick f ys q) \<noteq> - 1"
proof (cases "dropWhile (\<lambda>y. f y = - 1) ys")
  case Nil
  then have "prio_pick f ys q = q"
    by (simp add: prio_pick_def del: dropWhile_eq_Nil_conv)
  moreover have "\<forall>y \<in> set ys. f y = - 1" using Nil by simp
  ultimately show ?thesis by simp
next
  case (Cons y zs)
  then have y: "y \<in> set ys" "f y \<noteq> - 1" "set zs \<subseteq> set ys"
    using set_dropWhileD [of _ "\<lambda>y. f y = - 1" ys] dropWhile_eq_Cons_conv [of "\<lambda>y. f y = - 1" ys y zs]
    by auto
  have "prio_scan_list f (y # zs) y (f y) \<in> insert y (set (y # zs))"
    by (rule prio_scan_list_in)
  moreover have "f (prio_scan_list f (y # zs) y (f y)) \<noteq> - 1"
    using y(2) by (rule prio_scan_list_not_max)
  ultimately show ?thesis using Cons y by (auto simp: prio_pick_def)
qed

lemma erase_pick_in: "erase_pick pol val ys q \<in> insert q (set ys)"
  using prio_pick_cases [of "\<lambda>y. _ (val y)" ys q] hd_in_set_snoc [of ys q]
  by (cases pol) (auto split: option.split simp: find_Some_iff)

lemma erase_spec_plain:
  "\<not> is_priority pol \<Longrightarrow> erase_spec pol val ys q = Some (erase_pick pol val ys q)"
  by (simp add: erase_spec_def)

section \<open>The access hooks implement the list-level reordering\<close>

lemma swap_next_split:
  "p \<notin> set as \<Longrightarrow>
   swap_next p (as @ p # bs) = as @ (case bs of [] \<Rightarrow> [p] | b # bs' \<Rightarrow> b # p # bs')"
proof (induction as)
  case Nil
  then show ?case by (cases bs) auto
next
  case (Cons a as)
  then show ?case by (cases as) (auto split: list.splits)
qed

lemma remove1_split: "p \<notin> set as \<Longrightarrow> remove1 p (as @ p # bs) = as @ bs"
  by (simp add: remove1_append)

lemma base_access_ring:
  assumes r: "dl_ring h s xs" and p: "p \<in> set xs"
  shows "dl_ring (base_access b (hd (xs @ [s])) s p h) s (base_access_list b p xs)"
proof -
  obtain as bs where xs: "xs = as @ p # bs" using p by (blast dest: split_list)
  have d: "distinct (s # as @ p # bs)" using dl_ring_distinct [OF r] xs by simp
  have r': "dl_ring h s (as @ p # bs)" using r xs by simp
  then have np: "node_next h p = hd (bs @ [s])" by (rule dl_ring_node(2))
  have rm: "remove1 p xs = as @ bs" using d xs by (simp add: remove1_split)
  show ?thesis
  proof (cases b)
    case Lru
    show ?thesis
    proof (cases "bs = []")
      case True
      then show ?thesis using r xs np rm Lru by simp
    next
      case False
      have "dl_ring (move (hd [p]) (hd (bs @ [s])) (hd ([] @ [s])) h) s ((as @ bs) @ [p] @ [])"
        using r xs d False by (intro move_ring [where as = as and bs = bs]) (auto simp: hd_append)
      then show ?thesis using np rm Lru False d by (auto simp: Let_def hd_append)
    qed
  next
    case Mru
    show ?thesis
    proof (cases "as = []")
      case True
      then show ?thesis using r xs rm Mru by simp
    next
      case False
      then have "hd as \<in> set as" by simp
      then have "hd as \<noteq> p" "hd as \<noteq> hd (bs @ [s])"
        using d by (auto simp: hd_append dest: hd_in_set)
      moreover have "dl_ring (move (hd [p]) (hd (bs @ [s])) (hd ((as @ bs) @ [s])) h) s
          ([] @ [p] @ (as @ bs))"
        using r xs False \<open>hd as \<noteq> hd (bs @ [s])\<close>
        by (intro move_ring [where as = as and bs = bs]) simp_all
      ultimately show ?thesis using np rm Mru False xs by simp
    qed
  next
    case Swapping
    show ?thesis
    proof (cases bs)
      case Nil
      then show ?thesis using r xs np d Swapping by (simp add: swap_next_split)
    next
      case (Cons b' bs')
      have "dl_ring (iter_swap b' p h) s (as @ b' # p # bs')"
        using r xs Cons by (intro iter_swap_next_ring) simp
      moreover have "b' \<noteq> s" using d Cons by auto
      ultimately show ?thesis using np d xs Cons Swapping by (simp add: swap_next_split)
    qed
  qed (use r in simp_all)
qed

lemma access_ring:
  "dl_ring h s xs \<Longrightarrow> p \<in> set xs \<Longrightarrow>
   dl_ring (access pol (hd (xs @ [s])) s p h) s (access_list pol p xs)"
  by (cases pol) (simp_all add: base_access_ring del: hd_append_snoc)

section \<open>Facts the manager uses\<close>

lemma erase_position_spec:
  assumes "seg (node_next h) p ys q"
  shows "erase_position pol h p q = erase_spec pol (node_value h) ys q"
proof (cases "ys = []")
  case True
  with assms have "p = q" by simp
  with True show ?thesis
    by (cases pol) (simp_all add: erase_spec_def locked_scan.simps priority_erase_position_def)
next
  case False
  with assms show ?thesis by (simp add: erase_position_seg erase_spec_def)
qed

lemma mset_swap_next: "mset (swap_next p xs) = mset xs"
  by (induction p xs rule: swap_next.induct) auto

lemma mset_access_list:
  "p \<in> set xs \<Longrightarrow> mset (access_list pol p xs) = mset xs"
proof -
  assume p: "p \<in> set xs"
  have "mset (base_access_list b p xs) = mset xs" for b
    using p by (cases b) (simp_all add: mset_swap_next)
  then show ?thesis by (cases pol) simp_all
qed

lemma access_fields [simp]:
  "node_value (access pol f l p h) = node_value h"
  "node_weight (access pol f l p h) = node_weight h"
proof -
  have "node_value (base_access b f l p h) = node_value h \<and>
        node_weight (base_access b f l p h) = node_weight h" for b
    by (cases b) (simp_all add: move_def iter_swap_def Let_def)
  then show "node_value (access pol f l p h) = node_value h"
    "node_weight (access pol f l p h) = node_weight h"
    by (cases pol; simp)+
qed

end
