(* ===== verification/Cache_Manager.thy ===== *)
theory Cache_Manager
  imports Policy
begin

text \<open>
  The replacement manager (\<open>cache_manager/cache_manager.h\<close>, class
  \<open>cache_manager\<close>). Its state is the record \<open>cache_manager\<close>: capacity, total weight,
  weigher and policy, and the address \<open>cm_first\<close> of its sentinel node \<open>_first\<close>,
  which lives in the node heap with the entries. Each member function is a function
  from the heap and the manager to the new heap, the new manager and its result; the
  build modelled is the default one (\<open>NDEBUG\<close> and \<open>CACHE_STORE_WEIGHT\<close> undefined),
  where each node caches its weight and \<open>calculate_weight(it)\<close> calls the weigher.
  The \<open>assert\<close>s of the source are preconditions of the lemmas, except the policy's,
  which \<open>erase_position\<close> returns as \<open>None\<close>. \<open>cm_inv\<close> is the manager's invariant:
  the ring (I2), cached weights equal to the weigher's (I4), and the weight counter equal
  to the sum of the weights and within the capacity (I3), read in \<open>nat\<close>.
\<close>

section \<open>State\<close>

record ('p, 'v, 'r) cache_manager =
  cm_capacity :: size_t
  cm_first :: 'p
  cm_weight :: size_t
  cm_weigher :: "'v \<Rightarrow> size_t"
  cm_policy :: "('v, 'r) policy"

type_synonym ('p, 'v, 'r) cm_state = "('p, 'v) heap \<times> ('p, 'v, 'r) cache_manager"

section \<open>Member functions\<close>

text \<open>
  \<open>cache_manager(capacity, weigher, policy)\<close>: the sentinel, at \<open>s\<close>, is linked to
  itself (\<open>_first = {T{}, {&_first, &_first}}\<close>) and the weight is 0.
\<close>

definition cm_construct ::
  "size_t \<Rightarrow> ('v \<Rightarrow> size_t) \<Rightarrow> ('v, 'r) policy \<Rightarrow> 'p \<Rightarrow> ('p, 'v) heap \<Rightarrow> ('p, 'v, 'r) cm_state" where
  "cm_construct c wt pol s h =
     (link s s h, \<lparr>cm_capacity = c, cm_first = s, cm_weight = 0, cm_weigher = wt, cm_policy = pol\<rparr>)"

text \<open>
  \<open>cache_manager()\<close>: capacity 0, with the default weigher \<open>weight<T>\<close> and the default
  policy \<open>lru<T>\<close> of the template.
\<close>

definition cm_default :: "'p \<Rightarrow> ('p, 'v) heap \<Rightarrow> ('p, 'v, 'r) cm_state" where
  "cm_default s h = cm_construct 0 default_weight (Plain Lru) s h"

text \<open>\<open>toIter(node)\<close>: the iterator at a node is its address.\<close>

definition cm_to_iter :: "'p \<Rightarrow> 'p" where
  "cm_to_iter p = p"

text \<open>\<open>_fix_first(otherFirst)\<close>: repoint the neighbours of a copied sentinel.\<close>

definition fix_first :: "'p \<Rightarrow> 'p \<Rightarrow> ('p, 'v) heap \<Rightarrow> ('p, 'v) heap" where
  "fix_first s other_first h =
     (if node_next h s = other_first then link s s h
      else (let h1 = link s (node_next h s) h in link (node_prev h1 s) s h1))"

text \<open>Copying the \<open>cache_node\<close> part of the sentinel at \<open>src\<close> into the one at \<open>dst\<close>.\<close>

definition copy_links :: "'p \<Rightarrow> 'p \<Rightarrow> ('p, 'v) heap \<Rightarrow> ('p, 'v) heap" where
  "copy_links dst src h =
     h\<lparr>node_prev := (node_prev h)(dst := node_prev h src),
       node_next := (node_next h)(dst := node_next h src),
       node_weight := (node_weight h)(dst := node_weight h src)\<rparr>"

text \<open>
  Move constructor: the new manager's sentinel is at \<open>s'\<close> and copies the other's
  (\<open>_first(other._first)\<close>); the other manager is left as it was.
\<close>

definition cm_move_construct ::
  "'p \<Rightarrow> ('p, 'v) heap \<Rightarrow> ('p, 'v, 'r) cache_manager \<Rightarrow> ('p, 'v, 'r) cm_state" where
  "cm_move_construct s' h other =
     (let h1 = (copy_links s' (cm_first other) h)
                 \<lparr>node_value := (node_value h)(s' := node_value h (cm_first other))\<rparr>
      in (fix_first s' (cm_first other) h1, other\<lparr>cm_first := s'\<rparr>))"

text \<open>Move assignment: returns the heap, the assigned manager and the moved-from one.\<close>

definition cm_move_assign ::
  "('p, 'v) heap \<Rightarrow> ('p, 'v, 'r) cache_manager \<Rightarrow> ('p, 'v, 'r) cache_manager \<Rightarrow>
   ('p, 'v) heap \<times> ('p, 'v, 'r) cache_manager \<times> ('p, 'v, 'r) cache_manager" where
  "cm_move_assign h this other =
     (let s = cm_first this; so = cm_first other;
          h1 = link so so (copy_links s so h);
          this' = this\<lparr>cm_capacity := cm_capacity other, cm_weight := cm_weight other,
                       cm_weigher := cm_weigher other, cm_policy := cm_policy other\<rparr>;
          other' = other\<lparr>cm_capacity := 0, cm_weight := 0\<rparr>
      in (fix_first s so h1, this', other'))"

text \<open>\<open>swap(other)\<close>.\<close>

definition cm_swap ::
  "('p, 'v) heap \<Rightarrow> ('p, 'v, 'r) cache_manager \<Rightarrow> ('p, 'v, 'r) cache_manager \<Rightarrow>
   ('p, 'v) heap \<times> ('p, 'v, 'r) cache_manager \<times> ('p, 'v, 'r) cache_manager" where
  "cm_swap h this other =
     (let s = cm_first this; so = cm_first other;
          h1 = copy_links so s (copy_links s so h)
                 \<lparr>node_prev := (node_prev h)(s := node_prev h so, so := node_prev h s),
                   node_next := (node_next h)(s := node_next h so, so := node_next h s),
                   node_weight := (node_weight h)(s := node_weight h so, so := node_weight h s)\<rparr>;
          h2 = fix_first so s (fix_first s so h1)
      in (h2, this\<lparr>cm_capacity := cm_capacity other, cm_weight := cm_weight other,
                   cm_weigher := cm_weigher other, cm_policy := cm_policy other\<rparr>,
              other\<lparr>cm_capacity := cm_capacity this, cm_weight := cm_weight this,
                    cm_weigher := cm_weigher this, cm_policy := cm_policy this\<rparr>))"

definition cm_set_capacity ::
  "size_t \<Rightarrow> ('p, 'v, 'r) cache_manager \<Rightarrow> ('p, 'v, 'r) cache_manager" where
  "cm_set_capacity c m = m\<lparr>cm_capacity := c\<rparr>"

definition calculate_weight :: "('p, 'v) heap \<Rightarrow> ('p, 'v, 'r) cache_manager \<Rightarrow> 'p \<Rightarrow> size_t" where
  "calculate_weight h m it = cm_weigher m (node_value h it)"

text \<open>\<open>can_fit(weight)\<close>: \<open>(_weight + weight) <= _capacity\<close> in \<open>size_t\<close>.\<close>

definition can_fit :: "('p, 'v, 'r) cache_manager \<Rightarrow> size_t \<Rightarrow> bool" where
  "can_fit m w \<longleftrightarrow> cm_weight m + w \<le> cm_capacity m"

text \<open>\<open>can_fit(val)\<close>: \<open>can_fit(calculate_weight(val))\<close>.\<close>

definition cm_can_fit_val :: "('p, 'v, 'r) cache_manager \<Rightarrow> 'v \<Rightarrow> bool" where
  "cm_can_fit_val m v \<longleftrightarrow> can_fit m (cm_weigher m v)"

definition cm_clear :: "('p, 'v, 'r) cm_state \<Rightarrow> ('p, 'v, 'r) cm_state" where
  "cm_clear st = (let (h, m) = st in (link (cm_first m) (cm_first m) h, m\<lparr>cm_weight := 0\<rparr>))"

text \<open>\<open>insert(node)\<close>: splice before the policy's insert position, count the weight.\<close>

definition cm_insert :: "'p \<Rightarrow> ('p, 'v, 'w::len word) cm_state \<Rightarrow> ('p, 'v, 'w word) cm_state" where
  "cm_insert node st =
     (let (h, m) = st; s = cm_first m;
          w = cm_weigher m (node_value h node);
          place = insert_position (cm_policy m) (node_next h s) s;
          prev = node_prev h place;
          h1 = link node place (link prev node h)
      in (h1\<lparr>node_weight := (node_weight h1)(node := w)\<rparr>, m\<lparr>cm_weight := cm_weight m + w\<rparr>))"

text \<open>\<open>reinsert(it)\<close>: relink a node through its own, preserved, \<open>prev\<close> and \<open>next\<close>.\<close>

definition cm_reinsert :: "'p \<Rightarrow> ('p, 'v, 'r) cm_state \<Rightarrow> ('p, 'v, 'r) cm_state" where
  "cm_reinsert it st =
     (let (h, m) = st; w = calculate_weight h m it;
          prev = node_prev h it; next = node_next h it
      in (link it next (link prev it h), m\<lparr>cm_weight := cm_weight m + w\<rparr>))"

definition cm_update_weight ::
  "'p \<Rightarrow> size_t \<Rightarrow> size_t \<Rightarrow> ('p, 'v, 'r) cm_state \<Rightarrow> ('p, 'v, 'r) cm_state" where
  "cm_update_weight it old_weight new_weight st =
     (let (h, m) = st
      in (h\<lparr>node_weight := (node_weight h)(it := new_weight)\<rparr>,
          m\<lparr>cm_weight := cm_weight m - old_weight + new_weight\<rparr>))"

text \<open>\<open>update_weight(it, oldWeight)\<close>: the new weight is \<open>calculate_weight(*it)\<close>.\<close>

definition cm_update_weight_calc :: "'p \<Rightarrow> size_t \<Rightarrow> ('p, 'v, 'r) cm_state \<Rightarrow> ('p, 'v, 'r) cm_state" where
  "cm_update_weight_calc it old_weight st =
     cm_update_weight it old_weight (calculate_weight (fst st) (snd st) it) st"

text \<open>\<open>erase(node)\<close> and \<open>erase(it)\<close>, which also returns the successor.\<close>

definition cm_erase_node :: "'p \<Rightarrow> ('p, 'v, 'r) cm_state \<Rightarrow> ('p, 'v, 'r) cm_state" where
  "cm_erase_node node st =
     (let (h, m) = st; prev = node_prev h node; next = node_next h node;
          h1 = link prev next h; w = calculate_weight h m node
      in (h1, m\<lparr>cm_weight := cm_weight m - w\<rparr>))"

definition cm_erase :: "'p \<Rightarrow> ('p, 'v, 'r) cm_state \<Rightarrow> ('p, 'v, 'r) cm_state \<times> 'p" where
  "cm_erase it st = (let next = node_next (fst st) it in (cm_erase_node it st, next))"

text \<open>\<open>erase(first, last)\<close>: the weight loop, then one unlink of the range.\<close>

partial_function (option) weight_sum ::
  "('v \<Rightarrow> size_t) \<Rightarrow> ('p, 'v) heap \<Rightarrow> 'p \<Rightarrow> 'p \<Rightarrow> size_t \<Rightarrow> size_t option" where
  "weight_sum weigher h it last_it acc =
     (if it = last_it then Some acc
      else weight_sum weigher h (node_next h it) last_it (acc + weigher (node_value h it)))"

definition cm_erase_range ::
  "'p \<Rightarrow> 'p \<Rightarrow> ('p, 'v, 'r) cm_state \<Rightarrow> (('p, 'v, 'r) cm_state \<times> 'p) option" where
  "cm_erase_range first_it last_it st =
     (let (h, m) = st; prev = node_prev h first_it; next = last_it
      in map_option (\<lambda>sum_weight. ((link prev next h, m\<lparr>cm_weight := cm_weight m - sum_weight\<rparr>), next))
           (weight_sum (cm_weigher m) h first_it last_it 0))"

definition cm_access :: "'p \<Rightarrow> ('p, 'v, 'w::len word) cm_state \<Rightarrow> ('p, 'v, 'w word) cm_state" where
  "cm_access it st =
     (let (h, m) = st; s = cm_first m
      in (access (cm_policy m) (node_next h s) s it h, m))"

text \<open>\<open>next()\<close> and \<open>next(hint)\<close>.\<close>

definition cm_next :: "('p, 'v, 'w::len word) cm_state \<Rightarrow> 'p option" where
  "cm_next st =
     (let (h, m) = st; s = cm_first m
      in if node_next h s = s then Some s else erase_position (cm_policy m) h (node_next h s) s)"

definition cm_next_hint :: "'p \<Rightarrow> ('p, 'v, 'w::len word) cm_state \<Rightarrow> 'p option" where
  "cm_next_hint hint st =
     (let (h, m) = st; s = cm_first m
      in if hint = s then Some s else erase_position (cm_policy m) h hint s)"

text \<open>
  \<open>next_except(except)\<close> and \<open>next_except(hint, except)\<close>: unlink \<open>except\<close>, ask the
  policy, link it back; they return the heap after the relinking with the victim.
\<close>

definition cm_next_except ::
  "'p \<Rightarrow> ('p, 'v, 'w::len word) cm_state \<Rightarrow> (('p, 'v) heap \<times> 'p) option" where
  "cm_next_except except st =
     (let (h, m) = st; s = cm_first m
      in if node_next h s = s then Some (h, s)
         else (let prev = node_prev h except; next = node_next h except; h1 = link prev next h
               in map_option (\<lambda>ret. (link except next (link prev except h1), ret))
                    (erase_position (cm_policy m) h1 (node_next h1 s) s)))"

definition cm_next_except_hint ::
  "'p \<Rightarrow> 'p \<Rightarrow> ('p, 'v, 'w::len word) cm_state \<Rightarrow> (('p, 'v) heap \<times> 'p) option" where
  "cm_next_except_hint hint except st =
     (let (h, m) = st; s = cm_first m
      in if node_next h s = s then Some (h, s)
         else (let hint' = (if hint = except then node_next h hint else hint);
                   prev = node_prev h except; next = node_next h except; h1 = link prev next h
               in map_option (\<lambda>ret. (link except next (link prev except h1), ret))
                    (erase_position (cm_policy m) h1 hint' s)))"

section \<open>Invariant\<close>

definition cm_inv :: "('p, 'v) heap \<Rightarrow> ('p, 'v, 'r) cache_manager \<Rightarrow> 'p list \<Rightarrow> bool" where
  "cm_inv h m xs \<longleftrightarrow>
     dl_ring h (cm_first m) xs \<and>
     list_all (\<lambda>p. node_weight h p = cm_weigher m (node_value h p)) xs \<and>
     unat (cm_weight m) = unat_sum (node_weight h) xs \<and>
     cm_weight m \<le> cm_capacity m"

text \<open>Where a policy puts a new node: before the head, or before the sentinel.\<close>

fun inserts_at_head :: "('v, 'r) policy \<Rightarrow> bool" where
  "inserts_at_head (Plain b) = (b \<in> {Lifo, Mru, Swapping})"
| "inserts_at_head Example = True"
| "inserts_at_head (Locked b lk) = (b \<in> {Lifo, Mru, Swapping})"
| "inserts_at_head (Priority b pr) = (b \<in> {Lifo, Mru, Swapping})"

definition insert_list :: "('v, 'r) policy \<Rightarrow> 'p \<Rightarrow> 'p list \<Rightarrow> 'p list" where
  "insert_list pol n xs = (if inserts_at_head pol then n # xs else xs @ [n])"

text \<open>The fields of a manager other than its weight counter.\<close>

definition cm_config :: "('p, 'v, 'r) cache_manager \<Rightarrow> size_t \<times> 'p \<times> ('v \<Rightarrow> size_t) \<times> ('v, 'r) policy" where
  "cm_config m = (cm_capacity m, cm_first m, cm_weigher m, cm_policy m)"

section \<open>Insert, erase and reinsert keep the invariant\<close>

text \<open>A policy inserts at the head exactly when it provides an insert hook.\<close>

lemma inserts_at_head_provides: "inserts_at_head pol = provides_insert pol"
  by (cases pol) simp_all

lemma insert_position_head:
  "insert_position pol f l = (if inserts_at_head pol then f else l)"
  using insert_position_provided [of pol f l] by (simp add: inserts_at_head_provides)

lemma cm_inv_ring: "cm_inv h m xs \<Longrightarrow> dl_ring h (cm_first m) xs"
  by (simp add: cm_inv_def)

lemma cm_inv_weights:
  "cm_inv h m xs \<Longrightarrow> p \<in> set xs \<Longrightarrow> node_weight h p = cm_weigher m (node_value h p)"
  by (simp add: cm_inv_def list_all_iff)

text \<open>The splice done by \<open>insert(node)\<close>, before the head or before the sentinel.\<close>

lemma insert_ring:
  assumes r: "dl_ring h s xs" and fresh: "n \<notin> set (s # xs)"
  shows "dl_ring (link n (insert_position pol (node_next h s) s)
            (link (node_prev h (insert_position pol (node_next h s) s)) n h)) s
          (insert_list pol n xs)"
proof (cases "inserts_at_head pol")
  case True
  have "node_next h s = hd (xs @ [s])" "node_prev h (hd (xs @ [s])) = s"
    using dl_ring_links_split(3,4) [of h s "[]" xs] r by simp_all
  moreover have "dl_ring (link (last [n]) (hd (xs @ [s])) (link (last (s # [])) (hd [n]) h)) s
      ([] @ [n] @ xs)"
    using r fresh by (intro ring_splice_seg) simp_all
  ultimately show ?thesis
    using True by (simp add: insert_position_head insert_list_def del: hd_append_snoc)
next
  case False
  have "node_prev h s = last (s # xs)"
    using dl_ring_links_split(4) [of h s xs "[]"] r by simp
  moreover have "dl_ring (link (last [n]) (hd ([] @ [s])) (link (last (s # xs)) (hd [n]) h)) s
      (xs @ [n] @ [])"
    using r fresh by (intro ring_splice_seg) simp_all
  ultimately show ?thesis
    using False by (simp add: insert_position_head insert_list_def)
qed

lemma cm_insert_step:
  assumes inv: "cm_inv h m xs" and fresh: "n \<notin> set (cm_first m # xs)"
    and fit: "unat (cm_weight m) + unat (cm_weigher m (node_value h n)) \<le> unat (cm_capacity m)"
  shows "cm_inv (fst (cm_insert n (h, m))) (snd (cm_insert n (h, m))) (insert_list (cm_policy m) n xs) \<and>
    node_value (fst (cm_insert n (h, m))) = node_value h \<and>
    cm_config (snd (cm_insert n (h, m))) = cm_config m \<and>
    unat (cm_weight (snd (cm_insert n (h, m)))) = unat (cm_weight m) + unat (cm_weigher m (node_value h n))"
proof -
  obtain h' m' where ins: "cm_insert n (h, m) = (h', m')" by (metis prod.exhaust)
  let ?s = "cm_first m" and ?w = "cm_weigher m (node_value h n)"
  let ?place = "insert_position (cm_policy m) (node_next h ?s) ?s"
  let ?h1 = "link n ?place (link (node_prev h ?place) n h)"
  let ?L = "insert_list (cm_policy m) n xs"
  have h': "h' = ?h1\<lparr>node_weight := (node_weight ?h1)(n := ?w)\<rparr>"
    and m': "m' = m\<lparr>cm_weight := cm_weight m + ?w\<rparr>"
    using ins by (simp_all add: cm_insert_def Let_def)
  have "dl_ring ?h1 ?s ?L"
    using cm_inv_ring [OF inv] fresh by (rule insert_ring)
  then have r': "dl_ring h' (cm_first m') ?L" using h' m' by simp
  have ms: "mset ?L = mset (n # xs)" by (simp add: insert_list_def)
  then have sL: "set ?L = insert n (set xs)" by (metis mset_eq_setD set_simps(2))
  have nx: "n \<notin> set xs" using fresh by simp
  have "list_all (\<lambda>p. node_weight h' p = cm_weigher m' (node_value h' p)) ?L"
    using inv nx h' m' sL by (auto simp: list_all_iff cm_inv_weights)
  moreover have "unat_sum (node_weight h') ?L = unat_sum (node_weight h') (n # xs)"
    using ms by (rule unat_sum_mset)
  moreover have "unat_sum (node_weight h') xs = unat_sum (node_weight h) xs"
    using nx h' by (intro unat_sum_cong) auto
  moreover have "unat (cm_weight m') = unat (cm_weight m) + unat ?w"
    using fit m' by (simp add: unat_add_le_unat)
  moreover have "unat (cm_weight m) = unat_sum (node_weight h) xs"
    using inv by (simp add: cm_inv_def)
  ultimately have "unat (cm_weight m') = unat_sum (node_weight h') ?L"
    and "list_all (\<lambda>p. node_weight h' p = cm_weigher m' (node_value h' p)) ?L"
    using h' by simp_all
  moreover have "cm_weight m' \<le> cm_capacity m'"
    using fit m' \<open>unat (cm_weight m') = unat (cm_weight m) + unat ?w\<close>
    by (simp add: word_le_nat_alt)
  ultimately show ?thesis
    using r' ins h' m' \<open>unat (cm_weight m') = unat (cm_weight m) + unat ?w\<close> by (simp add: cm_inv_def cm_config_def)
qed

text \<open>
  C29. \<open>insert(node)\<close> of a fresh node whose weight fits keeps the manager's invariant
  (the ring, the cached weights, the weight counter equal to their sum and within the
  capacity), and places the node at the head or at the tail of the replacement order,
  as the policy's insert hook says.
\<close>

lemma cm_insert_inv:
  assumes inv: "cm_inv h m xs" and fresh: "n \<notin> set (cm_first m # xs)"
    and fit: "unat (cm_weight m) + unat (cm_weigher m (node_value h n)) \<le> unat (cm_capacity m)"
    and ins: "cm_insert n (h, m) = (h', m')"
  shows "cm_inv h' m' (insert_list (cm_policy m) n xs)"
  using cm_insert_step [OF inv fresh fit] ins by simp

lemma cm_erase_step:
  assumes inv: "cm_inv h m (as @ p # bs)"
  shows "cm_inv (fst (fst (cm_erase p (h, m)))) (snd (fst (cm_erase p (h, m)))) (as @ bs) \<and>
    snd (cm_erase p (h, m)) = hd (bs @ [cm_first m]) \<and>
    node_value (fst (fst (cm_erase p (h, m)))) = node_value h \<and>
    node_weight (fst (fst (cm_erase p (h, m)))) = node_weight h \<and>
    cm_config (snd (fst (cm_erase p (h, m)))) = cm_config m \<and>
    unat (cm_weight (snd (fst (cm_erase p (h, m))))) + unat (node_weight h p) = unat (cm_weight m)"
proof -
  obtain h' m' nx where er: "cm_erase p (h, m) = ((h', m'), nx)" by (metis prod.exhaust)
  let ?s = "cm_first m" and ?w = "cm_weigher m (node_value h p)"
  have r: "dl_ring h ?s (as @ [p] @ bs)" using cm_inv_ring [OF inv] by simp
  have pp: "node_prev h p = last (?s # as)" and np: "node_next h p = hd (bs @ [?s])"
    using dl_ring_node [of h ?s as p bs] inv by (simp_all add: cm_inv_def)
  have h': "h' = link (node_prev h p) (node_next h p) h"
    and m': "m' = m\<lparr>cm_weight := cm_weight m - ?w\<rparr>" and nx': "nx = node_next h p"
    using er by (auto simp add: cm_erase_def cm_erase_node_def calculate_weight_def Let_def)
  have nx: "nx = hd (bs @ [?s])" using nx' np by simp
  have r': "dl_ring h' ?s (as @ bs)"
    using ring_unlink_seg [OF r] h' pp np by simp
  have wp: "node_weight h p = ?w" using inv by (simp add: cm_inv_weights)
  have sum: "unat (cm_weight m) = unat_sum (node_weight h) (as @ bs) + unat ?w"
    using inv wp by (simp add: cm_inv_def)
  then have le: "?w \<le> cm_weight m" by (simp add: word_le_nat_alt)
  have "unat (cm_weight m') = unat_sum (node_weight h') (as @ bs)"
    using sum le m' h' by (simp add: unat_sub_no_wrap)
  moreover have "list_all (\<lambda>q. node_weight h' q = cm_weigher m' (node_value h' q)) (as @ bs)"
    using inv h' m' by (simp add: cm_inv_def)
  moreover have "cm_weight m - ?w \<le> cm_weight m" using le by (rule word_sub_le)
  then have "cm_weight m' \<le> cm_capacity m'"
    using inv m' by (auto simp: cm_inv_def elim: order_trans)
  ultimately show ?thesis
    using r' er h' m' nx wp sum le by (simp add: cm_inv_def cm_config_def unat_sub_no_wrap)
qed

text \<open>
  C30. \<open>erase(it)\<close> of a node of the list keeps the invariant, removes exactly that
  node from the replacement order, leaves the sentinel in place, and returns the node
  that followed it (the end of the list when it was the last).
\<close>

lemma cm_erase_inv:
  assumes inv: "cm_inv h m (as @ p # bs)"
    and er: "cm_erase p (h, m) = ((h', m'), nx)"
  shows "cm_inv h' m' (as @ bs) \<and> nx = hd (bs @ [cm_first m]) \<and> cm_first m' = cm_first m"
  using cm_erase_step [OF inv] er by (simp add: cm_config_def)

text \<open>
  \<open>erase(node)\<close> followed by \<open>reinsert(it)\<close> of the same node, with nothing in
  between, restores the heap and the manager exactly.
\<close>

lemma cm_erase_reinsert:
  assumes inv: "cm_inv h m xs" and p: "p \<in> set xs"
  shows "cm_reinsert p (cm_erase_node p (h, m)) = (h, m)"
proof -
  obtain as bs where xs: "xs = as @ p # bs" using p by (blast dest: split_list)
  let ?s = "cm_first m" and ?A = "node_prev h p" and ?B = "node_next h p"
  have r: "dl_ring h ?s (as @ p # bs)" using cm_inv_ring [OF inv] xs by simp
  have d: "distinct (?s # as @ p # bs)" using r by (rule dl_ring_distinct)
  have A: "?A = last (?s # as)" and B: "?B = hd (bs @ [?s])"
    using dl_ring_node [OF r] by simp_all
  have "last (?s # as) \<in> set (?s # as)" "hd (bs @ [?s]) \<in> set (bs @ [?s])" by simp_all
  then have ne: "p \<noteq> ?A" "p \<noteq> ?B" using d A B by auto
  have nA: "node_next h ?A = p" and pB: "node_prev h ?B = p"
    using dl_ring_links_mid(2,5) [of h ?s as "[p]" bs] r A B by simp_all
  have "link p ?B (link ?A p (link ?A ?B h)) = h"
    using nA pB by (intro link_relink) simp_all
  then show ?thesis
    using ne by (simp add: cm_erase_node_def cm_reinsert_def calculate_weight_def Let_def)
qed

lemma cm_inv_seg:
  assumes inv: "cm_inv h m xs"
  shows "seg (node_next h) (node_next h (cm_first m)) xs (cm_first m)"
proof -
  let ?s = "cm_first m"
  have r: "dl_ring h ?s ([] @ xs)" using cm_inv_ring [OF inv] by simp
  have "node_next h ?s = hd (xs @ [?s])"
    using dl_ring_links_split(3) [OF r] by simp
  moreover have "seg (node_next h) (hd (xs @ [?s])) xs ?s"
    using dl_ring_links_split(2) [OF r] dl_ring_distinct [OF r] by (intro dl_ring_seg) simp_all
  ultimately show ?thesis by simp
qed

lemma cm_inv_empty: "cm_inv h m xs \<Longrightarrow> node_next h (cm_first m) = cm_first m \<longleftrightarrow> xs = []"
  using cm_inv_seg [of h m xs] dl_ring_distinct [OF cm_inv_ring, of h m xs]
  by (cases xs) (auto dest: seg_hd)

lemma cm_next_pick:
  "cm_inv h m xs \<Longrightarrow> xs \<noteq> [] \<Longrightarrow>
   cm_next (h, m) = Some (erase_pick (cm_policy m) (node_value h) xs (cm_first m))"
  using cm_inv_seg [of h m xs] cm_inv_empty [of h m xs]
  by (simp add: cm_next_def erase_position_seg)

text \<open>
  C32. \<open>next()\<close> on a well-formed list, under every policy but the priority policy, returns
  the victim of the design's policy table: the head, or the end on an empty list, for the
  policies without an erase hook and the example policy, and the first unlocked entry, or
  the end, for the locked policy; the pointer loops of the hooks return. (The priority
  policy's scan departs from the design's rule; see the root theory.)
\<close>

lemma cm_next_spec:
  assumes inv: "cm_inv h m xs" and np: "\<not> is_priority (cm_policy m)"
  shows "cm_next (h, m) = Some (erase_pick (cm_policy m) (node_value h) xs (cm_first m))"
proof -
  have "cm_next (h, m) =
      (if xs = [] then Some (cm_first m) else erase_spec (cm_policy m) (node_value h) xs (cm_first m))"
    using cm_next_pick [OF inv] cm_inv_empty [OF inv] by (simp add: cm_next_def erase_spec_def)
  then show ?thesis using np by (cases "cm_policy m") (auto simp: erase_spec_def)
qed

lemma cm_next_victim:
  assumes inv: "cm_inv h m xs"
  shows "\<exists>v. cm_next (h, m) = Some v \<and> v \<in> insert (cm_first m) (set xs)"
proof (cases "xs = []")
  case True
  then show ?thesis using cm_inv_empty [OF inv] by (simp add: cm_next_def)
next
  case False
  then have "cm_next (h, m) = Some (erase_pick (cm_policy m) (node_value h) xs (cm_first m))"
    by (rule cm_next_pick [OF inv])
  moreover have "erase_pick (cm_policy m) (node_value h) xs (cm_first m) \<in> insert (cm_first m) (set xs)"
    by (rule erase_pick_in)
  ultimately show ?thesis by blast
qed

lemma cm_inv_value_upd:
  "p \<notin> set xs \<Longrightarrow> cm_inv (h\<lparr>node_value := (node_value h)(p := v)\<rparr>) m xs = cm_inv h m xs"
  by (auto simp: cm_inv_def list_all_iff)

section \<open>Victim selection, access and clear\<close>

text \<open>Unlinking a node and linking it back through its old neighbours.\<close>

lemma unlink_relink:
  assumes r: "dl_ring h s (as @ e # bs)"
  shows "dl_ring (link (node_prev h e) (node_next h e) h) s (as @ bs)"
    and "link e (node_next h e) (link (node_prev h e) e (link (node_prev h e) (node_next h e) h)) = h"
    and "node_next (link (node_prev h e) (node_next h e) h) s = hd ((as @ bs) @ [s])"
proof -
  have r1: "dl_ring h s (as @ [e] @ bs)" using r by simp
  have A: "node_prev h e = last (s # as)" and B: "node_next h e = hd (bs @ [s])"
    using dl_ring_node [OF r] by simp_all
  show r2: "dl_ring (link (node_prev h e) (node_next h e) h) s (as @ bs)"
    using ring_unlink_seg [OF r1] A B by simp
  have "node_next h (node_prev h e) = e" "node_prev h (node_next h e) = e"
    using dl_ring_links_mid(2,5) [of h s as "[e]" bs] r A B by simp_all
  then show "link e (node_next h e) (link (node_prev h e) e (link (node_prev h e) (node_next h e) h)) = h"
    by (intro link_relink) simp_all
  have r3: "dl_ring (link (node_prev h e) (node_next h e) h) s ([] @ (as @ bs))"
    using r2 by simp
  show "node_next (link (node_prev h e) (node_next h e) h) s = hd ((as @ bs) @ [s])"
    using dl_ring_links_split(3) [OF r3] by simp
qed

text \<open>
  \<open>next_except(except)\<close> of a listed node leaves the list as it was and
  returns the victim the policy picks from the list without that node.
\<close>

lemma cm_next_except_spec:
  assumes inv: "cm_inv h m xs" and e: "e \<in> set xs"
  shows "cm_next_except e (h, m) =
    map_option (\<lambda>r. (h, r)) (erase_spec (cm_policy m) (node_value h) (remove1 e xs) (cm_first m))"
proof -
  obtain as bs where xs: "xs = as @ e # bs" using e by (blast dest: split_list)
  let ?s = "cm_first m"
  let ?h1 = "link (node_prev h e) (node_next h e) h"
  have r: "dl_ring h ?s (as @ e # bs)" using cm_inv_ring [OF inv] xs by simp
  have d: "distinct (?s # as @ e # bs)" using r by (rule dl_ring_distinct)
  note u = unlink_relink [OF r]
  have ns: "node_next h ?s \<noteq> ?s"
    using dl_ring_links_split(3) [of h ?s "[]" xs] cm_inv_ring [OF inv] xs d by (cases as) auto
  have r3: "dl_ring ?h1 ?s ([] @ (as @ bs))" using u(1) by simp
  have "seg (node_next ?h1) (hd ((as @ bs) @ [?s])) (as @ bs) ?s"
    using dl_ring_links_split(2) [OF r3] dl_ring_distinct [OF u(1)]
    by (intro dl_ring_seg) simp_all
  then have "erase_position (cm_policy m) ?h1 (node_next ?h1 ?s) ?s =
      erase_spec (cm_policy m) (node_value h) (as @ bs) ?s"
    using u(3) by (simp add: erase_position_spec del: hd_append_snoc)
  moreover have "remove1 e xs = as @ bs" using d xs by (simp add: remove1_split)
  ultimately show ?thesis
    using ns u(2) by (simp add: cm_next_except_def Let_def option.map_comp comp_def)
qed

text \<open>Victim selection from a hint: \<open>next(hint)\<close> and \<open>next_except(hint, except)\<close>.\<close>

lemma cm_next_hint_spec:
  assumes inv: "cm_inv h m (as @ bs)"
  shows "cm_next_hint (hd (bs @ [cm_first m])) (h, m) =
    Some (if bs = [] then cm_first m else erase_pick (cm_policy m) (node_value h) bs (cm_first m))"
proof -
  let ?s = "cm_first m"
  have r: "dl_ring h ?s (as @ bs)" using inv by (rule cm_inv_ring)
  have "bs \<noteq> [] \<Longrightarrow> hd bs \<noteq> ?s" using dl_ring_distinct [OF r] by (cases bs) auto
  moreover have "seg (node_next h) (hd (bs @ [?s])) bs ?s" using r by (rule dl_ring_suffix_seg)
  ultimately show ?thesis by (auto simp: cm_next_hint_def erase_position_seg)
qed

lemma cm_next_except_hint_spec:
  assumes inv: "cm_inv h m (as @ bs)" and e: "e \<in> set (as @ bs)"
  shows "cm_next_except_hint (hd (bs @ [cm_first m])) e (h, m) =
    map_option (\<lambda>r. (h, r)) (erase_spec (cm_policy m) (node_value h) (remove1 e bs) (cm_first m))"
proof -
  let ?s = "cm_first m" and ?hint = "hd (bs @ [cm_first m])"
  let ?h1 = "link (node_prev h e) (node_next h e) h"
  let ?hint' = "if ?hint = e then node_next h e else ?hint"
  have r: "dl_ring h ?s (as @ bs)" using inv by (rule cm_inv_ring)
  have d: "distinct (?s # as @ bs)" using r by (rule dl_ring_distinct)
  obtain as' where ring1: "dl_ring ?h1 ?s (as' @ remove1 e bs)" and hint: "?hint' = hd (remove1 e bs @ [?s])"
    and relink: "link e (node_next h e) (link (node_prev h e) e ?h1) = h"
  proof (cases "e \<in> set as")
    case True
    then obtain as1 as2 where as: "as = as1 @ e # as2" by (blast dest: split_list)
    have r': "dl_ring h ?s (as1 @ e # (as2 @ bs))" using r as by simp
    have "e \<notin> set bs" using d as by auto
    moreover have "?hint \<noteq> e" using d as hd_in_set_snoc [of bs ?s] by auto
    ultimately show ?thesis
      using that [of "as1 @ as2"] unlink_relink [OF r'] by (simp add: remove1_idem)
  next
    case False
    then obtain bs1 bs2 where bs: "bs = bs1 @ e # bs2" using e by (auto dest: split_list)
    have r': "dl_ring h ?s ((as @ bs1) @ e # bs2)" using r bs by simp
    have "e \<notin> set bs1" using d bs by auto
    then have rm: "remove1 e bs = bs1 @ bs2" using bs by (simp add: remove1_split)
    have "node_next h e = hd (bs2 @ [?s])" using dl_ring_node [OF r'] by simp
    moreover have "bs1 \<noteq> [] \<Longrightarrow> hd bs1 \<noteq> e" using \<open>e \<notin> set bs1\<close> by (cases bs1) auto
    ultimately have "?hint' = hd (remove1 e bs @ [?s])" using rm bs by (cases bs1) auto
    then show ?thesis using that [of as] unlink_relink [OF r'] rm by simp
  qed
  have ne: "node_next h ?s \<noteq> ?s"
    using cm_inv_empty [OF inv] e by auto
  have "erase_position (cm_policy m) ?h1 ?hint' ?s = erase_spec (cm_policy m) (node_value h) (remove1 e bs) ?s"
    unfolding hint using erase_position_spec [OF dl_ring_suffix_seg [OF ring1]]
    by (simp del: hd_append_snoc)
  then show ?thesis
    using ne relink by (cases "?hint = e")
      (simp_all add: cm_next_except_hint_def Let_def option.map_comp comp_def del: hd_append_snoc)
qed

text \<open>
  C35. \<open>next_except(hint, except)\<close> with the end of the list as hint has no guard
  for it, unlike \<open>next(hint)\<close>: it asks the policy for a victim of the empty range,
  which for the priority policy is its failed assertion.
\<close>

lemma cm_next_except_hint_end:
  assumes inv: "cm_inv h m xs" and e: "e \<in> set xs"
  shows "cm_next_except_hint (cm_first m) e (h, m) =
    map_option (\<lambda>r. (h, r)) (erase_spec (cm_policy m) (node_value h) [] (cm_first m))"
  using cm_next_except_hint_spec [of h m xs "[]" e] inv e by simp

text \<open>
  After \<open>clear()\<close> the manager satisfies its invariant with the empty list:
  the sentinel is linked to itself and the weight counter is zero.
\<close>

lemma cm_clear_inv: "cm_inv (fst (cm_clear st)) (snd (cm_clear st)) []"
  by (cases st) (simp add: cm_clear_def cm_inv_def dl_ring_def)

lemma cm_access_step:
  assumes inv: "cm_inv h m xs" and p: "p \<in> set xs"
  shows "cm_inv (fst (cm_access p (h, m))) (snd (cm_access p (h, m))) (access_list (cm_policy m) p xs) \<and>
    node_value (fst (cm_access p (h, m))) = node_value h \<and> snd (cm_access p (h, m)) = m"
proof -
  obtain h' m' where acc: "cm_access p (h, m) = (h', m')" by (metis prod.exhaust)
  let ?s = "cm_first m" and ?L = "access_list (cm_policy m) p xs"
  have h': "h' = access (cm_policy m) (node_next h ?s) ?s p h" and m': "m' = m"
    using acc by (auto simp add: cm_access_def Let_def)
  have r: "dl_ring h ?s ([] @ xs)" using cm_inv_ring [OF inv] by simp
  have "node_next h ?s = hd (xs @ [?s])"
    using dl_ring_links_split(3) [OF r] by simp
  then have "dl_ring h' ?s ?L"
    using access_ring [OF cm_inv_ring [OF inv] p] h' by (simp del: hd_append_snoc)
  moreover have ms: "mset ?L = mset xs" using p by (rule mset_access_list)
  then have "set ?L = set xs" by (rule mset_eq_setD)
  moreover have "unat_sum (node_weight h) ?L = unat_sum (node_weight h) xs"
    using ms by (rule unat_sum_mset)
  ultimately show ?thesis
    using inv acc h' m' by (simp add: cm_inv_def list_all_iff)
qed

text \<open>
  C31. \<open>access(it)\<close> of a node of the list keeps the invariant and reorders the list
  as the policy table says: LRU to the tail, MRU to the head, swapping with the
  successor, no change for FIFO and LIFO.
\<close>

lemma cm_access_inv:
  assumes inv: "cm_inv h m xs" and p: "p \<in> set xs" and acc: "cm_access p (h, m) = (h', m')"
  shows "cm_inv h' m' (access_list (cm_policy m) p xs)"
  using cm_access_step [OF inv p] acc by auto

text \<open>
  \<open>update_weight(it, old, new)\<close> after the value of a listed node changed: the weight
  counter and the cached weight follow the new value, and the invariant holds again when
  the new total fits the capacity.
\<close>

lemma cm_update_weight_step:
  assumes inv: "cm_inv h m ys" and p: "p \<in> set ys"
    and ow: "ow = node_weight h p" and nw: "nw = cm_weigher m x"
    and fit: "unat (cm_weight m) + unat nw \<le> unat (cm_capacity m) + unat ow"
  shows "cm_inv (fst (cm_update_weight p ow nw (h\<lparr>node_value := (node_value h)(p := x)\<rparr>, m)))
           (snd (cm_update_weight p ow nw (h\<lparr>node_value := (node_value h)(p := x)\<rparr>, m))) ys \<and>
    unat (cm_weight (snd (cm_update_weight p ow nw (h\<lparr>node_value := (node_value h)(p := x)\<rparr>, m)))) + unat ow =
      unat (cm_weight m) + unat nw \<and>
    cm_config (snd (cm_update_weight p ow nw (h\<lparr>node_value := (node_value h)(p := x)\<rparr>, m))) = cm_config m"
proof -
  let ?h' = "h\<lparr>node_value := (node_value h)(p := x), node_weight := (node_weight h)(p := nw)\<rparr>"
  let ?W = "cm_weight m"
  have d: "distinct ys" using dl_ring_distinct [OF cm_inv_ring [OF inv]] by simp
  have sum: "unat ?W = unat_sum (node_weight h) ys" using inv by (simp add: cm_inv_def)
  have "unat ow \<le> unat ?W" using sum unat_sum_member [OF p, of "node_weight h"] ow by simp
  then have sub: "unat (?W - ow) = unat ?W - unat ow" by (simp add: unat_sub word_le_nat_alt)
  have le: "unat (?W - ow) + unat nw \<le> unat (cm_capacity m)"
    using sub fit \<open>unat ow \<le> unat ?W\<close> by simp
  then have add: "unat (?W - ow + nw) = unat ?W - unat ow + unat nw"
    using sub unat_add_le_unat [OF le] by simp
  have "unat_sum (node_weight ?h') ys + unat ow = unat_sum (node_weight h) ys + unat nw"
    using unat_sum_upd [OF d p, of "node_weight h" nw] ow by simp
  then have "unat (?W - ow + nw) = unat_sum (node_weight ?h') ys"
    using add sum \<open>unat ow \<le> unat ?W\<close> by simp
  moreover have "list_all (\<lambda>q. node_weight ?h' q = cm_weigher m (node_value ?h' q)) ys"
    using inv nw by (auto simp: cm_inv_def list_all_iff)
  moreover have "?W - ow + nw \<le> cm_capacity m" using add le sub by (simp add: word_le_nat_alt)
  moreover have "dl_ring ?h' (cm_first m) ys" using cm_inv_ring [OF inv] by simp
  ultimately show ?thesis
    using add \<open>unat ow \<le> unat ?W\<close>
    by (simp add: cm_update_weight_def cm_inv_def cm_config_def)
qed

text \<open>
  The overload without the new weight passes the first assertion of \<open>update_weight\<close> by
  construction and keeps the invariant when the changed value fits.
\<close>

lemma cm_update_weight_calc_step:
  assumes inv: "cm_inv h m ys" and p: "p \<in> set ys"
    and fit: "unat (cm_weight m) + unat (cm_weigher m x) \<le> unat (cm_capacity m) + unat (node_weight h p)"
  shows "cm_inv (fst (cm_update_weight_calc p (node_weight h p) (h\<lparr>node_value := (node_value h)(p := x)\<rparr>, m)))
           (snd (cm_update_weight_calc p (node_weight h p) (h\<lparr>node_value := (node_value h)(p := x)\<rparr>, m))) ys"
proof -
  have "cm_update_weight_calc p (node_weight h p) (h\<lparr>node_value := (node_value h)(p := x)\<rparr>, m) =
      cm_update_weight p (node_weight h p) (cm_weigher m x) (h\<lparr>node_value := (node_value h)(p := x)\<rparr>, m)"
    by (simp add: cm_update_weight_calc_def calculate_weight_def)
  then show ?thesis using cm_update_weight_step [OF inv p refl refl fit] by simp
qed

end
