(* ===== verification/Limited_Space.thy ===== *)
theory Limited_Space
  imports Cache_Manager
begin

text \<open>
  The state of the map facade \<open>limited::unordered_map\<close> (\<open>limited/unordered_map.h\<close>). Its state
  is the record \<open>umap\<close>: the hash index \<open>_map\<close>, read as a finite map from keys to the
  addresses of their nodes (hash and equality look at the key only), the node heap, and
  the manager \<open>_manager\<close>. Each node holds a key-value pair. A public member function
  is a function from the state to the state after it and its result, \<open>Inl\<close> of an error
  when it throws; the address of a node allocated by \<open>_map.insert\<close> is an argument,
  the allocator's choice. The eviction loops of \<open>freeSpace\<close> are
  \<open>partial_function (option)\<close>: \<open>None\<close> is divergence or a failed assertion of the
  priority policy.
\<close>

section \<open>State\<close>

record ('k, 'v, 'p, 'r) umap =
  um_index :: "'k \<rightharpoonup> 'p"
  um_heap :: "('p, 'k \<times> 'v) heap"
  um_cm :: "('p, 'k \<times> 'v, 'r) cache_manager"

section \<open>Helpers of the facade\<close>

text \<open>The key of the entry at a node.\<close>

definition key_of :: "('p, 'k \<times> 'v) heap \<Rightarrow> 'p \<Rightarrow> 'k" where
  "key_of h p = fst (node_value h p)"

text \<open>A call \<open>_manager.f(...)\<close> on the facade's heap and manager.\<close>

definition lift_cm ::
  "(('p, 'k \<times> 'v, 'r) cm_state \<Rightarrow> ('p, 'k \<times> 'v, 'r) cm_state) \<Rightarrow>
   ('k, 'v, 'p, 'r) umap \<Rightarrow> ('k, 'v, 'p, 'r) umap" where
  "lift_cm f U = (let st = f (um_heap U, um_cm U) in U\<lparr>um_heap := fst st, um_cm := snd st\<rparr>)"

text \<open>
  \<open>_map.insert({value, {}})\<close> of a key that is not in the index: the new node, at
  \<open>p\<close>, holds the pair; its list links are not yet meaningful.
\<close>

definition index_insert :: "'p \<Rightarrow> 'k \<times> 'v \<Rightarrow> ('k, 'v, 'p, 'r) umap \<Rightarrow> ('k, 'v, 'p, 'r) umap" where
  "index_insert p kv U =
     U\<lparr>um_index := (um_index U)(fst kv \<mapsto> p),
       um_heap := (um_heap U)\<lparr>node_value := (node_value (um_heap U))(p := kv)\<rparr>\<rparr>"

text \<open>\<open>_map.erase(it)\<close> and \<open>_map.extract(it)\<close> of the node at \<open>p\<close>.\<close>

definition index_erase :: "'p \<Rightarrow> ('k, 'v, 'p, 'r) umap \<Rightarrow> ('k, 'v, 'p, 'r) umap" where
  "index_erase p U = U\<lparr>um_index := (um_index U)(key_of (um_heap U) p := None)\<rparr>"

section \<open>Making space\<close>

text \<open>
  The loop of \<open>freeSpace(weight)\<close>: \<open>removed\<close> are the erased nodes in order,
  \<open>freed\<close> their total weight, \<open>nx\<close> the next victim. When the policy has no
  victim left, the erased nodes are reinserted in reverse order and the loop fails.
\<close>

partial_function (option) free_loop ::
  "size_t \<Rightarrow> size_t \<Rightarrow> 'p list \<Rightarrow> 'p \<Rightarrow> ('p, 'v, 'w::len word) cm_state \<Rightarrow>
   (bool \<times> ('p, 'v, 'w word) cm_state \<times> 'p list) option" where
  "free_loop weight freed removed nx st =
     (if freed < weight then
        Option.bind (if nx = cm_first (snd st) then cm_next st else Some nx) (\<lambda>nx'.
          if nx' = cm_first (snd st) then Some (False, fold cm_reinsert (rev removed) st, removed)
          else
            (let freed' = freed + calculate_weight (fst st) (snd st) nx';
                 er = cm_erase nx' st
             in Option.bind (cm_next_hint (snd er) (fst er)) (\<lambda>nx''.
                  free_loop weight freed' (removed @ [nx']) nx'' (fst er))))
      else Some (True, st, removed))"

text \<open>
  The loop of \<open>freeSpace(weight, except)\<close>: the same with \<open>next_except\<close>, whose
  unlinking and relinking of \<open>except\<close> is part of the state passed on.
\<close>

partial_function (option) free_loop_except ::
  "'p \<Rightarrow> size_t \<Rightarrow> size_t \<Rightarrow> 'p list \<Rightarrow> 'p \<Rightarrow> ('p, 'v, 'w::len word) cm_state \<Rightarrow>
   (bool \<times> ('p, 'v, 'w word) cm_state \<times> 'p list) option" where
  "free_loop_except except weight freed removed nx st =
     (if freed < weight then
        Option.bind (if nx = cm_first (snd st) then cm_next_except except st else Some (fst st, nx))
          (\<lambda>r. let st1 = (fst r, snd st); nx' = snd r in
            if nx' = cm_first (snd st) then Some (False, fold cm_reinsert (rev removed) st1, removed)
            else
              (let freed' = freed + calculate_weight (fst st1) (snd st1) nx';
                   er = cm_erase nx' st1
               in Option.bind (cm_next_except_hint (snd er) except (fst er)) (\<lambda>r'.
                    free_loop_except except weight freed' (removed @ [nx']) (snd r')
                      (fst r', snd (fst er)))))
      else Some (True, st, removed))"

text \<open>The manager part of \<open>freeSpace\<close>: the early return and the first victim.\<close>

definition free_space_cm ::
  "size_t \<Rightarrow> ('p, 'v, 'w::len word) cm_state \<Rightarrow> (bool \<times> ('p, 'v, 'w word) cm_state \<times> 'p list) option" where
  "free_space_cm weight st =
     (if cm_weight (snd st) < weight then Some (False, st, [])
      else Option.bind (cm_next st) (\<lambda>nx. free_loop weight 0 [] nx st))"

definition free_space_except_cm ::
  "'p \<Rightarrow> size_t \<Rightarrow> ('p, 'v, 'w::len word) cm_state \<Rightarrow>
   (bool \<times> ('p, 'v, 'w word) cm_state \<times> 'p list) option" where
  "free_space_except_cm except weight st =
     (if cm_weight (snd st) < weight then Some (False, st, [])
      else Option.bind (cm_next_except except st) (\<lambda>r.
             free_loop_except except weight 0 [] (snd r) (fst r, snd st)))"

text \<open>\<open>_map.erase(*it)\<close> for every erased node: its key leaves the index.\<close>

definition drop_keys :: "('p, 'k \<times> 'v) heap \<Rightarrow> 'p list \<Rightarrow> ('k \<rightharpoonup> 'p) \<Rightarrow> ('k \<rightharpoonup> 'p)" where
  "drop_keys h ps idx = fold (\<lambda>p idx. idx(key_of h p := None)) ps idx"

definition commit_free ::
  "('k, 'v, 'p, 'r) umap \<Rightarrow> bool \<times> ('p, 'k \<times> 'v, 'r) cm_state \<times> 'p list \<Rightarrow>
   bool \<times> ('k, 'v, 'p, 'r) umap" where
  "commit_free U res =
     (let (ok, st, removed) = res
      in (ok, U\<lparr>um_index := (if ok then drop_keys (fst st) removed (um_index U) else um_index U),
               um_heap := fst st, um_cm := snd st\<rparr>))"

definition freeSpace ::
  "size_t \<Rightarrow> ('k, 'v, 'p, 'w::len word) umap \<Rightarrow> (bool \<times> ('k, 'v, 'p, 'w word) umap) option" where
  "freeSpace weight U = map_option (commit_free U) (free_space_cm weight (um_heap U, um_cm U))"

definition freeSpace_except ::
  "size_t \<Rightarrow> 'p \<Rightarrow> ('k, 'v, 'p, 'w::len word) umap \<Rightarrow> (bool \<times> ('k, 'v, 'p, 'w word) umap) option" where
  "freeSpace_except weight except U =
     map_option (commit_free U) (free_space_except_cm except weight (um_heap U, um_cm U))"

definition provideSpace ::
  "size_t \<Rightarrow> ('k, 'v, 'p, 'w::len word) umap \<Rightarrow> (bool \<times> ('k, 'v, 'p, 'w word) umap) option" where
  "provideSpace weight U =
     (let m = um_cm U in
      if cm_capacity m < weight then Some (False, U)
      else if weight \<le> cm_capacity m - cm_weight m then Some (True, U)
      else freeSpace (weight - (cm_capacity m - cm_weight m)) U)"

definition provideSpace_except ::
  "size_t \<Rightarrow> 'p \<Rightarrow> ('k, 'v, 'p, 'w::len word) umap \<Rightarrow> (bool \<times> ('k, 'v, 'p, 'w word) umap) option" where
  "provideSpace_except weight except U =
     (let m = um_cm U in
      if cm_capacity m < weight then Some (False, U)
      else if weight \<le> cm_capacity m - cm_weight m then Some (True, U)
      else freeSpace_except (weight - (cm_capacity m - cm_weight m)) except U)"

section \<open>Invariants\<close>

text \<open>
  The facade's invariant: the manager's, the keys of the listed nodes distinct, and the
  index the map from each listed node's key to the node (I1: a key is in the index iff an
  entry of the replacement list has it).
\<close>

definition idx_of :: "('p, 'k \<times> 'v) heap \<Rightarrow> 'p list \<Rightarrow> 'k \<rightharpoonup> 'p" where
  "idx_of h xs = map_of (map (\<lambda>p. (key_of h p, p)) xs)"

definition um_inv :: "('k, 'v, 'p, 'r) umap \<Rightarrow> 'p list \<Rightarrow> bool" where
  "um_inv U xs \<longleftrightarrow>
     cm_inv (um_heap U) (um_cm U) xs \<and> distinct (map (key_of (um_heap U)) xs) \<and>
     um_index U = idx_of (um_heap U) xs"

text \<open>
  The state of the eviction loop: the erased nodes \<open>removed\<close> of the original list
  \<open>xs0\<close>, whose reinsertion in reverse order gives back the original state, and their
  total weight \<open>freed\<close>; and what a finished loop guarantees.
\<close>

definition free_inv ::
  "('p, 'v) heap \<Rightarrow> ('p, 'v, 'r) cache_manager \<Rightarrow> 'p list \<Rightarrow> 'p list \<Rightarrow> size_t \<Rightarrow>
   ('p, 'v) heap \<Rightarrow> ('p, 'v, 'r) cache_manager \<Rightarrow> 'p list \<Rightarrow> bool" where
  "free_inv h0 m0 xs0 removed freed h m xs \<longleftrightarrow>
     cm_inv h m xs \<and> xs = filter (\<lambda>p. p \<notin> set removed) xs0 \<and> distinct removed \<and>
     set removed \<subseteq> set xs0 \<and> fold cm_reinsert (rev removed) (h, m) = (h0, m0) \<and>
     unat freed = unat_sum (node_weight h0) removed \<and>
     unat (cm_weight m) + unat_sum (node_weight h0) removed = unat (cm_weight m0) \<and>
     node_value h = node_value h0 \<and> node_weight h = node_weight h0 \<and>
     cm_config m = cm_config m0"

definition free_ok ::
  "size_t \<Rightarrow> ('p, 'v) heap \<Rightarrow> ('p, 'v, 'r) cache_manager \<Rightarrow> 'p list \<Rightarrow>
   bool \<times> ('p, 'v, 'r) cm_state \<times> 'p list \<Rightarrow> bool" where
  "free_ok weight h0 m0 xs0 r \<longleftrightarrow>
     (if fst r then
        distinct (snd (snd r)) \<and> set (snd (snd r)) \<subseteq> set xs0 \<and>
        cm_inv (fst (fst (snd r))) (snd (fst (snd r))) (filter (\<lambda>p. p \<notin> set (snd (snd r))) xs0) \<and>
        unat weight \<le> unat_sum (node_weight h0) (snd (snd r)) \<and>
        unat (cm_weight (snd (fst (snd r)))) + unat_sum (node_weight h0) (snd (snd r)) = unat (cm_weight m0) \<and>
        node_value (fst (fst (snd r))) = node_value h0 \<and> cm_config (snd (fst (snd r))) = cm_config m0
      else fst (snd r) = (h0, m0))"

text \<open>
  What a successful \<open>freeSpace\<close> leaves: the nodes \<open>rem\<close> of the list are gone from
  the list and their keys from the index, and the weight counter dropped by their weights.
\<close>

definition evicted ::
  "('k, 'v, 'p, 'r) umap \<Rightarrow> 'p list \<Rightarrow> 'p list \<Rightarrow> ('k, 'v, 'p, 'r) umap \<Rightarrow> bool" where
  "evicted U xs rem U' \<longleftrightarrow>
     distinct rem \<and> set rem \<subseteq> set xs \<and>
     cm_inv (um_heap U') (um_cm U') (filter (\<lambda>p. p \<notin> set rem) xs) \<and>
     um_index U' = drop_keys (um_heap U) rem (um_index U) \<and>
     node_value (um_heap U') = node_value (um_heap U) \<and> cm_config (um_cm U') = cm_config (um_cm U) \<and>
     unat (cm_weight (um_cm U')) + unat_sum (node_weight (um_heap U)) rem = unat (cm_weight (um_cm U))"

section \<open>Eviction\<close>

lemma free_inv_init: "cm_inv h m xs \<Longrightarrow> free_inv h m xs [] 0 h m xs"
  by (simp add: free_inv_def)

lemma free_inv_erase:
  assumes fi: "free_inv h0 m0 xs0 removed freed h m (as @ v # bs)"
    and er: "cm_erase v (h, m) = ((h', m'), nx)"
  shows "free_inv h0 m0 xs0 (removed @ [v]) (freed + calculate_weight h m v) h' m' (as @ bs) \<and>
         nx = hd (bs @ [cm_first m]) \<and> cm_first m' = cm_first m"
proof -
  from fi have inv: "cm_inv h m (as @ v # bs)"
    and flt: "as @ v # bs = filter (\<lambda>p. p \<notin> set removed) xs0"
    and rm: "distinct removed" "set removed \<subseteq> set xs0"
    and rb: "fold cm_reinsert (rev removed) (h, m) = (h0, m0)"
    and fr: "unat freed = unat_sum (node_weight h0) removed"
    and wt: "unat (cm_weight m) + unat_sum (node_weight h0) removed = unat (cm_weight m0)"
    and nv: "node_value h = node_value h0" and nw: "node_weight h = node_weight h0"
    and mm: "cm_config m = cm_config m0"
    unfolding free_inv_def by blast+
  have e: "cm_inv h' m' (as @ bs)" "nx = hd (bs @ [cm_first m])"
    "node_value h' = node_value h" "node_weight h' = node_weight h" "cm_config m' = cm_config m"
    "unat (cm_weight m') + unat (node_weight h v) = unat (cm_weight m)"
    using cm_erase_step [OF inv] er by simp_all
  have d: "distinct (as @ v # bs)" using dl_ring_distinct [OF cm_inv_ring [OF inv]] by simp
  have w: "calculate_weight h m v = node_weight h v"
    using cm_inv_weights [OF inv, of v] by (simp add: calculate_weight_def)
  have fr': "unat (freed + calculate_weight h m v) = unat_sum (node_weight h0) (removed @ [v])"
    using fr wt e(6) w nw unat_bound [of "cm_weight m0"] by (simp add: unat_add_no_wrap)
  have "fold cm_reinsert (rev (removed @ [v])) (h', m') = (h0, m0)"
    using cm_erase_reinsert [OF inv, of v] er rb by (simp add: cm_erase_def)
  moreover have "as @ bs = filter (\<lambda>p. p \<notin> set (removed @ [v])) xs0"
    using filter_remove_one [OF d flt] by (simp add: conj_commute)
  moreover have "v \<in> set (filter (\<lambda>p. p \<notin> set removed) xs0)"
    unfolding flt [symmetric] by simp
  then have "v \<notin> set removed" "v \<in> set xs0" by simp_all
  moreover have "unat (cm_weight m') + unat_sum (node_weight h0) (removed @ [v]) = unat (cm_weight m0)"
    using e(6) wt nw by simp
  ultimately show ?thesis
    using e fr' nv nw mm rm by (simp add: free_inv_def cm_config_def)
qed

lemma free_loop_ok:
  assumes "free_inv h0 m0 xs0 removed freed h m xs" and "nx \<in> insert (cm_first m) (set xs)"
  shows "\<exists>r. free_loop weight freed removed nx (h, m) = Some r \<and> free_ok weight h0 m0 xs0 r"
  using assms
proof (induction "length xs" arbitrary: removed freed h m xs nx rule: less_induct)
  case less
  let ?s = "cm_first m"
  have fi: "free_inv h0 m0 xs0 removed freed h m xs" by (rule less.prems(1))
  then have inv: "cm_inv h m xs" unfolding free_inv_def by blast
  show ?case
  proof (cases "freed < weight")
    case False
    then have "free_loop weight freed removed nx (h, m) = Some (True, (h, m), removed)"
      by (subst free_loop.simps) simp
    moreover have "unat weight \<le> unat freed" using False by (simp add: word_less_nat_alt)
    ultimately show ?thesis using fi by (auto simp: free_ok_def free_inv_def)
  next
    case True
    obtain v where v: "(if nx = ?s then cm_next (h, m) else Some nx) = Some v"
      and vin: "v \<in> insert ?s (set xs)"
      using cm_next_victim [OF inv] less.prems(2) by (cases "nx = ?s") auto
    show ?thesis
    proof (cases "v = ?s")
      case True
      then have "free_loop weight freed removed nx (h, m) =
          Some (False, fold cm_reinsert (rev removed) (h, m), removed)"
        using \<open>freed < weight\<close> v by (subst free_loop.simps) simp
      then show ?thesis using fi by (simp add: free_ok_def free_inv_def)
    next
      case False
      then obtain as bs where xs: "xs = as @ v # bs" using vin by (blast dest: split_list)
      obtain h' m' nx' where er: "cm_erase v (h, m) = ((h', m'), nx')" by (metis prod.exhaust)
      have step: "free_inv h0 m0 xs0 (removed @ [v]) (freed + calculate_weight h m v) h' m' (as @ bs)"
        and nx': "nx' = hd (bs @ [?s])" and s': "cm_first m' = ?s"
        using free_inv_erase [OF fi [unfolded xs] er] by simp_all
      have inv': "cm_inv h' m' (as @ bs)" using step unfolding free_inv_def by blast
      let ?w = "if bs = [] then ?s else erase_pick (cm_policy m') (node_value h') bs ?s"
      have w: "cm_next_hint nx' (h', m') = Some ?w"
        using cm_next_hint_spec [OF inv'] nx' s' by simp
      have win: "?w \<in> insert (cm_first m') (set (as @ bs))"
        using erase_pick_in [of "cm_policy m'" "node_value h'" bs ?s] s' by auto
      have "length (as @ bs) < length xs" using xs by simp
      then obtain r where r: "free_loop weight (freed + calculate_weight h m v) (removed @ [v]) ?w (h', m') = Some r"
        and ok: "free_ok weight h0 m0 xs0 r"
        using less.hyps [OF _ step win] by blast
      have "free_loop weight freed removed nx (h, m) = Some r"
        using \<open>freed < weight\<close> v False er w r by (subst free_loop.simps) (simp add: Let_def)
      then show ?thesis using ok by blast
    qed
  qed
qed

lemma free_space_cm_ok:
  assumes inv: "cm_inv h m xs"
  shows "\<exists>r. free_space_cm weight (h, m) = Some r \<and> free_ok weight h m xs r"
proof (cases "cm_weight m < weight")
  case True
  then show ?thesis by (simp add: free_space_cm_def free_ok_def)
next
  case False
  obtain v where v: "cm_next (h, m) = Some v" and vin: "v \<in> insert (cm_first m) (set xs)"
    using cm_next_victim [OF inv] by blast
  obtain r where "free_loop weight 0 [] v (h, m) = Some r" "free_ok weight h m xs r"
    using free_loop_ok [OF free_inv_init [OF inv] vin] by blast
  then show ?thesis using False v by (simp add: free_space_cm_def)
qed

lemma free_loop_except_ok:
  assumes "free_inv h0 m0 xs0 removed freed h m xs" and "e \<in> set xs"
    and "\<not> is_priority (cm_policy m)" and "nx \<in> insert (cm_first m) (set xs - {e})"
  shows "\<exists>r. free_loop_except e weight freed removed nx (h, m) = Some r \<and>
             free_ok weight h0 m0 xs0 r \<and> e \<notin> set (snd (snd r))"
  using assms
proof (induction "length xs" arbitrary: removed freed h m xs nx rule: less_induct)
  case less
  let ?s = "cm_first m"
  have fi: "free_inv h0 m0 xs0 removed freed h m xs" by (rule less.prems(1))
  then have inv: "cm_inv h m xs" unfolding free_inv_def by blast
  have d: "distinct xs" using dl_ring_distinct [OF cm_inv_ring [OF inv]] by simp
  have erem: "e \<notin> set removed"
    using fi less.prems(2) unfolding free_inv_def by auto
  show ?case
  proof (cases "freed < weight")
    case False
    then have "free_loop_except e weight freed removed nx (h, m) = Some (True, (h, m), removed)"
      by (subst free_loop_except.simps) simp
    moreover have "unat weight \<le> unat freed" using False by (simp add: word_less_nat_alt)
    ultimately show ?thesis using fi erem by (auto simp: free_ok_def free_inv_def)
  next
    case True
    let ?pick = "erase_pick (cm_policy m) (node_value h) (remove1 e xs) ?s"
    have ne: "cm_next_except e (h, m) = Some (h, ?pick)"
      using cm_next_except_spec [OF inv less.prems(2)] erase_spec_plain [OF less.prems(3)] by simp
    have "?pick \<in> insert ?s (set (remove1 e xs))" by (rule erase_pick_in)
    then obtain v where v: "(if nx = ?s then cm_next_except e (h, m) else Some (h, nx)) = Some (h, v)"
      and vin: "v \<in> insert ?s (set xs - {e})"
      using ne less.prems(4) set_remove1_distinct [OF d, of e] by (cases "nx = ?s") auto
    show ?thesis
    proof (cases "v = ?s")
      case True
      then have "free_loop_except e weight freed removed nx (h, m) =
          Some (False, fold cm_reinsert (rev removed) (h, m), removed)"
        using \<open>freed < weight\<close> v by (subst free_loop_except.simps) (cases "nx = ?s"; simp)
      then show ?thesis using fi erem by (simp add: free_ok_def free_inv_def)
    next
      case False
      then obtain as bs where xs: "xs = as @ v # bs" and ve: "v \<noteq> e"
        using vin by (blast dest: split_list)
      obtain h' m' nx' where er: "cm_erase v (h, m) = ((h', m'), nx')" by (metis prod.exhaust)
      have step: "free_inv h0 m0 xs0 (removed @ [v]) (freed + calculate_weight h m v) h' m' (as @ bs)"
        and nx': "nx' = hd (bs @ [?s])" and s': "cm_first m' = ?s"
        using free_inv_erase [OF fi [unfolded xs] er] by simp_all
      have inv': "cm_inv h' m' (as @ bs)" using step unfolding free_inv_def by blast
      have e': "e \<in> set (as @ bs)" using less.prems(2) xs ve by auto
      have pol': "cm_policy m' = cm_policy m" using er by (auto simp: cm_erase_def cm_erase_node_def Let_def)
      let ?w = "erase_pick (cm_policy m') (node_value h') (remove1 e bs) ?s"
      have w: "cm_next_except_hint nx' e (h', m') = Some (h', ?w)"
        using cm_next_except_hint_spec [OF inv' e'] erase_spec_plain less.prems(3) nx' s' pol' by simp
      have "?w \<in> insert ?s (set (remove1 e bs))" by (rule erase_pick_in)
      moreover have "distinct (as @ bs)" using d xs by simp
      ultimately have win: "?w \<in> insert (cm_first m') (set (as @ bs) - {e})"
        using set_remove1_distinct [of bs e] s' by auto
      have "length (as @ bs) < length xs" using xs by simp
      then obtain r where r: "free_loop_except e weight (freed + calculate_weight h m v) (removed @ [v]) ?w (h', m') = Some r"
        and ok: "free_ok weight h0 m0 xs0 r \<and> e \<notin> set (snd (snd r))"
        using less.hyps [OF _ step e' _ win] less.prems(3) pol' by auto
      have "free_loop_except e weight freed removed nx (h, m) = Some r"
        using \<open>freed < weight\<close> v False er w r
        by (subst free_loop_except.simps) (cases "nx = ?s"; simp add: Let_def)
      then show ?thesis using ok by blast
    qed
  qed
qed

section \<open>Results of making space\<close>

lemma evicted_none: "cm_inv (um_heap U) (um_cm U) xs \<Longrightarrow> evicted U xs [] U"
  by (simp add: evicted_def drop_keys_def)

lemma commit_free_ok:
  assumes "free_ok w (um_heap U) (um_cm U) xs r"
  shows "if fst (commit_free U r) then
           evicted U xs (snd (snd r)) (snd (commit_free U r)) \<and>
           unat w \<le> unat_sum (node_weight (um_heap U)) (snd (snd r))
         else snd (commit_free U r) = U"
  using assms by (cases r) (auto simp: free_ok_def commit_free_def evicted_def drop_keys_def key_of_def)

lemma freeSpace_ok:
  assumes "cm_inv (um_heap U) (um_cm U) xs"
  shows "\<exists>r. freeSpace w U = Some r \<and>
    (if fst r then \<exists>rem. evicted U xs rem (snd r) \<and> unat w \<le> unat_sum (node_weight (um_heap U)) rem
     else snd r = U)"
proof -
  obtain r where "free_space_cm w (um_heap U, um_cm U) = Some r" "free_ok w (um_heap U) (um_cm U) xs r"
    using free_space_cm_ok [OF assms] by blast
  then show ?thesis using commit_free_ok [of w U xs r] by (auto simp: freeSpace_def)
qed

text \<open>The arithmetic of \<open>provideSpace\<close>: the fit test in \<open>size_t\<close> and the shortfall.\<close>

lemma fit_bound:
  fixes C W w :: "'a::len word"
  assumes "W \<le> C" and "w \<le> C - W"
  shows "unat W + unat w \<le> unat C"
proof -
  have "unat (C - W) = unat C - unat W" using assms(1) by (rule unat_sub)
  moreover have "unat W \<le> unat C" using assms(1) by (simp add: word_le_nat_alt)
  ultimately show ?thesis using assms(2) by (simp add: word_le_nat_alt)
qed

lemma provideSpace_fits:
  assumes fit: "unat (cm_weight (um_cm U)) + unat w \<le> unat (cm_capacity (um_cm U))"
  shows "provideSpace w U = Some (True, U)"
proof -
  let ?C = "cm_capacity (um_cm U)" and ?W = "cm_weight (um_cm U)"
  have "?W \<le> ?C" using fit by (simp add: word_le_nat_alt)
  then have "unat (?C - ?W) = unat ?C - unat ?W" by (rule unat_sub_no_wrap)
  then have "\<not> ?C < w" "w \<le> ?C - ?W" using fit by (simp_all add: word_less_nat_alt word_le_nat_alt)
  then show ?thesis by (simp add: provideSpace_def Let_def)
qed

lemma shortfall_bound:
  fixes C W w :: "'a::len word"
  assumes WC: "W \<le> C" and ev: "\<not> w \<le> C - W"
    and freed: "unat (w - (C - W)) \<le> f" and drop: "W' + f = unat W"
  shows "W' + unat w \<le> unat C"
proof -
  have CW: "unat (C - W) = unat C - unat W" using WC by (rule unat_sub)
  then have lt: "unat C - unat W < unat w" using ev by (simp add: word_le_nat_alt)
  then have "unat (w - (C - W)) = unat w - (unat C - unat W)"
    using CW by (simp add: unat_sub word_le_nat_alt)
  moreover have "unat W \<le> unat C" using WC by (simp add: word_le_nat_alt)
  ultimately show ?thesis using freed drop lt by simp
qed

lemma provideSpace_ok:
  assumes inv: "cm_inv (um_heap U) (um_cm U) xs"
  shows "\<exists>r. provideSpace w U = Some r \<and>
    (if fst r then \<exists>rem. evicted U xs rem (snd r) \<and>
                          unat (cm_weight (um_cm (snd r))) + unat w \<le> unat (cm_capacity (um_cm U))
     else snd r = U)"
proof -
  let ?C = "cm_capacity (um_cm U)" and ?W = "cm_weight (um_cm U)"
  have WC: "?W \<le> ?C" using inv by (simp add: cm_inv_def)
  consider (big) "?C < w" | (fits) "w \<le> ?C - ?W" | (evict) "\<not> ?C < w" "\<not> w \<le> ?C - ?W"
    by blast
  then show ?thesis
  proof cases
    case big
    then show ?thesis by (simp add: provideSpace_def)
  next
    case fits
    then have "unat ?W + unat w \<le> unat ?C" using WC by (intro fit_bound)
    then show ?thesis using provideSpace_fits evicted_none [OF inv] by auto
  next
    case evict
    obtain r where r: "freeSpace (w - (?C - ?W)) U = Some r"
      and ok: "if fst r then \<exists>rem. evicted U xs rem (snd r) \<and>
                 unat (w - (?C - ?W)) \<le> unat_sum (node_weight (um_heap U)) rem else snd r = U"
      using freeSpace_ok [OF inv] by blast
    have "\<exists>rem. evicted U xs rem (snd r) \<and> unat (cm_weight (um_cm (snd r))) + unat w \<le> unat ?C"
      if "fst r"
    proof -
      obtain rem where ev: "evicted U xs rem (snd r)"
        and le: "unat (w - (?C - ?W)) \<le> unat_sum (node_weight (um_heap U)) rem"
        using ok \<open>fst r\<close> by auto
      have "unat (cm_weight (um_cm (snd r))) + unat_sum (node_weight (um_heap U)) rem = unat ?W"
        using ev by (simp add: evicted_def)
      then show ?thesis using ev shortfall_bound [OF WC evict(2) le] by blast
    qed
    moreover have "provideSpace w U = freeSpace (w - (?C - ?W)) U"
      using evict by (simp add: provideSpace_def Let_def)
    ultimately show ?thesis using r ok by auto
  qed
qed

section \<open>The index and the list\<close>

lemma idx_of_Some:
  "distinct (map (key_of h) xs) \<Longrightarrow> idx_of h xs k = Some p \<longleftrightarrow> p \<in> set xs \<and> key_of h p = k"
  by (auto simp: idx_of_def comp_def map_of_eq_Some_iff [where xys = "map (\<lambda>p. (key_of h p, p)) xs"])

lemma idx_of_None: "idx_of h xs k = None \<longleftrightarrow> k \<notin> key_of h ` set xs"
  by (force simp: idx_of_def map_of_eq_None_iff)

lemma drop_keys_apply:
  "drop_keys h ps idx k = (if k \<in> key_of h ` set ps then None else idx k)"
  unfolding drop_keys_def by (induction ps arbitrary: idx) auto

lemma idx_of_cong:
  "(\<And>p. p \<in> set xs \<Longrightarrow> key_of h p = key_of h' p) \<Longrightarrow> idx_of h xs = idx_of h' xs"
  unfolding idx_of_def by (metis (mono_tags, lifting) map_eq_conv)

lemma idx_of_filter:
  assumes d: "distinct (map (key_of h) xs)" and rem: "set rem \<subseteq> set xs"
  shows "drop_keys h rem (idx_of h xs) = idx_of h (filter (\<lambda>p. p \<notin> set rem) xs)"
proof
  fix k
  have d': "distinct (map (key_of h) (filter (\<lambda>p. p \<notin> set rem) xs))"
    using d by (simp add: distinct_map_filter)
  show "drop_keys h rem (idx_of h xs) k = idx_of h (filter (\<lambda>p. p \<notin> set rem) xs) k"
  proof (cases "idx_of h (filter (\<lambda>p. p \<notin> set rem) xs) k")
    case None
    then have "\<forall>p \<in> set xs. key_of h p = k \<longrightarrow> p \<in> set rem" by (auto simp: idx_of_None)
    then show ?thesis using None
      by (cases "idx_of h xs k") (auto simp: drop_keys_apply idx_of_Some [OF d])
  next
    case (Some q)
    then have q: "q \<in> set xs" "q \<notin> set rem" "key_of h q = k" using idx_of_Some [OF d'] by auto
    then have "k \<notin> key_of h ` set rem"
      using d rem by (auto simp: inj_on_eq_iff [OF distinct_map [THEN iffD1, OF d, THEN conjunct2]])
    then show ?thesis using Some q by (simp add: drop_keys_apply idx_of_Some [OF d])
  qed
qed

lemma idx_of_insert_list:
  assumes "key_of h p \<notin> key_of h ` set ys"
  shows "idx_of h (insert_list pol p ys) = (idx_of h ys)(key_of h p \<mapsto> p)"
proof -
  have N: "map_of (map (\<lambda>p. (key_of h p, p)) ys) (key_of h p) = None"
    using assms by (simp add: map_of_eq_None_iff image_image)
  show ?thesis
    using N by (auto simp: idx_of_def insert_list_def map_add_def intro!: ext split: option.split)
qed

lemma drop_keys_cong:
  "(\<And>p. p \<in> set ps \<Longrightarrow> key_of h p = key_of h' p) \<Longrightarrow> drop_keys h ps = drop_keys h' ps"
  by (auto simp: drop_keys_apply intro!: ext)

lemma um_inv_cm: "um_inv U xs \<Longrightarrow> cm_inv (um_heap U) (um_cm U) xs"
  by (simp add: um_inv_def)

lemma evicted_um_inv:
  assumes inv: "um_inv U xs" and ev: "evicted U xs rem U'"
  shows "um_inv U' (filter (\<lambda>q. q \<notin> set rem) xs)"
proof -
  have d: "distinct (map (key_of (um_heap U)) xs)" and idx: "um_index U = idx_of (um_heap U) xs"
    using inv by (simp_all add: um_inv_def)
  have k: "key_of (um_heap U') = key_of (um_heap U)"
    using ev by (simp add: evicted_def key_of_def [abs_def])
  have "um_index U' = idx_of (um_heap U) (filter (\<lambda>q. q \<notin> set rem) xs)"
    using ev idx idx_of_filter [OF d] by (simp add: evicted_def)
  then show ?thesis
    using ev d k by (simp add: um_inv_def evicted_def distinct_map_filter idx_of_def)
qed

end
