(* ===== verification/Limited_Map.thy ===== *)
theory Limited_Map
  imports Limited_Space
begin

text \<open>
  The public member functions of \<open>limited::unordered_map\<close> (\<open>limited/unordered_map.h\<close>)
  over the state of \<open>Limited_Space\<close>, and what they guarantee: the facade's invariant
  (I1 and I3 of the design) after a successful call, and the state unchanged after
  \<open>no_space_error\<close> (I5).
\<close>

section \<open>Insertion\<close>

text \<open>
  \<open>safeManagerInsert(it)\<close>: \<open>_manager.insert\<close>; its \<open>catch\<close> handles exceptions
  of the weigher, which is a function here.
\<close>

definition safeManagerInsert :: "'p \<Rightarrow> ('k, 'v, 'p, 'w::len word) umap \<Rightarrow> ('k, 'v, 'p, 'w word) umap" where
  "safeManagerInsert p U = lift_cm (cm_insert p) U"

text \<open>\<open>indexInserted(it)\<close>: make room for a node just put in the index, or take it out and throw.\<close>

definition indexInserted ::
  "'p \<Rightarrow> ('k, 'v, 'p, 'w::len word) umap \<Rightarrow> (('k, 'v, 'p, 'w word) umap \<times> (error + unit)) option" where
  "indexInserted p U =
     map_option (\<lambda>(ok, U'). if ok then (safeManagerInsert p U', Inr ()) else (index_erase p U', Inl NoSpace))
       (provideSpace (calculate_weight (um_heap U) (um_cm U) p) U)"

text \<open>\<open>insert(value)\<close>: the node of the key and whether it is new.\<close>

definition um_insert ::
  "'p \<Rightarrow> 'k \<times> 'v \<Rightarrow> ('k, 'v, 'p, 'w::len word) umap \<Rightarrow>
   (('k, 'v, 'p, 'w word) umap \<times> (error + 'p \<times> bool)) option" where
  "um_insert p kv U =
     (case um_index U (fst kv) of
        Some q \<Rightarrow> Some (U, Inr (q, False))
      | None \<Rightarrow> map_option (\<lambda>(U', r). (U', map_sum id (\<lambda>_. (p, True)) r))
                 (indexInserted p (index_insert p kv U)))"

text \<open>\<open>emplace(k, v)\<close> and \<open>try_emplace(k, v)\<close>: the pair is built in place, then as \<open>insert\<close>.\<close>

definition um_emplace ::
  "'p \<Rightarrow> 'k \<Rightarrow> 'v \<Rightarrow> ('k, 'v, 'p, 'w::len word) umap \<Rightarrow>
   (('k, 'v, 'p, 'w word) umap \<times> (error + 'p \<times> bool)) option" where
  "um_emplace p k v U = um_insert p (k, v) U"

definition um_try_emplace ::
  "'p \<Rightarrow> 'k \<Rightarrow> 'v \<Rightarrow> ('k, 'v, 'p, 'w::len word) umap \<Rightarrow>
   (('k, 'v, 'p, 'w word) umap \<times> (error + 'p \<times> bool)) option" where
  "um_try_emplace p k v U = um_emplace p k v U"

text \<open>\<open>insert(node_type&&)\<close>: re-insert an extracted node.\<close>

definition um_insert_node ::
  "'p \<Rightarrow> ('k, 'v, 'p, 'w::len word) umap \<Rightarrow> (('k, 'v, 'p, 'w word) umap \<times> (error + 'p \<times> bool)) option" where
  "um_insert_node p U =
     (let k = key_of (um_heap U) p in
      case um_index U k of
        Some q \<Rightarrow> Some (U, Inr (q, False))
      | None \<Rightarrow> map_option (\<lambda>(U', r). (U', map_sum id (\<lambda>_. (p, True)) r))
                 (indexInserted p (U\<lparr>um_index := (um_index U)(k \<mapsto> p)\<rparr>)))"

text \<open>
  \<open>insert(first, last)\<close>, first phase: put the new keys in the index and add up their
  weights, stopping once the sum exceeds the capacity. Each item carries the address the
  allocator gives its node.
\<close>

fun range_index ::
  "('p \<times> 'k \<times> 'v) list \<Rightarrow> ('k, 'v, 'p, 'w::len word) umap \<Rightarrow> 'p list \<Rightarrow> size_t \<Rightarrow>
   ('k, 'v, 'p, 'w word) umap \<times> 'p list \<times> size_t" where
  "range_index [] U ins w = (U, ins, w)"
| "range_index ((p, kv) # items) U ins w =
     (case um_index U (fst kv) of
        Some q \<Rightarrow> range_index items U ins w
      | None \<Rightarrow>
          (let U' = index_insert p kv U; w' = w + calculate_weight (um_heap U') (um_cm U') p
           in if cm_capacity (um_cm U') < w' then (U', ins @ [p], w')
              else range_index items U' (ins @ [p]) w'))"

text \<open>Second phase: make room for the sum, then thread the new nodes into the list.\<close>

definition um_insert_range ::
  "('p \<times> 'k \<times> 'v) list \<Rightarrow> ('k, 'v, 'p, 'w::len word) umap \<Rightarrow>
   (('k, 'v, 'p, 'w word) umap \<times> (error + unit)) option" where
  "um_insert_range items U =
     (let (U1, ins, w) = range_index items U [] 0
      in map_option (\<lambda>(ok, U2).
           if ok then (fold (\<lambda>p. lift_cm (cm_insert p)) ins U2, Inr ())
           else (U2\<lparr>um_index := drop_keys (um_heap U2) ins (um_index U2)\<rparr>, Inl NoSpace))
         (provideSpace w U1))"

section \<open>Assignment\<close>

text \<open>
  \<open>assign(position, obj)\<close>: the node leaves the index, takes the new value, and, if it
  became heavier, room is made for the difference without evicting it; on failure the
  old value is put back. Then the node returns to the index, its weight is updated and
  it is accessed.
\<close>

definition um_assign ::
  "'p \<Rightarrow> 'v \<Rightarrow> ('k, 'v, 'p, 'w::len word) umap \<Rightarrow> (('k, 'v, 'p, 'w word) umap \<times> (error + 'p)) option" where
  "um_assign p v U =
     (let h = um_heap U; m = um_cm U; k = key_of h p; old_v = snd (node_value h p);
          old_weight = calculate_weight h m p;
          U1 = U\<lparr>um_index := (um_index U)(k := None),
                 um_heap := h\<lparr>node_value := (node_value h)(p := (k, v))\<rparr>\<rparr>;
          new_weight = calculate_weight (um_heap U1) m p;
          finish = (\<lambda>U2. (lift_cm (cm_access p) (lift_cm (cm_update_weight p old_weight new_weight)
                           (U2\<lparr>um_index := (um_index U2)(k \<mapsto> p)\<rparr>)), Inr p));
          restore = (\<lambda>U2. (U2\<lparr>um_index := (um_index U2)(k \<mapsto> p),
                              um_heap := (um_heap U2)\<lparr>node_value := (node_value (um_heap U2))(p := (k, old_v))\<rparr>\<rparr>,
                           Inl NoSpace))
      in if old_weight < new_weight then
           map_option (\<lambda>(ok, U2). if ok then finish U2 else restore U2)
             (provideSpace_except (new_weight - old_weight) p U1)
         else Some (finish U1))"

text \<open>\<open>insert_or_assign(k, obj)\<close>.\<close>

definition um_insert_or_assign ::
  "'p \<Rightarrow> 'k \<Rightarrow> 'v \<Rightarrow> ('k, 'v, 'p, 'w::len word) umap \<Rightarrow>
   (('k, 'v, 'p, 'w word) umap \<times> (error + 'p \<times> bool)) option" where
  "um_insert_or_assign p k v U =
     (case um_index U k of
        None \<Rightarrow> um_emplace p k v U
      | Some q \<Rightarrow> map_option (\<lambda>(U', r). (U', map_sum id (\<lambda>q'. (q', False)) r)) (um_assign q v U))"

section \<open>Removal\<close>

text \<open>\<open>extract(key)\<close> and \<open>extract(pos)\<close>: the node leaves the list and the index.\<close>

definition um_extract_key :: "'k \<Rightarrow> ('k, 'v, 'p, 'r) umap \<Rightarrow> ('k, 'v, 'p, 'r) umap \<times> 'p option" where
  "um_extract_key k U =
     (case um_index U k of
        None \<Rightarrow> (U, None)
      | Some p \<Rightarrow> (index_erase p (lift_cm (cm_erase_node p) U), Some p))"

definition um_extract :: "'p \<Rightarrow> ('k, 'v, 'p, 'r) umap \<Rightarrow> ('k, 'v, 'p, 'r) umap \<times> 'p" where
  "um_extract p U = (index_erase p (lift_cm (cm_erase_node p) U), p)"

text \<open>\<open>erase(key)\<close>: the number of erased entries.\<close>

definition um_erase_key :: "'k \<Rightarrow> ('k, 'v, 'p, 'r) umap \<Rightarrow> ('k, 'v, 'p, 'r) umap \<times> nat" where
  "um_erase_key k U =
     (case um_index U k of
        None \<Rightarrow> (U, 0)
      | Some p \<Rightarrow> (index_erase p (lift_cm (cm_erase_node p) U), 1))"

text \<open>\<open>erase(const_iterator)\<close>; the iterator it returns follows the hash order, not modelled.\<close>

definition um_erase :: "'p \<Rightarrow> ('k, 'v, 'p, 'r) umap \<Rightarrow> ('k, 'v, 'p, 'r) umap" where
  "um_erase p U = index_erase p (lift_cm (cm_erase_node p) U)"

text \<open>\<open>erase(const_replacement_iterator)\<close>: returns the successor in the list.\<close>

definition um_erase_repl :: "'p \<Rightarrow> ('k, 'v, 'p, 'r) umap \<Rightarrow> ('k, 'v, 'p, 'r) umap \<times> 'p" where
  "um_erase_repl p U =
     (let k = key_of (um_heap U) p; er = cm_erase p (um_heap U, um_cm U)
      in (U\<lparr>um_heap := fst (fst er), um_cm := snd (fst er), um_index := (um_index U)(k := None)\<rparr>, snd er))"

text \<open>\<open>erase(first, last)\<close> over the list: the keys leave the index, then the range the list.\<close>

partial_function (option) extract_range ::
  "('p, 'k \<times> 'v) heap \<Rightarrow> 'p \<Rightarrow> 'p \<Rightarrow> ('k \<rightharpoonup> 'p) \<Rightarrow> ('k \<rightharpoonup> 'p) option" where
  "extract_range h it last_it idx =
     (if it = last_it then Some idx
      else extract_range h (node_next h it) last_it (idx(key_of h it := None)))"

definition um_erase_repl_range ::
  "'p \<Rightarrow> 'p \<Rightarrow> ('k, 'v, 'p, 'r) umap \<Rightarrow> (('k, 'v, 'p, 'r) umap \<times> 'p) option" where
  "um_erase_repl_range first_it last_it U =
     Option.bind (extract_range (um_heap U) first_it last_it (um_index U)) (\<lambda>idx.
       map_option (\<lambda>(st, nx). (U\<lparr>um_index := idx, um_heap := fst st, um_cm := snd st\<rparr>, nx))
         (cm_erase_range first_it last_it (um_heap U, um_cm U)))"

definition um_clear :: "('k, 'v, 'p, 'r) umap \<Rightarrow> ('k, 'v, 'p, 'r) umap" where
  "um_clear U = (lift_cm cm_clear U)\<lparr>um_index := Map.empty\<rparr>"

section \<open>Lookup\<close>

text \<open>
  The lookups with access call the policy's access hook on a hit; the quiet ones read the
  index only, and return no state.
\<close>

definition um_access_key :: "'k \<Rightarrow> ('k, 'v, 'p, 'w::len word) umap \<Rightarrow> ('k, 'v, 'p, 'w word) umap" where
  "um_access_key k U = (case um_index U k of None \<Rightarrow> U | Some p \<Rightarrow> lift_cm (cm_access p) U)"

definition um_find ::
  "'k \<Rightarrow> ('k, 'v, 'p, 'w::len word) umap \<Rightarrow> ('k, 'v, 'p, 'w word) umap \<times> 'p option" where
  "um_find k U = (case um_index U k of None \<Rightarrow> (U, None) | Some p \<Rightarrow> (lift_cm (cm_access p) U, Some p))"

definition um_quiet_find :: "'k \<Rightarrow> ('k, 'v, 'p, 'r) umap \<Rightarrow> 'p option" where
  "um_quiet_find k U = um_index U k"

definition um_replacement_find ::
  "'k \<Rightarrow> ('k, 'v, 'p, 'w::len word) umap \<Rightarrow> ('k, 'v, 'p, 'w word) umap \<times> 'p" where
  "um_replacement_find k U =
     (case um_index U k of
        None \<Rightarrow> (U, cm_first (um_cm U))
      | Some p \<Rightarrow> (lift_cm (cm_access p) U, p))"

definition um_quiet_replacement_find :: "'k \<Rightarrow> ('k, 'v, 'p, 'r) umap \<Rightarrow> 'p" where
  "um_quiet_replacement_find k U = (case um_index U k of None \<Rightarrow> cm_first (um_cm U) | Some p \<Rightarrow> p)"

definition um_count :: "'k \<Rightarrow> ('k, 'v, 'p, 'w::len word) umap \<Rightarrow> ('k, 'v, 'p, 'w word) umap \<times> nat" where
  "um_count k U = (case um_index U k of None \<Rightarrow> (U, 0) | Some p \<Rightarrow> (lift_cm (cm_access p) U, 1))"

definition um_quiet_count :: "'k \<Rightarrow> ('k, 'v, 'p, 'r) umap \<Rightarrow> nat" where
  "um_quiet_count k U = (case um_index U k of None \<Rightarrow> 0 | Some p \<Rightarrow> 1)"

definition um_contains :: "'k \<Rightarrow> ('k, 'v, 'p, 'w::len word) umap \<Rightarrow> ('k, 'v, 'p, 'w word) umap \<times> bool" where
  "um_contains k U = (case um_index U k of None \<Rightarrow> (U, False) | Some p \<Rightarrow> (lift_cm (cm_access p) U, True))"

definition um_quiet_contains :: "'k \<Rightarrow> ('k, 'v, 'p, 'r) umap \<Rightarrow> bool" where
  "um_quiet_contains k U = (0 < um_quiet_count k U)"

text \<open>\<open>at(key)\<close> and \<open>quiet_at(key)\<close>: the mapped value, or \<open>std::out_of_range\<close>.\<close>

definition um_at ::
  "'k \<Rightarrow> ('k, 'v, 'p, 'w::len word) umap \<Rightarrow> ('k, 'v, 'p, 'w word) umap \<times> (error + 'v)" where
  "um_at k U =
     (case um_index U k of
        None \<Rightarrow> (U, Inl OutOfRange)
      | Some p \<Rightarrow> (let U' = lift_cm (cm_access p) U in (U', Inr (snd (node_value (um_heap U') p)))))"

definition um_quiet_at :: "'k \<Rightarrow> ('k, 'v, 'p, 'r) umap \<Rightarrow> error + 'v" where
  "um_quiet_at k U = (case um_index U k of None \<Rightarrow> Inl OutOfRange | Some p \<Rightarrow> Inr (snd (node_value (um_heap U) p)))"

text \<open>\<open>operator[](value)\<close>: insert the pair when its key is missing, access it otherwise.\<close>

definition um_subscript ::
  "'p \<Rightarrow> 'k \<times> 'v \<Rightarrow> ('k, 'v, 'p, 'w::len word) umap \<Rightarrow> (('k, 'v, 'p, 'w word) umap \<times> (error + 'v)) option" where
  "um_subscript p kv U =
     (case um_index U (fst kv) of
        None \<Rightarrow> map_option (\<lambda>(U', r). (U', map_sum id (\<lambda>(q, _). snd (node_value (um_heap U') q)) r))
                 (um_insert p kv U)
      | Some q \<Rightarrow> (let U' = lift_cm (cm_access q) U in Some (U', Inr (snd (node_value (um_heap U') q)))))"

section \<open>Making space on request\<close>

definition um_free_space ::
  "size_t \<Rightarrow> ('k, 'v, 'p, 'w::len word) umap \<Rightarrow> (('k, 'v, 'p, 'w word) umap \<times> (error + unit)) option" where
  "um_free_space w U = map_option (\<lambda>(ok, U'). (U', if ok then Inr () else Inl NoSpace)) (freeSpace w U)"

definition um_provide_space ::
  "size_t \<Rightarrow> ('k, 'v, 'p, 'w::len word) umap \<Rightarrow> (('k, 'v, 'p, 'w word) umap \<times> (error + unit)) option" where
  "um_provide_space w U = map_option (\<lambda>(ok, U'). (U', if ok then Inr () else Inl NoSpace)) (provideSpace w U)"

section \<open>Insertion keeps the invariant\<close>

text \<open>
  \<open>safeManagerInsert\<close> of a fresh node whose key is new and whose weight fits, once
  the index maps the key to it: the facade's invariant with the node at the policy's
  insert position, and the weight counter grown by its weight.
\<close>

lemma safeManagerInsert_ok:
  assumes inv: "cm_inv (um_heap U) (um_cm U) ys" and d: "distinct (map (key_of (um_heap U)) ys)"
    and fresh: "p \<notin> set (cm_first (um_cm U) # ys)"
    and knew: "key_of (um_heap U) p \<notin> key_of (um_heap U) ` set ys"
    and idx: "um_index U = (idx_of (um_heap U) ys)(key_of (um_heap U) p \<mapsto> p)"
    and fit: "unat (cm_weight (um_cm U)) + unat (calculate_weight (um_heap U) (um_cm U) p)
                \<le> unat (cm_capacity (um_cm U))"
  shows "um_inv (safeManagerInsert p U) (insert_list (cm_policy (um_cm U)) p ys) \<and>
    node_value (um_heap (safeManagerInsert p U)) = node_value (um_heap U) \<and>
    cm_config (um_cm (safeManagerInsert p U)) = cm_config (um_cm U) \<and>
    unat (cm_weight (um_cm (safeManagerInsert p U))) =
      unat (cm_weight (um_cm U)) + unat (calculate_weight (um_heap U) (um_cm U) p)"
proof -
  let ?h = "um_heap U" and ?m = "um_cm U" and ?U' = "safeManagerInsert p U"
  have step: "cm_inv (fst (cm_insert p (?h, ?m))) (snd (cm_insert p (?h, ?m))) (insert_list (cm_policy ?m) p ys) \<and>
      node_value (fst (cm_insert p (?h, ?m))) = node_value ?h \<and>
      cm_config (snd (cm_insert p (?h, ?m))) = cm_config ?m \<and>
      unat (cm_weight (snd (cm_insert p (?h, ?m)))) = unat (cm_weight ?m) + unat (calculate_weight ?h ?m p)"
    using cm_insert_step [OF inv fresh] fit by (simp add: calculate_weight_def)
  have kv: "key_of (um_heap ?U') = key_of ?h"
    using step by (simp add: safeManagerInsert_def lift_cm_def Let_def key_of_def [abs_def])
  have "um_index ?U' = idx_of ?h (insert_list (cm_policy ?m) p ys)"
    using idx by (simp add: safeManagerInsert_def lift_cm_def Let_def idx_of_insert_list [OF knew])
  then show ?thesis
    using step kv d knew
    by (auto simp: um_inv_def safeManagerInsert_def lift_cm_def Let_def insert_list_def idx_of_def)
qed

lemma indexInserted_ok:
  assumes inv: "cm_inv (um_heap U) (um_cm U) xs" and d: "distinct (map (key_of (um_heap U)) xs)"
    and fresh: "p \<notin> set (cm_first (um_cm U) # xs)"
    and idx: "um_index U = (idx_of (um_heap U) xs)(key_of (um_heap U) p \<mapsto> p)"
    and knew: "key_of (um_heap U) p \<notin> key_of (um_heap U) ` set xs"
  shows "\<exists>U' r. indexInserted p U = Some (U', r) \<and>
    (case r of
       Inl e \<Rightarrow> e = NoSpace \<and> U' = U\<lparr>um_index := idx_of (um_heap U) xs\<rparr>
     | Inr u \<Rightarrow> (\<exists>rem. um_inv U' (insert_list (cm_policy (um_cm U)) p (filter (\<lambda>q. q \<notin> set rem) xs))) \<and>
                node_value (um_heap U') = node_value (um_heap U) \<and> cm_config (um_cm U') = cm_config (um_cm U))"
proof -
  let ?h = "um_heap U" and ?m = "um_cm U" and ?k = "key_of (um_heap U) p"
  let ?w = "calculate_weight ?h ?m p"
  obtain r where r: "provideSpace ?w U = Some r"
    and ok: "if fst r then \<exists>rem. evicted U xs rem (snd r) \<and>
               unat (cm_weight (um_cm (snd r))) + unat ?w \<le> unat (cm_capacity ?m) else snd r = U"
    using provideSpace_ok [OF inv] by blast
  show ?thesis
  proof (cases "fst r")
    case False
    then have "snd r = U" using ok by simp
    moreover have "idx_of ?h xs ?k = None" using knew by (simp add: idx_of_None)
    then have "(idx_of ?h xs)(?k \<mapsto> p, ?k := None) = idx_of ?h xs" by auto
    ultimately show ?thesis
      using r False idx by (cases r) (simp add: indexInserted_def index_erase_def)
  next
    case True
    then obtain rem where ev: "evicted U xs rem (snd r)"
      and fit: "unat (cm_weight (um_cm (snd r))) + unat ?w \<le> unat (cm_capacity ?m)"
      using ok by auto
    let ?U2 = "snd r" and ?ys = "filter (\<lambda>q. q \<notin> set rem) xs"
    have ev': "set rem \<subseteq> set xs" "cm_inv (um_heap ?U2) (um_cm ?U2) ?ys"
      "um_index ?U2 = drop_keys ?h rem (um_index U)" "node_value (um_heap ?U2) = node_value ?h"
      "cm_config (um_cm ?U2) = cm_config ?m"
      using ev by (simp_all add: evicted_def)
    have cfg: "cm_capacity (um_cm ?U2) = cm_capacity ?m" "cm_first (um_cm ?U2) = cm_first ?m"
      "cm_weigher (um_cm ?U2) = cm_weigher ?m" "cm_policy (um_cm ?U2) = cm_policy ?m"
      using ev'(5) by (simp_all add: cm_config_def)
    have "?k \<notin> key_of ?h ` set rem" using knew ev'(1) by auto
    then have "um_index ?U2 = (drop_keys ?h rem (idx_of ?h xs))(?k \<mapsto> p)"
      using ev'(3) idx by (auto simp: drop_keys_apply intro!: ext)
    then have idx2: "um_index ?U2 = (idx_of ?h ?ys)(?k \<mapsto> p)"
      using idx_of_filter [OF d ev'(1)] by simp
    have k2: "key_of (um_heap ?U2) = key_of ?h" using ev'(4) by (simp add: key_of_def [abs_def])
    have w2: "calculate_weight (um_heap ?U2) (um_cm ?U2) p = ?w"
      using ev'(4) cfg by (simp add: calculate_weight_def)
    have step: "um_inv (safeManagerInsert p ?U2) (insert_list (cm_policy ?m) p ?ys) \<and>
        node_value (um_heap (safeManagerInsert p ?U2)) = node_value ?h \<and>
        cm_config (um_cm (safeManagerInsert p ?U2)) = cm_config ?m"
    proof -
      have "distinct (map (key_of (um_heap ?U2)) ?ys)" using d k2 by (simp add: distinct_map_filter)
      moreover have "p \<notin> set (cm_first (um_cm ?U2) # ?ys)" using fresh cfg by auto
      moreover have "key_of (um_heap ?U2) p \<notin> key_of (um_heap ?U2) ` set ?ys" using knew k2 by auto
      moreover have "um_index ?U2 = (idx_of (um_heap ?U2) ?ys)(key_of (um_heap ?U2) p \<mapsto> p)"
        using idx2 k2 by (simp add: idx_of_def)
      ultimately show ?thesis
        using safeManagerInsert_ok [OF ev'(2)] fit w2 ev'(4,5) cfg by simp
    qed
    then show ?thesis
      using r True step by (cases r) (auto simp: indexInserted_def)
  qed
qed

text \<open>
  C2. \<open>insert(value)\<close> with a fresh node address returns. When the key is present it
  changes nothing and returns the key's node. When it is new and fits after eviction, the
  entry is stored at that node, its key maps to it, and the facade's invariant holds of
  the surviving entries in their old order with the new one at the policy's insert
  position. Otherwise it throws \<open>no_space_error\<close> with the index, the manager and the
  list exactly as before; only the unreachable node allocated for the pair differs.
\<close>

theorem um_insert_correct:
  assumes inv: "um_inv U xs" and fresh: "p \<notin> set (cm_first (um_cm U) # xs)"
  shows "\<exists>U' r. um_insert p kv U = Some (U', r) \<and>
    (case r of
       Inl e \<Rightarrow> e = NoSpace \<and>
                U' = U\<lparr>um_heap := (um_heap U)\<lparr>node_value := (node_value (um_heap U))(p := kv)\<rparr>\<rparr>
     | Inr qb \<Rightarrow>
         (if snd qb then
            fst qb = p \<and> um_index U' (fst kv) = Some p \<and> node_value (um_heap U') p = kv \<and>
            (\<exists>rem. um_inv U' (insert_list (cm_policy (um_cm U)) p (filter (\<lambda>q. q \<notin> set rem) xs)))
          else U' = U \<and> um_index U (fst kv) = Some (fst qb)))"
proof (cases "um_index U (fst kv)")
  case (Some q)
  then show ?thesis by (simp add: um_insert_def)
next
  case None
  let ?U1 = "index_insert p kv U" and ?h = "um_heap U"
  let ?h1 = "um_heap (index_insert p kv U)"
  have pxs: "p \<notin> set xs" using fresh by simp
  have keq: "\<And>q. q \<in> set xs \<Longrightarrow> key_of ?h1 q = key_of ?h q"
    using pxs by (auto simp: index_insert_def key_of_def)
  have d: "distinct (map (key_of ?h) xs)" and idx: "um_index U = idx_of ?h xs"
    using inv by (simp_all add: um_inv_def)
  have kp: "key_of ?h1 p = fst kv" by (simp add: index_insert_def key_of_def)
  have knew: "fst kv \<notin> key_of ?h ` set xs" using None idx by (simp add: idx_of_None)
  have inv1: "cm_inv ?h1 (um_cm ?U1) xs"
    using um_inv_cm [OF inv] pxs by (simp add: index_insert_def cm_inv_value_upd)
  have me: "map (key_of ?h1) xs = map (key_of ?h) xs" by (rule map_cong [OF refl keq])
  have d1: "distinct (map (key_of ?h1) xs)" using d by (simp only: me)
  have idx1: "idx_of ?h1 xs = idx_of ?h xs" using keq by (rule idx_of_cong)
  have "um_index ?U1 = (idx_of ?h1 xs)(key_of ?h1 p \<mapsto> p)"
    using idx idx1 kp by (simp add: index_insert_def)
  moreover have "key_of ?h1 p \<notin> key_of ?h1 ` set xs" using knew kp keq by auto
  ultimately obtain U' r where ii: "indexInserted p ?U1 = Some (U', r)"
    and ok: "case r of
       Inl e \<Rightarrow> e = NoSpace \<and> U' = ?U1\<lparr>um_index := idx_of ?h1 xs\<rparr>
     | Inr u \<Rightarrow> (\<exists>rem. um_inv U' (insert_list (cm_policy (um_cm ?U1)) p (filter (\<lambda>q. q \<notin> set rem) xs))) \<and>
                node_value (um_heap U') = node_value ?h1 \<and> cm_config (um_cm U') = cm_config (um_cm ?U1)"
    using indexInserted_ok [OF inv1 d1 _ _] fresh by (fastforce simp: index_insert_def)
  show ?thesis
  proof (cases r)
    case (Inl e)
    then show ?thesis using ok ii None idx idx1 by (simp add: um_insert_def index_insert_def)
  next
    case (Inr u)
    then obtain rem where inv': "um_inv U' (insert_list (cm_policy (um_cm U)) p (filter (\<lambda>q. q \<notin> set rem) xs))"
      and nv: "node_value (um_heap U') = node_value ?h1"
      using ok by (auto simp: index_insert_def)
    have "um_index U' (fst kv) = Some p"
      using inv' nv kp by (auto simp: um_inv_def idx_of_Some insert_list_def key_of_def)
    then show ?thesis using Inr ii None nv inv' by (auto simp: um_insert_def index_insert_def)
  qed
qed

section \<open>Making space on request\<close>

text \<open>
  C4. \<open>free_space(w)\<close> on a well-formed map returns (its eviction loop ends). On success
  the surviving entries keep their order and the invariant, and the total weight dropped
  by at least \<open>w\<close>; when the policy runs out of victims the erased entries are put
  back and \<open>no_space_error\<close> leaves the map exactly as it was.
\<close>

theorem um_free_space_correct:
  assumes inv: "um_inv U xs"
  shows "\<exists>U' r. um_free_space w U = Some (U', r) \<and>
    (case r of
       Inl e \<Rightarrow> e = NoSpace \<and> U' = U
     | Inr u \<Rightarrow> (\<exists>rem. set rem \<subseteq> set xs \<and> um_inv U' (filter (\<lambda>q. q \<notin> set rem) xs)) \<and>
                unat (cm_weight (um_cm U')) + unat w \<le> unat (cm_weight (um_cm U)))"
proof -
  obtain r where r: "freeSpace w U = Some r"
    and ok: "if fst r then \<exists>rem. evicted U xs rem (snd r) \<and> unat w \<le> unat_sum (node_weight (um_heap U)) rem
             else snd r = U"
    using freeSpace_ok [OF um_inv_cm [OF inv]] by blast
  show ?thesis
  proof (cases "fst r")
    case True
    then obtain rem where ev: "evicted U xs rem (snd r)" and le: "unat w \<le> unat_sum (node_weight (um_heap U)) rem"
      using ok by auto
    have "unat (cm_weight (um_cm (snd r))) + unat_sum (node_weight (um_heap U)) rem = unat (cm_weight (um_cm U))"
      "set rem \<subseteq> set xs"
      using ev by (simp_all add: evicted_def)
    then show ?thesis using r True le evicted_um_inv [OF inv ev]
      by (cases r) (auto simp: um_free_space_def)
  next
    case False
    then show ?thesis using r ok by (cases r) (simp add: um_free_space_def)
  qed
qed

text \<open>
  C3. \<open>provide_space(w)\<close> on a well-formed map returns; on success an entry of weight
  \<open>w\<close> fits (\<open>W + w \<le> C\<close>) and the surviving entries keep the invariant; on
  \<open>no_space_error\<close> the map is unchanged.
\<close>

theorem um_provide_space_correct:
  assumes inv: "um_inv U xs"
  shows "\<exists>U' r. um_provide_space w U = Some (U', r) \<and>
    (case r of
       Inl e \<Rightarrow> e = NoSpace \<and> U' = U
     | Inr u \<Rightarrow> (\<exists>rem. set rem \<subseteq> set xs \<and> um_inv U' (filter (\<lambda>q. q \<notin> set rem) xs)) \<and>
                unat (cm_weight (um_cm U')) + unat w \<le> unat (cm_capacity (um_cm U')))"
proof -
  obtain r where r: "provideSpace w U = Some r"
    and ok: "if fst r then \<exists>rem. evicted U xs rem (snd r) \<and>
               unat (cm_weight (um_cm (snd r))) + unat w \<le> unat (cm_capacity (um_cm U)) else snd r = U"
    using provideSpace_ok [OF um_inv_cm [OF inv]] by blast
  show ?thesis
  proof (cases "fst r")
    case True
    then obtain rem where ev: "evicted U xs rem (snd r)"
      and le: "unat (cm_weight (um_cm (snd r))) + unat w \<le> unat (cm_capacity (um_cm U))"
      using ok by auto
    have "cm_capacity (um_cm (snd r)) = cm_capacity (um_cm U)" "set rem \<subseteq> set xs"
      using ev by (simp_all add: evicted_def cm_config_def)
    then show ?thesis using r True le evicted_um_inv [OF inv ev]
      by (cases r) (auto simp: um_provide_space_def)
  next
    case False
    then show ?thesis using r ok by (cases r) (simp add: um_provide_space_def)
  qed
qed

end
