(* ===== verification/Limited_Props.thy ===== *)
theory Limited_Props
  imports Limited_Map
begin

text \<open>
  Removal, lookup and clearing of \<open>limited::unordered_map\<close>
  (\<open>limited/unordered_map.h\<close>): the facade's invariant after \<open>erase\<close>,
  \<open>extract\<close> and \<open>clear\<close>, the round trip \<open>extract\<close> then \<open>insert(node)\<close>,
  and the lookups, which answer as their quiet variants and only reorder the list.
\<close>

section \<open>Shared steps\<close>

text \<open>Unlinking a listed node and dropping its key keeps the facade's invariant.\<close>

lemma um_erase_node_step:
  assumes inv: "um_inv U (as @ p # bs)"
  shows "um_inv (index_erase p (lift_cm (cm_erase_node p) U)) (as @ bs) \<and>
    node_value (um_heap (index_erase p (lift_cm (cm_erase_node p) U))) = node_value (um_heap U) \<and>
    node_weight (um_heap (index_erase p (lift_cm (cm_erase_node p) U))) = node_weight (um_heap U) \<and>
    cm_config (um_cm (index_erase p (lift_cm (cm_erase_node p) U))) = cm_config (um_cm U) \<and>
    unat (cm_weight (um_cm (index_erase p (lift_cm (cm_erase_node p) U)))) + unat (node_weight (um_heap U) p) =
      unat (cm_weight (um_cm U))"
proof -
  let ?h = "um_heap U" and ?m = "um_cm U" and ?U' = "index_erase p (lift_cm (cm_erase_node p) U)"
  have cinv: "cm_inv ?h ?m (as @ p # bs)" using inv by (rule um_inv_cm)
  have d: "distinct (map (key_of ?h) (as @ p # bs))" and idx: "um_index U = idx_of ?h (as @ p # bs)"
    using inv by (simp_all add: um_inv_def)
  have e: "fst (cm_erase p (?h, ?m)) = cm_erase_node p (?h, ?m)" by (simp add: cm_erase_def Let_def)
  note step = cm_erase_step [OF cinv, unfolded e]
  have kv: "key_of (um_heap ?U') = key_of ?h"
    using step by (simp add: index_erase_def lift_cm_def Let_def key_of_def [abs_def])
  have ds: "distinct (as @ p # bs)" using dl_ring_distinct [OF cm_inv_ring [OF cinv]] by simp
  then have "filter (\<lambda>q. q \<noteq> p) as = as" "filter (\<lambda>q. q \<noteq> p) bs = bs"
    by (auto intro!: filter_True)
  then have flt: "filter (\<lambda>q. q \<notin> set [p]) (as @ p # bs) = as @ bs" by simp
  have "um_index ?U' = drop_keys ?h [p] (idx_of ?h (as @ p # bs))"
    using step idx by (simp add: index_erase_def lift_cm_def Let_def drop_keys_def key_of_def)
  also have "\<dots> = idx_of ?h (as @ bs)"
    using idx_of_filter [OF d, of "[p]"] flt by simp
  finally show ?thesis
    using step kv d by (simp add: um_inv_def index_erase_def lift_cm_def Let_def idx_of_def)
qed

text \<open>The index of a permutation of the list is the same map.\<close>

lemma idx_of_perm:
  assumes ms: "mset ys = mset xs" and d: "distinct (map (key_of h) xs)"
  shows "distinct (map (key_of h) ys) \<and> idx_of h ys = idx_of h xs"
proof -
  have dL: "distinct (map (key_of h) ys)"
    using d ms mset_eq_imp_distinct_iff [of "map (key_of h) ys" "map (key_of h) xs"] by simp
  have "set ys = set xs" using ms by (rule mset_eq_setD)
  then show ?thesis using d dL by (simp add: idx_of_def map_of_inject_set comp_def)
qed

text \<open>The access hook on a listed node reorders the list and keeps the invariant.\<close>

lemma um_access_step:
  assumes inv: "um_inv U xs" and p: "p \<in> set xs"
  shows "um_inv (lift_cm (cm_access p) U) (access_list (cm_policy (um_cm U)) p xs) \<and>
    node_value (um_heap (lift_cm (cm_access p) U)) = node_value (um_heap U) \<and>
    um_cm (lift_cm (cm_access p) U) = um_cm U \<and> um_index (lift_cm (cm_access p) U) = um_index U"
proof -
  let ?h = "um_heap U" and ?m = "um_cm U" and ?L = "access_list (cm_policy (um_cm U)) p xs"
  note step = cm_access_step [OF um_inv_cm [OF inv] p]
  have ms: "mset ?L = mset xs" using p by (rule mset_access_list)
  have d: "distinct (map (key_of ?h) xs)" and idx: "um_index U = idx_of ?h xs"
    using inv by (simp_all add: um_inv_def)
  have dL: "distinct (map (key_of ?h) ?L)" and iL: "idx_of ?h ?L = idx_of ?h xs"
    using idx_of_perm [OF ms d] by simp_all
  obtain h' where acc: "cm_access p (?h, ?m) = (h', ?m)"
    using step by (cases "cm_access p (?h, ?m)") simp
  have ci: "cm_inv h' ?m ?L" and nv: "node_value h' = node_value ?h" using step acc by simp_all
  then have "key_of h' = key_of ?h" by (simp add: key_of_def [abs_def])
  then have "idx_of h' = idx_of ?h" by (simp add: idx_of_def [abs_def])
  then show ?thesis
    using iL ci nv dL idx acc \<open>key_of h' = key_of ?h\<close> by (simp add: um_inv_def lift_cm_def Let_def)
qed

lemma um_inv_key_split:
  assumes inv: "um_inv U xs" and k: "um_index U k = Some p"
  obtains as bs where "xs = as @ p # bs" "key_of (um_heap U) p = k"
    "k \<notin> key_of (um_heap U) ` set (as @ bs)"
proof -
  have d: "distinct (map (key_of (um_heap U)) xs)" and idx: "um_index U = idx_of (um_heap U) xs"
    using inv by (simp_all add: um_inv_def)
  have "p \<in> set xs" and kp: "key_of (um_heap U) p = k" using k idx idx_of_Some [OF d] by auto
  then obtain as bs where xs: "xs = as @ p # bs" by (blast dest: split_list)
  then have "k \<notin> key_of (um_heap U) ` set (as @ bs)" using d kp by auto
  then show ?thesis using that xs kp by blast
qed

section \<open>Removal\<close>

text \<open>
  C5. \<open>erase(key)\<close> on a well-formed map: when an entry has the key, exactly that
  entry leaves the list and the index, the weight counter drops by its weight, the
  facade's invariant holds of the rest, and it returns 1; otherwise it returns 0 and
  changes nothing.
\<close>

theorem um_erase_key_correct:
  assumes inv: "um_inv U xs"
  shows "case um_erase_key k U of (U', n) \<Rightarrow>
    (if k \<in> key_of (um_heap U) ` set xs then
       n = 1 \<and> um_index U' k = None \<and>
       (\<exists>as p bs. xs = as @ p # bs \<and> key_of (um_heap U) p = k \<and> um_inv U' (as @ bs) \<and>
          unat (cm_weight (um_cm U')) + unat (node_weight (um_heap U) p) = unat (cm_weight (um_cm U)))
     else n = 0 \<and> U' = U)"
proof (cases "um_index U k")
  case None
  then have "k \<notin> key_of (um_heap U) ` set xs" using inv by (simp add: um_inv_def idx_of_None)
  then show ?thesis using None by (simp add: um_erase_key_def)
next
  case (Some p)
  then obtain as bs where xs: "xs = as @ p # bs" and kp: "key_of (um_heap U) p = k"
    and kn: "k \<notin> key_of (um_heap U) ` set (as @ bs)"
    using um_inv_key_split [OF inv] by blast
  let ?U' = "index_erase p (lift_cm (cm_erase_node p) U)"
  note step = um_erase_node_step [OF inv [unfolded xs]]
  have "um_index ?U' k = None"
    using step kn by (auto simp: um_inv_def idx_of_None key_of_def [abs_def])
  then show ?thesis using Some step xs kp by (auto simp: um_erase_key_def)
qed

text \<open>
  C7. \<open>extract(key)\<close> of a present key, then \<open>insert(node)\<close> of the
  extracted node, succeeds without evicting anything: the entry is back in the index
  with the same node, value and weight counter, and the node is at the policy's insert
  position among the other entries, in their old order.
\<close>

theorem um_extract_insert_node:
  assumes inv: "um_inv U xs" and k: "um_index U k = Some p"
  shows "\<exists>U1 U2 as bs. um_extract_key k U = (U1, Some p) \<and> xs = as @ p # bs \<and> um_inv U1 (as @ bs) \<and>
    um_insert_node p U1 = Some (U2, Inr (p, True)) \<and>
    um_inv U2 (insert_list (cm_policy (um_cm U)) p (as @ bs)) \<and> um_index U2 k = Some p \<and>
    node_value (um_heap U2) = node_value (um_heap U) \<and> cm_weight (um_cm U2) = cm_weight (um_cm U)"
proof -
  obtain as bs where xs: "xs = as @ p # bs" and kp: "key_of (um_heap U) p = k"
    and kn: "k \<notin> key_of (um_heap U) ` set (as @ bs)"
    using um_inv_key_split [OF inv k] by blast
  let ?U1 = "index_erase p (lift_cm (cm_erase_node p) U)"
  let ?U1' = "?U1\<lparr>um_index := (um_index ?U1)(k \<mapsto> p)\<rparr>"
  note step = um_erase_node_step [OF inv [unfolded xs]]
  have ex: "um_extract_key k U = (?U1, Some p)" using k by (simp add: um_extract_key_def)
  have inv1: "um_inv ?U1 (as @ bs)" using step by simp
  have k1: "key_of (um_heap ?U1) = key_of (um_heap U)" using step by (simp add: key_of_def [abs_def])
  have cfg: "cm_capacity (um_cm ?U1) = cm_capacity (um_cm U)" "cm_first (um_cm ?U1) = cm_first (um_cm U)"
    "cm_weigher (um_cm ?U1) = cm_weigher (um_cm U)" "cm_policy (um_cm ?U1) = cm_policy (um_cm U)"
    using step by (simp_all add: cm_config_def)
  have none: "um_index ?U1 k = None" using inv1 kn k1 by (simp add: um_inv_def idx_of_None)
  have cinv: "cm_inv (um_heap U) (um_cm U) xs" using inv by (rule um_inv_cm)
  have w: "calculate_weight (um_heap ?U1') (um_cm ?U1') p = node_weight (um_heap U) p"
    using step cfg cm_inv_weights [OF cinv, of p] xs by (simp add: calculate_weight_def)
  have "unat (cm_weight (um_cm U)) \<le> unat (cm_capacity (um_cm U))"
    using cinv by (simp add: cm_inv_def word_le_nat_alt)
  then have fit: "unat (cm_weight (um_cm ?U1')) + unat (calculate_weight (um_heap ?U1') (um_cm ?U1') p)
      \<le> unat (cm_capacity (um_cm ?U1'))"
    using step w cfg by simp
  have "distinct (cm_first (um_cm U) # xs)" using dl_ring_distinct [OF cm_inv_ring [OF cinv]] .
  then have fresh: "p \<notin> set (cm_first (um_cm ?U1') # as @ bs)" using xs cfg by auto
  have idx1: "um_index ?U1' = (idx_of (um_heap ?U1') (as @ bs))(key_of (um_heap ?U1') p \<mapsto> p)"
    using inv1 kp k1 by (simp add: um_inv_def)
  have ins: "um_insert_node p ?U1 = Some (safeManagerInsert p ?U1', Inr (p, True))"
    using none kp k1 provideSpace_fits [OF fit] by (simp add: um_insert_node_def indexInserted_def)
  have "um_inv (safeManagerInsert p ?U1') (insert_list (cm_policy (um_cm U)) p (as @ bs)) \<and>
      node_value (um_heap (safeManagerInsert p ?U1')) = node_value (um_heap ?U1) \<and>
      unat (cm_weight (um_cm (safeManagerInsert p ?U1'))) = unat (cm_weight (um_cm U))"
    using safeManagerInsert_ok [OF _ _ fresh _ idx1 fit] inv1 kn kp k1 step w cfg
    by (simp add: um_inv_def)
  moreover have "um_index (safeManagerInsert p ?U1') k = Some p"
    by (simp add: safeManagerInsert_def lift_cm_def Let_def)
  ultimately show ?thesis
    using ex xs inv1 ins step by (auto intro: unsigned_word_eqI)
qed

section \<open>Lookup\<close>

text \<open>
  C26. \<open>at(key)\<close> on a well-formed map: when no entry has the key it throws
  \<open>std::out_of_range\<close> and changes nothing; otherwise it returns the value of the
  entry with that key, and the access hook has reordered the list as the policy says,
  keeping the invariant.
\<close>

theorem um_at_correct:
  assumes inv: "um_inv U xs"
  shows "case um_at k U of (U', r) \<Rightarrow>
    (case r of
       Inl e \<Rightarrow> e = OutOfRange \<and> U' = U \<and> k \<notin> key_of (um_heap U) ` set xs
     | Inr v \<Rightarrow> (\<exists>p \<in> set xs. node_value (um_heap U) p = (k, v) \<and>
                  um_inv U' (access_list (cm_policy (um_cm U)) p xs)))"
proof (cases "um_index U k")
  case None
  then have "k \<notin> key_of (um_heap U) ` set xs" using inv by (simp add: um_inv_def idx_of_None)
  then show ?thesis using None by (simp add: um_at_def)
next
  case (Some p)
  then obtain as bs where xs: "xs = as @ p # bs" and kp: "key_of (um_heap U) p = k"
    using um_inv_key_split [OF inv] by blast
  have "p \<in> set xs" using xs by simp
  note step = um_access_step [OF inv this]
  have "node_value (um_heap U) p = (k, snd (node_value (um_heap U) p))"
    using kp by (cases "node_value (um_heap U) p") (simp add: key_of_def)
  then show ?thesis using Some step xs by (auto simp: um_at_def)
qed

text \<open>
  The lookups with access answer exactly as their quiet variants, and their
  only effect is \<open>_manager.access\<close> of the found node: \<open>at\<close>, \<open>find\<close>,
  \<open>count\<close>, \<open>contains\<close>, \<open>replacement_find\<close>, and \<open>operator[]\<close> of a key
  that is present.
\<close>

theorem um_lookup_quiet_equiv:
  "um_at k U = (um_access_key k U, um_quiet_at k U) \<and>
   um_find k U = (um_access_key k U, um_quiet_find k U) \<and>
   um_count k U = (um_access_key k U, um_quiet_count k U) \<and>
   um_contains k U = (um_access_key k U, um_quiet_contains k U) \<and>
   um_replacement_find k U = (um_access_key k U, um_quiet_replacement_find k U) \<and>
   (k = fst kv \<longrightarrow> um_index U k \<noteq> None \<longrightarrow>
      um_subscript p kv U = Some (um_access_key k U, um_quiet_at k U))"
  by (cases "um_index U k")
     (auto simp: um_at_def um_find_def um_count_def um_contains_def um_replacement_find_def
        um_subscript_def um_access_key_def um_quiet_at_def um_quiet_find_def um_quiet_count_def
        um_quiet_contains_def um_quiet_replacement_find_def lift_cm_def cm_access_def Let_def split: prod.splits)

section \<open>Clearing\<close>

text \<open>
  \<open>clear()\<close> leaves an empty, well-formed map: the index is empty, the
  ring is the sentinel alone, the weight counter is zero, and the capacity, weigher and
  policy are kept.
\<close>

theorem um_clear_correct:
  "um_inv (um_clear U) [] \<and> um_index (um_clear U) = Map.empty \<and>
   cm_weight (um_cm (um_clear U)) = 0 \<and> cm_config (um_cm (um_clear U)) = cm_config (um_cm U)"
  by (simp add: um_clear_def um_inv_def lift_cm_def Let_def idx_of_def cm_clear_def cm_config_def
      cm_inv_def dl_ring_def)

section \<open>Plain policies always make room\<close>

text \<open>
  Under a policy without an erase hook the victims are the list from its head on, so the
  eviction loop only fails when the whole list weighs less than what it must free.
\<close>

lemma free_loop_plain:
  assumes "free_inv h0 m0 xs0 removed freed h m xs" and "cm_policy m = Plain b"
    and "nx = hd (xs @ [cm_first m])"
    and "unat weight \<le> unat freed + unat_sum (node_weight h0) xs"
  shows "\<exists>st rem. free_loop weight freed removed nx (h, m) = Some (True, st, rem)"
  using assms
proof (induction xs arbitrary: removed freed h m nx)
  case Nil
  then have "\<not> freed < weight" by (simp add: word_less_nat_alt)
  then show ?case by (subst free_loop.simps) simp
next
  case (Cons v bs)
  let ?s = "cm_first m"
  show ?case
  proof (cases "freed < weight")
    case False
    then show ?thesis by (subst free_loop.simps) simp
  next
    case True
    have fi: "free_inv h0 m0 xs0 removed freed h m ([] @ v # bs)" using Cons.prems(1) by simp
    have inv: "cm_inv h m (v # bs)" and fr: "unat freed = unat_sum (node_weight h0) removed"
      using Cons.prems(1) unfolding free_inv_def by blast+
    have vs: "v \<noteq> ?s" using dl_ring_distinct [OF cm_inv_ring [OF inv]] by auto
    obtain h' m' nx' where er: "cm_erase v (h, m) = ((h', m'), nx')" by (metis prod.exhaust)
    have step: "free_inv h0 m0 xs0 (removed @ [v]) (freed + calculate_weight h m v) h' m' bs"
      and nx': "nx' = hd (bs @ [?s])" and s': "cm_first m' = ?s"
      using free_inv_erase [OF fi er] by simp_all
    have "cm_inv h' m' bs" using step unfolding free_inv_def by blast
    then have inv': "cm_inv h' m' ([] @ bs)" by simp
    have pol': "cm_policy m' = Plain b"
      using Cons.prems(2) er by (auto simp: cm_erase_def cm_erase_node_def Let_def)
    have nx'': "nx' = hd (bs @ [cm_first m'])" using nx' s' by simp
    have "cm_next_hint (hd (bs @ [cm_first m'])) (h', m') = Some (hd (bs @ [cm_first m']))"
      using cm_next_hint_spec [OF inv'] pol' by (cases bs) simp_all
    then have hint: "cm_next_hint nx' (h', m') = Some nx'" using nx'' by simp
    have "unat (freed + calculate_weight h m v) = unat_sum (node_weight h0) (removed @ [v])"
      using step unfolding free_inv_def by blast
    then have "unat weight \<le> unat (freed + calculate_weight h m v) + unat_sum (node_weight h0) bs"
      using Cons.prems(4) fr by simp
    then obtain st rem where
      "free_loop weight (freed + calculate_weight h m v) (removed @ [v]) nx' (h', m') = Some (True, st, rem)"
      using Cons.IH [OF step pol' nx''] by blast
    moreover have "nx = v" using Cons.prems(3) by simp
    ultimately show ?thesis
      using True vs er hint by (subst free_loop.simps) (simp add: Let_def)
  qed
qed

lemma provideSpace_plain:
  assumes inv: "cm_inv (um_heap U) (um_cm U) xs" and pol: "cm_policy (um_cm U) = Plain b"
    and w: "w \<le> cm_capacity (um_cm U)"
  shows "\<exists>U'. provideSpace w U = Some (True, U')"
proof -
  let ?h = "um_heap U" and ?m = "um_cm U"
  let ?C = "cm_capacity ?m" and ?W = "cm_weight ?m" and ?s = "cm_first (um_cm U)"
  show ?thesis
  proof (cases "w \<le> ?C - ?W")
    case True
    then show ?thesis using w by (simp add: provideSpace_def Let_def not_less)
  next
    case False
    let ?need = "w - (?C - ?W)"
    have WC: "?W \<le> ?C" using inv by (simp add: cm_inv_def)
    then have "unat (?C - ?W) = unat ?C - unat ?W" by (rule unat_sub_no_wrap)
    moreover have "unat w \<le> unat ?C" using w by (simp add: word_le_nat_alt)
    moreover have "unat ?W \<le> unat ?C" using WC by (simp add: word_le_nat_alt)
    ultimately have "unat (?C - ?W) \<le> unat w" "unat ?need = unat w - unat (?C - ?W)"
      using False by (simp_all add: word_le_nat_alt unat_sub_no_wrap)
    then have need: "unat ?need \<le> unat ?W" using \<open>unat w \<le> unat ?C\<close> \<open>unat ?W \<le> unat ?C\<close>
      \<open>unat (?C - ?W) = unat ?C - unat ?W\<close> by simp
    have nx: "cm_next (?h, ?m) = Some (hd (xs @ [?s]))"
      using cm_next_pick [OF inv] cm_inv_empty [OF inv] pol by (cases xs) (simp_all add: cm_next_def)
    have "unat ?need \<le> unat (0::size_t) + unat_sum (node_weight ?h) xs"
      using need inv by (simp add: cm_inv_def)
    then obtain st rem where "free_loop ?need 0 [] (hd (xs @ [?s])) (?h, ?m) = Some (True, st, rem)"
      using free_loop_plain [OF free_inv_init [OF inv] pol] by blast
    moreover have "\<not> ?W < ?need" using need by (simp add: word_less_nat_alt)
    ultimately show ?thesis
      using False w nx
      by (simp add: provideSpace_def freeSpace_def free_space_cm_def commit_free_def Let_def not_less) blast
  qed
qed

text \<open>
  C24. Under a policy without an erase hook (FIFO, LIFO, LRU, MRU, swapping), an
  \<open>insert(value)\<close> of an entry whose weight is at most the capacity never throws
  \<open>no_space_error\<close>: the eviction loop can always free enough.
\<close>

theorem um_insert_plain_never_full:
  assumes inv: "um_inv U xs" and fresh: "p \<notin> set (cm_first (um_cm U) # xs)"
    and pol: "cm_policy (um_cm U) = Plain b" and w: "cm_weigher (um_cm U) kv \<le> cm_capacity (um_cm U)"
  shows "\<exists>U' qb. um_insert p kv U = Some (U', Inr qb)"
proof (cases "um_index U (fst kv)")
  case None
  let ?U1 = "index_insert p kv U"
  have "cm_inv (um_heap ?U1) (um_cm ?U1) xs"
    using um_inv_cm [OF inv] fresh by (simp add: index_insert_def cm_inv_value_upd)
  moreover have "calculate_weight (um_heap ?U1) (um_cm ?U1) p = cm_weigher (um_cm U) kv"
    by (simp add: index_insert_def calculate_weight_def)
  ultimately obtain U' where "provideSpace (calculate_weight (um_heap ?U1) (um_cm ?U1) p) ?U1 = Some (True, U')"
    using provideSpace_plain [of ?U1 xs b] pol w by (auto simp: index_insert_def)
  then show ?thesis using None by (simp add: um_insert_def indexInserted_def) blast
qed (auto simp: um_insert_def)

end
