(* ===== verification/Limited_Assign.thy ===== *)
theory Limited_Assign
  imports Limited_Props
begin

text \<open>
  \<open>assign(position, obj)\<close> of \<open>limited::unordered_map\<close>: making room for a heavier
  value without evicting the entry assigned (\<open>provideSpace(weight, except)\<close>), and the
  correctness of \<open>assign\<close> under a policy without an erase hook. While room is made the
  node already holds its new value but still counts its old weight; the lemmas of this
  theory show that the eviction loop does not look at that value.
\<close>

section \<open>Making room except one entry\<close>

lemma free_space_except_cm_ok:
  assumes inv: "cm_inv h m xs" and e: "e \<in> set xs" and np: "\<not> is_priority (cm_policy m)"
  shows "\<exists>r. free_space_except_cm e weight (h, m) = Some r \<and> free_ok weight h m xs r \<and>
             e \<notin> set (snd (snd r))"
proof (cases "cm_weight m < weight")
  case True
  then show ?thesis by (simp add: free_space_except_cm_def free_ok_def)
next
  case False
  let ?v = "erase_pick (cm_policy m) (node_value h) (remove1 e xs) (cm_first m)"
  have ne: "cm_next_except e (h, m) = Some (h, ?v)"
    using cm_next_except_spec [OF inv e] erase_spec_plain [OF np] by simp
  have d: "distinct xs" using dl_ring_distinct [OF cm_inv_ring [OF inv]] by simp
  have "?v \<in> insert (cm_first m) (set (remove1 e xs))" by (rule erase_pick_in)
  then have "?v \<in> insert (cm_first m) (set xs - {e})" using set_remove1_distinct [OF d] by simp
  then obtain r where "free_loop_except e weight 0 [] ?v (h, m) = Some r"
    "free_ok weight h m xs r" "e \<notin> set (snd (snd r))"
    using free_loop_except_ok [OF free_inv_init [OF inv] e np] by blast
  then show ?thesis using False ne by (simp add: free_space_except_cm_def)
qed

lemma freeSpace_except_ok:
  assumes inv: "cm_inv (um_heap U) (um_cm U) xs" and e: "e \<in> set xs"
    and np: "\<not> is_priority (cm_policy (um_cm U))"
  shows "\<exists>r. freeSpace_except w e U = Some r \<and>
    (if fst r then \<exists>rem. evicted U xs rem (snd r) \<and> e \<notin> set rem \<and>
                          unat w \<le> unat_sum (node_weight (um_heap U)) rem
     else snd r = U)"
proof -
  obtain r where "free_space_except_cm e w (um_heap U, um_cm U) = Some r"
    "free_ok w (um_heap U) (um_cm U) xs r" "e \<notin> set (snd (snd r))"
    using free_space_except_cm_ok [OF inv e np] by blast
  then show ?thesis using commit_free_ok [of w U xs r] by (auto simp: freeSpace_except_def)
qed

lemma provideSpace_except_ok:
  assumes inv: "cm_inv (um_heap U) (um_cm U) xs" and e: "e \<in> set xs"
    and np: "\<not> is_priority (cm_policy (um_cm U))"
  shows "\<exists>r. provideSpace_except w e U = Some r \<and>
    (if fst r then \<exists>rem. evicted U xs rem (snd r) \<and> e \<notin> set rem \<and>
                          unat (cm_weight (um_cm (snd r))) + unat w \<le> unat (cm_capacity (um_cm U))
     else snd r = U)"
proof -
  let ?C = "cm_capacity (um_cm U)" and ?W = "cm_weight (um_cm U)"
  have WC: "?W \<le> ?C" using inv by (simp add: cm_inv_def)
  consider (big) "?C < w" | (fits) "\<not> ?C < w" "w \<le> ?C - ?W" | (evict) "\<not> ?C < w" "\<not> w \<le> ?C - ?W"
    by blast
  then show ?thesis
  proof cases
    case big
    then show ?thesis by (simp add: provideSpace_except_def)
  next
    case fits
    then have "unat ?W + unat w \<le> unat ?C" using WC by (intro fit_bound)
    moreover have "provideSpace_except w e U = Some (True, U)"
      using fits by (simp add: provideSpace_except_def Let_def)
    ultimately show ?thesis using evicted_none [OF inv] by auto
  next
    case evict
    obtain r where r: "freeSpace_except (w - (?C - ?W)) e U = Some r"
      and ok: "if fst r then \<exists>rem. evicted U xs rem (snd r) \<and> e \<notin> set rem \<and>
                 unat (w - (?C - ?W)) \<le> unat_sum (node_weight (um_heap U)) rem else snd r = U"
      using freeSpace_except_ok [OF inv e np] by blast
    have "\<exists>rem. evicted U xs rem (snd r) \<and> e \<notin> set rem \<and>
        unat (cm_weight (um_cm (snd r))) + unat w \<le> unat ?C"
      if "fst r"
    proof -
      obtain rem where ev: "evicted U xs rem (snd r)" and er: "e \<notin> set rem"
        and le: "unat (w - (?C - ?W)) \<le> unat_sum (node_weight (um_heap U)) rem"
        using ok \<open>fst r\<close> by auto
      have "unat (cm_weight (um_cm (snd r))) + unat_sum (node_weight (um_heap U)) rem = unat ?W"
        using ev by (simp add: evicted_def)
      then show ?thesis using ev er shortfall_bound [OF WC evict(2) le] by blast
    qed
    moreover have "provideSpace_except w e U = freeSpace_except (w - (?C - ?W)) e U"
      using evict by (simp add: provideSpace_except_def Let_def)
    ultimately show ?thesis using r ok by auto
  qed
qed

section \<open>The loop does not read the value of the excepted node\<close>

text \<open>
  Replacing the value stored at a node commutes with the list operations, and, for a
  node other than the one touched, with erase and reinsert; the victim selection of a
  policy without an erase hook reads no value at all.
\<close>

lemma link_value_upd: "link a b (h\<lparr>node_value := f\<rparr>) = (link a b h)\<lparr>node_value := f\<rparr>"
  by (simp add: link_def)

lemma cm_next_except_value_upd:
  assumes "cm_policy m = Plain b"
  shows "cm_next_except e (h\<lparr>node_value := f\<rparr>, m) =
    map_option (\<lambda>(h', r). (h'\<lparr>node_value := f\<rparr>, r)) (cm_next_except e (h, m))"
  using assms by (simp add: cm_next_except_def Let_def link_value_upd)

lemma cm_next_except_hint_value_upd:
  assumes "cm_policy m = Plain b"
  shows "cm_next_except_hint hint e (h\<lparr>node_value := f\<rparr>, m) =
    map_option (\<lambda>(h', r). (h'\<lparr>node_value := f\<rparr>, r)) (cm_next_except_hint hint e (h, m))"
  using assms by (simp add: cm_next_except_hint_def Let_def link_value_upd)

lemma cm_erase_value_upd:
  assumes "f v = node_value h v"
  shows "cm_erase v (h\<lparr>node_value := f\<rparr>, m) =
    map_prod (map_prod (\<lambda>h'. h'\<lparr>node_value := f\<rparr>) id) id (cm_erase v (h, m))"
  using assms by (simp add: cm_erase_def cm_erase_node_def calculate_weight_def Let_def link_value_upd)

lemma cm_reinsert_value_upd:
  assumes "f v = node_value h v"
  shows "cm_reinsert v (h\<lparr>node_value := f\<rparr>, m) =
    map_prod (\<lambda>h'. h'\<lparr>node_value := f\<rparr>) id (cm_reinsert v (h, m))"
  using assms by (simp add: cm_reinsert_def calculate_weight_def Let_def link_value_upd)

lemma cm_reinsert_value: "node_value (fst (cm_reinsert v st)) = node_value (fst st)"
  by (cases st) (simp add: cm_reinsert_def Let_def)

lemma fold_reinsert_value_upd:
  assumes "\<forall>v \<in> set vs. f v = node_value h v"
  shows "fold cm_reinsert vs (h\<lparr>node_value := f\<rparr>, m) =
    map_prod (\<lambda>h'. h'\<lparr>node_value := f\<rparr>) id (fold cm_reinsert vs (h, m))"
  using assms
proof (induction vs arbitrary: h m)
  case Nil
  then show ?case by simp
next
  case (Cons v vs)
  obtain h' m' where r: "cm_reinsert v (h, m) = (h', m')" by (metis prod.exhaust)
  have "node_value h' = node_value h" using cm_reinsert_value [of v "(h, m)"] r by simp
  then have "\<forall>q \<in> set vs. f q = node_value h' q" using Cons.prems by simp
  then show ?case using Cons.IH cm_reinsert_value_upd [of f v h m] Cons.prems r by simp
qed

text \<open>
  The eviction loop of \<open>freeSpace(weight, except)\<close> run on a heap whose excepted node
  holds another value: the same evictions, with that value still in place.
\<close>

lemma free_loop_except_value_upd:
  assumes "free_inv h0 m0 xs0 removed freed h m xs" and "e \<in> set xs" and "cm_policy m = Plain b"
    and "nx \<in> insert (cm_first m) (set xs - {e})"
  shows "free_loop_except e weight freed removed nx (h\<lparr>node_value := (node_value h0)(e := x)\<rparr>, m) =
    map_option (map_prod id (map_prod (map_prod (\<lambda>h'. h'\<lparr>node_value := (node_value h0)(e := x)\<rparr>) id) id))
      (free_loop_except e weight freed removed nx (h, m))"
  using assms
proof (induction "length xs" arbitrary: removed freed h m xs nx rule: less_induct)
  case less
  let ?s = "cm_first m" and ?f = "(node_value h0)(e := x)"
  let ?hv = "h\<lparr>node_value := ?f\<rparr>"
  have fi: "free_inv h0 m0 xs0 removed freed h m xs" by (rule less.prems(1))
  then have inv: "cm_inv h m xs" and nv: "node_value h = node_value h0"
    unfolding free_inv_def by blast+
  have erem: "e \<notin> set removed" using fi less.prems(2) unfolding free_inv_def by auto
  have d: "distinct xs" using dl_ring_distinct [OF cm_inv_ring [OF inv]] by simp
  have np: "\<not> is_priority (cm_policy m)" using less.prems(3) by simp
  show ?case
  proof (cases "freed < weight")
    case False
    then have "free_loop_except e weight freed removed nx (h, m) = Some (True, (h, m), removed)"
      "free_loop_except e weight freed removed nx (?hv, m) = Some (True, (?hv, m), removed)"
      by (subst free_loop_except.simps, simp)+
    then show ?thesis by simp
  next
    case True
    let ?pick = "erase_pick (cm_policy m) (node_value h) (remove1 e xs) ?s"
    have ne: "cm_next_except e (h, m) = Some (h, ?pick)"
      using cm_next_except_spec [OF inv less.prems(2)] erase_spec_plain [OF np] by simp
    have nev: "cm_next_except e (?hv, m) = Some (?hv, ?pick)"
      using cm_next_except_value_upd [OF less.prems(3), where e = e and h = h and f = ?f] ne by simp
    have "?pick \<in> insert ?s (set (remove1 e xs))" by (rule erase_pick_in)
    then obtain v where v: "(if nx = ?s then cm_next_except e (h, m) else Some (h, nx)) = Some (h, v)"
      and vv: "(if nx = ?s then cm_next_except e (?hv, m) else Some (?hv, nx)) = Some (?hv, v)"
      and vin: "v \<in> insert ?s (set xs - {e})"
      using ne nev less.prems(4) set_remove1_distinct [OF d, of e] by (cases "nx = ?s") auto
    show ?thesis
    proof (cases "v = ?s")
      case True
      have "\<forall>q \<in> set (rev removed). ?f q = node_value h q" using erem nv by auto
      then have "fold cm_reinsert (rev removed) (?hv, m) =
          map_prod (\<lambda>h'. h'\<lparr>node_value := ?f\<rparr>) id (fold cm_reinsert (rev removed) (h, m))"
        by (rule fold_reinsert_value_upd)
      moreover have "free_loop_except e weight freed removed nx (h, m) =
          Some (False, fold cm_reinsert (rev removed) (h, m), removed)"
        using \<open>freed < weight\<close> True v by (subst free_loop_except.simps) (cases "nx = ?s"; simp)
      moreover have "free_loop_except e weight freed removed nx (?hv, m) =
          Some (False, fold cm_reinsert (rev removed) (?hv, m), removed)"
        using \<open>freed < weight\<close> True vv by (subst free_loop_except.simps) (cases "nx = ?s"; simp)
      ultimately show ?thesis by simp
    next
      case False
      then obtain as bs where xs: "xs = as @ v # bs" and ve: "v \<noteq> e"
        using vin by (blast dest: split_list)
      obtain h' m' nx' where er: "cm_erase v (h, m) = ((h', m'), nx')" by (metis prod.exhaust)
      have erv: "cm_erase v (?hv, m) = ((h'\<lparr>node_value := ?f\<rparr>, m'), nx')"
        using cm_erase_value_upd [of ?f v h m] er ve nv by simp
      have step: "free_inv h0 m0 xs0 (removed @ [v]) (freed + calculate_weight h m v) h' m' (as @ bs)"
        and nx': "nx' = hd (bs @ [?s])" and s': "cm_first m' = ?s"
        using free_inv_erase [OF fi [unfolded xs] er] by simp_all
      have inv': "cm_inv h' m' (as @ bs)" using step unfolding free_inv_def by blast
      have e': "e \<in> set (as @ bs)" using less.prems(2) xs ve by auto
      have pol': "cm_policy m' = Plain b"
        using less.prems(3) er by (auto simp: cm_erase_def cm_erase_node_def Let_def)
      let ?w = "erase_pick (cm_policy m') (node_value h') (remove1 e bs) ?s"
      have w: "cm_next_except_hint nx' e (h', m') = Some (h', ?w)"
        using cm_next_except_hint_spec [OF inv' e'] pol' nx' s' by (simp add: erase_spec_def)
      have wv: "cm_next_except_hint nx' e (h'\<lparr>node_value := ?f\<rparr>, m') = Some (h'\<lparr>node_value := ?f\<rparr>, ?w)"
        using cm_next_except_hint_value_upd [OF pol', where hint = nx' and e = e and h = h' and f = ?f] w by simp
      have "?w \<in> insert ?s (set (remove1 e bs))" by (rule erase_pick_in)
      moreover have "distinct (as @ bs)" using d xs by simp
      ultimately have win: "?w \<in> insert (cm_first m') (set (as @ bs) - {e})"
        using set_remove1_distinct [of bs e] s' by auto
      have cw: "calculate_weight ?hv m v = calculate_weight h m v"
        using ve nv by (simp add: calculate_weight_def)
      have "length (as @ bs) < length xs" using xs by simp
      note ih = less.hyps [OF this step e' pol' win]
      have "free_loop_except e weight freed removed nx (h, m) =
          free_loop_except e weight (freed + calculate_weight h m v) (removed @ [v]) ?w (h', m')"
        using \<open>freed < weight\<close> v False er w
        by (subst free_loop_except.simps) (cases "nx = ?s"; simp add: Let_def)
      moreover have "free_loop_except e weight freed removed nx (?hv, m) =
          free_loop_except e weight (freed + calculate_weight h m v) (removed @ [v]) ?w
            (h'\<lparr>node_value := ?f\<rparr>, m')"
        using \<open>freed < weight\<close> vv False erv wv cw
        by (subst free_loop_except.simps) (cases "nx = ?s"; simp add: Let_def)
      ultimately show ?thesis using ih by simp
    qed
  qed
qed

lemma provideSpace_except_value_upd:
  assumes inv: "cm_inv (um_heap U) (um_cm U) xs" and e: "e \<in> set xs"
    and pol: "cm_policy (um_cm U) = Plain b"
  shows "provideSpace_except w e (U\<lparr>um_heap := (um_heap U)\<lparr>node_value := (node_value (um_heap U))(e := x)\<rparr>\<rparr>) =
    map_option (\<lambda>(ok, U'). (ok, U'\<lparr>um_heap := (um_heap U')\<lparr>node_value := (node_value (um_heap U))(e := x)\<rparr>\<rparr>))
      (provideSpace_except w e U)"
proof -
  let ?h = "um_heap U" and ?m = "um_cm U" and ?f = "(node_value (um_heap U))(e := x)"
  let ?U1 = "U\<lparr>um_heap := ?h\<lparr>node_value := ?f\<rparr>\<rparr>"
  let ?upd = "map_prod id (map_prod (map_prod (\<lambda>h'. h'\<lparr>node_value := ?f\<rparr>) id) id)"
  have np: "\<not> is_priority (cm_policy ?m)" using pol by simp
  have "free_space_except_cm e need (?h\<lparr>node_value := ?f\<rparr>, ?m) =
      map_option ?upd (free_space_except_cm e need (?h, ?m))" for need
  proof (cases "cm_weight ?m < need")
    case True
    then show ?thesis by (simp add: free_space_except_cm_def)
  next
    case False
    let ?v = "erase_pick (cm_policy ?m) (node_value ?h) (remove1 e xs) (cm_first ?m)"
    have ne: "cm_next_except e (?h, ?m) = Some (?h, ?v)"
      using cm_next_except_spec [OF inv e] erase_spec_plain [OF np] by simp
    have nev: "cm_next_except e (?h\<lparr>node_value := ?f\<rparr>, ?m) = Some (?h\<lparr>node_value := ?f\<rparr>, ?v)"
      using cm_next_except_value_upd [OF pol, where e = e and h = ?h and f = ?f] ne by simp
    have d: "distinct xs" using dl_ring_distinct [OF cm_inv_ring [OF inv]] by simp
    have "?v \<in> insert (cm_first ?m) (set (remove1 e xs))" by (rule erase_pick_in)
    then have "?v \<in> insert (cm_first ?m) (set xs - {e})" using set_remove1_distinct [OF d] by simp
    note loop = free_loop_except_value_upd [OF free_inv_init [OF inv] e pol this, where weight = need and x = x]
    show ?thesis using False ne nev loop by (simp add: free_space_except_cm_def)
  qed
  moreover have "commit_free ?U1 (?upd r) =
      (\<lambda>(ok, U'). (ok, U'\<lparr>um_heap := (um_heap U')\<lparr>node_value := ?f\<rparr>\<rparr>)) (commit_free U r)"
    if "e \<notin> set (snd (snd r))" and "node_value (fst (fst (snd r))) = node_value ?h" for r
  proof -
    obtain ok h' m' rem where r: "r = (ok, (h', m'), rem)" by (metis prod.exhaust)
    have "drop_keys (h'\<lparr>node_value := ?f\<rparr>) rem = drop_keys h' rem"
      using that r by (intro drop_keys_cong) (auto simp: key_of_def)
    then show ?thesis using r by (simp add: commit_free_def)
  qed
  moreover obtain r where "free_space_except_cm e (w - (cm_capacity ?m - cm_weight ?m)) (?h, ?m) = Some r"
    and "e \<notin> set (snd (snd r))" and "free_ok (w - (cm_capacity ?m - cm_weight ?m)) ?h ?m xs r"
    using free_space_except_cm_ok [OF inv e np] by blast
  moreover have "node_value (fst (fst (snd r))) = node_value ?h"
    using \<open>free_ok _ ?h ?m xs r\<close> by (cases "fst r") (auto simp: free_ok_def)
  ultimately show ?thesis by (simp add: provideSpace_except_def freeSpace_except_def Let_def)
qed

section \<open>Assignment\<close>

text \<open>
  The end of \<open>assign\<close> after room was made: the node, holding its new value, returns
  to the index and \<open>update_weight\<close> brings the counter and its cached weight in line.
\<close>

lemma assign_finish_ok:
  assumes inv: "um_inv U xs" and p: "p \<in> set xs"
    and ev: "evicted (U\<lparr>um_index := (um_index U)(key_of (um_heap U) p := None)\<rparr>) xs rem U3"
    and pr: "p \<notin> set rem"
    and fit: "unat (cm_weight (um_cm U3)) + unat (cm_weigher (um_cm U) (key_of (um_heap U) p, v))
                \<le> unat (cm_capacity (um_cm U)) + unat (calculate_weight (um_heap U) (um_cm U) p)"
  shows "um_inv (lift_cm (cm_update_weight p (calculate_weight (um_heap U) (um_cm U) p)
                   (cm_weigher (um_cm U) (key_of (um_heap U) p, v)))
            ((U3\<lparr>um_heap := (um_heap U3)\<lparr>node_value := (node_value (um_heap U))(p := (key_of (um_heap U) p, v))\<rparr>\<rparr>)
               \<lparr>um_index := (um_index U3)(key_of (um_heap U) p \<mapsto> p)\<rparr>))
          (filter (\<lambda>q. q \<notin> set rem) xs)"
proof -
  let ?h = "um_heap U" and ?m = "um_cm U" and ?k = "key_of (um_heap U) p"
  let ?ow = "calculate_weight ?h ?m p" and ?nw = "cm_weigher ?m (?k, v)"
  let ?ys = "filter (\<lambda>q. q \<notin> set rem) xs"
  let ?h3 = "um_heap U3" and ?m3 = "um_cm U3"
  have d: "distinct (map (key_of ?h) xs)" and idx: "um_index U = idx_of ?h xs"
    and cinv: "cm_inv ?h ?m xs"
    using inv by (simp_all add: um_inv_def)
  have ev': "set rem \<subseteq> set xs" "cm_inv ?h3 ?m3 ?ys"
    "um_index U3 = drop_keys ?h rem ((um_index U)(?k := None))"
    "node_value ?h3 = node_value ?h" "cm_config ?m3 = cm_config ?m"
    using ev by (simp_all add: evicted_def)
  have cfg: "cm_capacity ?m3 = cm_capacity ?m" "cm_weigher ?m3 = cm_weigher ?m"
    "cm_first ?m3 = cm_first ?m" "cm_policy ?m3 = cm_policy ?m"
    using ev'(5) by (simp_all add: cm_config_def)
  have pys: "p \<in> set ?ys" using p pr by simp
  have ow: "?ow = node_weight ?h3 p"
    using cm_inv_weights [OF ev'(2) pys] ev'(4) cfg by (simp add: calculate_weight_def)
  have "(node_value ?h)(p := (?k, v)) = (node_value ?h3)(p := (?k, v))" using ev'(4) by simp
  then have step: "cm_inv (fst (cm_update_weight p ?ow ?nw (?h3\<lparr>node_value := (node_value ?h)(p := (?k, v))\<rparr>, ?m3)))
      (snd (cm_update_weight p ?ow ?nw (?h3\<lparr>node_value := (node_value ?h)(p := (?k, v))\<rparr>, ?m3))) ?ys"
    using cm_update_weight_step [OF ev'(2) pys ow, of ?nw "(?k, v)"] fit cfg by simp
  let ?hb = "fst (cm_update_weight p ?ow ?nw (?h3\<lparr>node_value := (node_value ?h)(p := (?k, v))\<rparr>, ?m3))"
  have kb: "key_of ?hb = key_of ?h"
    by (auto simp: cm_update_weight_def key_of_def)
  have dys: "distinct (map (key_of ?h) ?ys)" using d by (simp add: distinct_map_filter)
  have kp: "idx_of ?h ?ys ?k = Some p" using idx_of_Some [OF dys] pys by simp
  have "?k \<notin> key_of ?h ` set rem"
    using d p pr ev'(1) by (auto simp: inj_on_eq_iff [OF distinct_map [THEN iffD1, OF d, THEN conjunct2]])
  then have "(um_index U3)(?k \<mapsto> p) = (drop_keys ?h rem (idx_of ?h xs))(?k \<mapsto> p)"
    using ev'(3) idx by (auto simp: drop_keys_apply intro!: ext)
  also have "\<dots> = idx_of ?h ?ys" using idx_of_filter [OF d ev'(1)] kp by auto
  finally have "(um_index U3)(?k \<mapsto> p) = idx_of ?hb ?ys" using kb by (simp add: idx_of_def)
  then show ?thesis
    using step kb dys by (simp add: um_inv_def lift_cm_def Let_def)
qed

text \<open>
  C8. \<open>assign(position, obj)\<close> of a listed entry under a policy without an erase
  hook returns. When the new value is no heavier, or room can be made for the
  difference, the entry holds the new value under its key, the evicted entries are
  others (the entry assigned is never evicted), and the facade's invariant holds of the
  survivors in their old order, reordered by the access hook. Otherwise it throws
  \<open>no_space_error\<close> and the map is exactly as before, the old value back in place.
\<close>

theorem um_assign_plain_correct:
  assumes inv: "um_inv U xs" and p: "p \<in> set xs" and pol: "cm_policy (um_cm U) = Plain b"
  shows "\<exists>U' r. um_assign p v U = Some (U', r) \<and>
    (case r of
       Inl e \<Rightarrow> e = NoSpace \<and> U' = U
     | Inr q \<Rightarrow> q = p \<and> node_value (um_heap U') p = (key_of (um_heap U) p, v) \<and>
         (\<exists>rem. p \<notin> set rem \<and> set rem \<subseteq> set xs \<and>
            um_inv U' (access_list (Plain b) p (filter (\<lambda>q. q \<notin> set rem) xs))))"
proof -
  let ?h = "um_heap U" and ?m = "um_cm U" and ?k = "key_of (um_heap U) p"
  let ?ow = "calculate_weight ?h ?m p" and ?nw = "cm_weigher ?m (?k, v)"
  let ?f = "(node_value ?h)(p := (?k, v))"
  let ?U0 = "U\<lparr>um_index := (um_index U)(?k := None)\<rparr>"
  let ?upd = "\<lambda>U'. U'\<lparr>um_heap := (um_heap U')\<lparr>node_value := ?f\<rparr>\<rparr>"
  let ?fin = "\<lambda>U2. lift_cm (cm_access p) (lift_cm (cm_update_weight p ?ow ?nw)
                (U2\<lparr>um_index := (um_index U2)(?k \<mapsto> p)\<rparr>))"
  have cinv: "cm_inv ?h ?m xs" using inv by (rule um_inv_cm)
  have cinv0: "cm_inv (um_heap ?U0) (um_cm ?U0) xs" using cinv by simp
  have np: "\<not> is_priority (cm_policy (um_cm ?U0))" using pol by simp
  have idxk: "um_index U ?k = Some p"
    using inv p idx_of_Some [of ?h xs ?k p] by (simp add: um_inv_def)
  have nvp: "(?k, snd (node_value ?h p)) = node_value ?h p" by (simp add: key_of_def)
  have nw: "calculate_weight (?h\<lparr>node_value := ?f\<rparr>) ?m p = ?nw" by (simp add: calculate_weight_def)
  have fin_ok: "\<exists>U' r. um_assign p v U = Some (U', r) \<and>
      (case r of Inl e \<Rightarrow> e = NoSpace \<and> U' = U
       | Inr q \<Rightarrow> q = p \<and> node_value (um_heap U') p = (?k, v) \<and>
           (\<exists>rem. p \<notin> set rem \<and> set rem \<subseteq> set xs \<and>
              um_inv U' (access_list (Plain b) p (filter (\<lambda>q. q \<notin> set rem) xs))))"
    if ass: "um_assign p v U = Some (?fin (?upd U3), Inr p)" and ev: "evicted ?U0 xs rem U3"
      and pr: "p \<notin> set rem"
      and fit: "unat (cm_weight (um_cm U3)) + unat ?nw \<le> unat (cm_capacity ?m) + unat ?ow" for U3 rem
  proof -
    let ?ys = "filter (\<lambda>q. q \<notin> set rem) xs"
    have ub: "um_inv (lift_cm (cm_update_weight p ?ow ?nw) ((?upd U3)\<lparr>um_index := (um_index U3)(?k \<mapsto> p)\<rparr>)) ?ys"
      using assign_finish_ok [OF inv p _ pr, of U3 v] ev fit by simp
    have pys: "p \<in> set ?ys" using p pr by simp
    note acc = um_access_step [OF ub pys]
    have "cm_config (um_cm U3) = cm_config ?m" "set rem \<subseteq> set xs"
      using ev by (simp_all add: evicted_def)
    then have "cm_policy (um_cm U3) = Plain b" using pol by (simp add: cm_config_def)
    then show ?thesis using ass acc pr \<open>set rem \<subseteq> set xs\<close>
      by (auto simp: lift_cm_def Let_def cm_update_weight_def)
  qed
  show ?thesis
  proof (cases "?ow < ?nw")
    case False
    have ass: "um_assign p v U = Some (?fin (?upd ?U0), Inr p)"
      using False nw by (simp add: um_assign_def Let_def)
    have fit: "unat (cm_weight (um_cm ?U0)) + unat ?nw \<le> unat (cm_capacity ?m) + unat ?ow"
      using False cinv by (simp add: cm_inv_def word_le_nat_alt not_less add_mono)
    show ?thesis by (rule fin_ok [OF ass evicted_none [OF cinv0] _ fit]) simp
  next
    case True
    obtain r where r: "provideSpace_except (?nw - ?ow) p ?U0 = Some r"
      and ok: "if fst r then \<exists>rem. evicted ?U0 xs rem (snd r) \<and> p \<notin> set rem \<and>
                 unat (cm_weight (um_cm (snd r))) + unat (?nw - ?ow) \<le> unat (cm_capacity (um_cm ?U0))
               else snd r = ?U0"
      using provideSpace_except_ok [OF cinv0 p np] by blast
    have r1: "provideSpace_except (?nw - ?ow) p (?upd ?U0) = Some (fst r, ?upd (snd r))"
      using provideSpace_except_value_upd [OF cinv0 p, of b "?nw - ?ow" "(?k, v)"] pol r
      by (cases r) simp
    show ?thesis
    proof (cases "fst r")
      case True
      then obtain rem where ev: "evicted ?U0 xs rem (snd r)" and pr: "p \<notin> set rem"
        and le: "unat (cm_weight (um_cm (snd r))) + unat (?nw - ?ow) \<le> unat (cm_capacity ?m)"
        using ok by auto
      have "unat (?nw - ?ow) = unat ?nw - unat ?ow"
        using \<open>?ow < ?nw\<close> by (simp add: unat_sub less_imp_le)
      then have fit: "unat (cm_weight (um_cm (snd r))) + unat ?nw \<le> unat (cm_capacity ?m) + unat ?ow"
        using le \<open>?ow < ?nw\<close> by (simp add: word_less_nat_alt)
      have ass: "um_assign p v U = Some (?fin (?upd (snd r)), Inr p)"
        using \<open>?ow < ?nw\<close> nw r1 True by (simp add: um_assign_def Let_def)
      show ?thesis by (rule fin_ok [OF ass ev pr fit])
    next
      case False
      then have "snd r = ?U0" using ok by simp
      moreover have "(um_index U)(?k \<mapsto> p) = um_index U" using idxk by (rule fun_upd_idem)
      ultimately have "um_assign p v U = Some (U, Inl NoSpace)"
        using \<open>?ow < ?nw\<close> nw r1 False nvp by (simp add: um_assign_def Let_def)
      then show ?thesis by simp
    qed
  qed
qed

end
