(* ===== verification/Limited_Range.thy ===== *)
theory Limited_Range
  imports Limited_Assign
begin

text \<open>
  \<open>insert(first, last)\<close> of \<open>limited::unordered_map\<close>, the design's atomic two-phase
  range insert: the first phase (\<open>range_index\<close>) puts the new keys in the index and sums
  their weights, the second makes room for the sum and threads the new nodes into the
  list. When the sum does not overflow \<open>size_t\<close>, the call either inserts every new
  key, keeping the facade's invariant, or throws \<open>no_space_error\<close> leaving the index,
  the list and the manager as they were.
\<close>

section \<open>First phase\<close>

lemma idx_of_snoc:
  "key_of h p \<notin> key_of h ` set ys \<Longrightarrow> idx_of h (ys @ [p]) = (idx_of h ys)(key_of h p \<mapsto> p)"
  using idx_of_insert_list [of h p ys "Plain Fifo"] by (simp add: insert_list_def)

lemma range_index_values:
  assumes "range_index items U ins w = (U1, ins1, w1)" and "distinct (map fst items)"
  shows "(\<forall>q. q \<notin> fst ` set items \<longrightarrow> node_value (um_heap U1) q = node_value (um_heap U) q) \<and>
    (\<forall>q \<in> set ins1 - set ins. (q, node_value (um_heap U1) q) \<in> set items)"
  using assms
proof (induction items arbitrary: U ins w)
  case Nil
  then show ?case by simp
next
  case (Cons it items)
  obtain p kv where it: "it = (p, kv)" by (metis prod.exhaust)
  have dp: "p \<notin> fst ` set items" and di: "distinct (map fst items)" using Cons.prems(2) it by auto
  show ?case
  proof (cases "um_index U (fst kv)")
    case (Some q)
    then have "range_index items U ins w = (U1, ins1, w1)" using Cons.prems(1) it by simp
    then show ?thesis using Cons.IH [OF _ di] it by auto
  next
    case None
    let ?U' = "index_insert p kv U"
    let ?w' = "w + calculate_weight (um_heap ?U') (um_cm ?U') p"
    have v': "node_value (um_heap ?U') = (node_value (um_heap U))(p := kv)"
      by (simp add: index_insert_def)
    show ?thesis
    proof (cases "cm_capacity (um_cm ?U') < ?w'")
      case True
      then have "U1 = ?U' \<and> ins1 = ins @ [p]" using Cons.prems(1) it None by (simp add: Let_def)
      then show ?thesis using v' it by auto
    next
      case False
      then have r: "range_index items ?U' (ins @ [p]) ?w' = (U1, ins1, w1)"
        using Cons.prems(1) it None by (simp add: Let_def)
      note ih = Cons.IH [OF r di]
      have "node_value (um_heap U1) p = kv" using ih dp v' by simp
      then show ?thesis using ih v' it by auto
    qed
  qed
qed

lemma range_index_ok:
  assumes "cm_inv (um_heap U) (um_cm U) xs"
    and "distinct (map (key_of (um_heap U)) (xs @ ins))"
    and "um_index U = idx_of (um_heap U) (xs @ ins)"
    and "distinct (map fst items @ ins @ cm_first (um_cm U) # xs)"
    and "unat w = unat_sum (calculate_weight (um_heap U) (um_cm U)) ins"
    and "unat w + unat_sum (cm_weigher (um_cm U) \<circ> snd) items < 2 ^ 64"
  shows "case range_index items U ins w of (U1, ins1, w1) \<Rightarrow>
     \<exists>new V. ins1 = ins @ new \<and> set new \<subseteq> fst ` set items \<and>
       um_heap U1 = (um_heap U)\<lparr>node_value := V\<rparr> \<and> (\<forall>q. q \<notin> set new \<longrightarrow> V q = node_value (um_heap U) q) \<and>
       um_cm U1 = um_cm U \<and> cm_inv (um_heap U1) (um_cm U1) xs \<and>
       distinct (map (key_of (um_heap U1)) (xs @ ins1)) \<and> um_index U1 = idx_of (um_heap U1) (xs @ ins1) \<and>
       unat w1 = unat_sum (calculate_weight (um_heap U1) (um_cm U1)) ins1 \<and>
       (cm_capacity (um_cm U) < w1 \<or>
        (\<forall>it \<in> set items. fst (snd it) \<in> key_of (um_heap U1) ` set (xs @ ins1)))"
  using assms
proof (induction items arbitrary: U ins w)
  case Nil
  then show ?case by (auto intro!: exI [of _ "node_value (um_heap U)"])
next
  case (Cons it items)
  obtain p kv where it: "it = (p, kv)" by (metis prod.exhaust)
  let ?h = "um_heap U" and ?m = "um_cm U"
  show ?case
  proof (cases "um_index U (fst kv)")
    case (Some q)
    have kin: "fst kv \<in> key_of ?h ` set (xs @ ins)"
      using Some Cons.prems(3) by (metis idx_of_None option.distinct(1))
    have f2: "unat w + unat_sum (cm_weigher ?m \<circ> snd) items < 2 ^ 64"
      using Cons.prems(6) by (simp add: comp_def)
    have f1: "distinct (map fst items @ ins @ cm_first ?m # xs)" using Cons.prems(4) by auto
    have ih: "case range_index items U ins w of (U1, ins1, w1) \<Rightarrow>
     \<exists>new V. ins1 = ins @ new \<and> set new \<subseteq> fst ` set items \<and>
       um_heap U1 = ?h\<lparr>node_value := V\<rparr> \<and> (\<forall>q. q \<notin> set new \<longrightarrow> V q = node_value ?h q) \<and>
       um_cm U1 = ?m \<and> cm_inv (um_heap U1) (um_cm U1) xs \<and>
       distinct (map (key_of (um_heap U1)) (xs @ ins1)) \<and> um_index U1 = idx_of (um_heap U1) (xs @ ins1) \<and>
       unat w1 = unat_sum (calculate_weight (um_heap U1) (um_cm U1)) ins1 \<and>
       (cm_capacity ?m < w1 \<or> (\<forall>it \<in> set items. fst (snd it) \<in> key_of (um_heap U1) ` set (xs @ ins1)))"
      by (rule Cons.IH [OF Cons.prems(1-3) f1 Cons.prems(5) f2])
    obtain U1 ins1 w1 where r: "range_index items U ins w = (U1, ins1, w1)" by (metis prod.exhaust)
    have "\<exists>new V. ins1 = ins @ new \<and> set new \<subseteq> fst ` set items \<and>
       um_heap U1 = ?h\<lparr>node_value := V\<rparr> \<and> (\<forall>q. q \<notin> set new \<longrightarrow> V q = node_value ?h q) \<and>
       (um_cm U1 = ?m \<and> cm_inv (um_heap U1) (um_cm U1) xs \<and>
       distinct (map (key_of (um_heap U1)) (xs @ ins1)) \<and> um_index U1 = idx_of (um_heap U1) (xs @ ins1) \<and>
       unat w1 = unat_sum (calculate_weight (um_heap U1) (um_cm U1)) ins1 \<and>
       (cm_capacity ?m < w1 \<or> (\<forall>it \<in> set items. fst (snd it) \<in> key_of (um_heap U1) ` set (xs @ ins1))))"
      using ih r by simp
    then obtain new V where nw: "ins1 = ins @ new" "set new \<subseteq> fst ` set items"
      and hv: "um_heap U1 = ?h\<lparr>node_value := V\<rparr>" "\<forall>q. q \<notin> set new \<longrightarrow> V q = node_value ?h q"
      and rest: "um_cm U1 = ?m \<and> cm_inv (um_heap U1) (um_cm U1) xs \<and>
       distinct (map (key_of (um_heap U1)) (xs @ ins1)) \<and> um_index U1 = idx_of (um_heap U1) (xs @ ins1) \<and>
       unat w1 = unat_sum (calculate_weight (um_heap U1) (um_cm U1)) ins1 \<and>
       (cm_capacity ?m < w1 \<or> (\<forall>it \<in> set items. fst (snd it) \<in> key_of (um_heap U1) ` set (xs @ ins1)))"
      by blast
    have "set new \<inter> set (xs @ ins) = {}" using nw(2) Cons.prems(4) by auto
    then have "\<forall>q \<in> set (xs @ ins). key_of (um_heap U1) q = key_of ?h q"
      using hv by (auto simp: key_of_def)
    then have "fst kv \<in> key_of (um_heap U1) ` set (xs @ ins1)"
      using kin nw(1) by force
    moreover have D: "cm_capacity ?m < w1 \<or> (\<forall>it \<in> set items. fst (snd it) \<in> key_of (um_heap U1) ` set (xs @ ins1))"
      using rest by blast
    ultimately have last: "cm_capacity ?m < w1 \<or>
        (\<forall>it' \<in> set (it # items). fst (snd it') \<in> key_of (um_heap U1) ` set (xs @ ins1))"
      using it by auto
    have sub: "set new \<subseteq> fst ` set (it # items)" using nw(2) by auto
    have eq: "range_index (it # items) U ins w = (U1, ins1, w1)" using r Some it by simp
    show ?thesis
      unfolding eq prod.case
      apply (rule exI [of _ new], rule exI [of _ V])
      using nw(1) sub hv rest last by blast
  next
    case None
    let ?U' = "index_insert p kv U" and ?w' = "w + cm_weigher ?m kv"
    let ?h' = "um_heap ?U'"
    have fr: "p \<notin> set (xs @ ins)" "p \<noteq> cm_first ?m" using Cons.prems(4) it by auto
    have kn: "fst kv \<notin> key_of ?h ` set (xs @ ins)"
      using None Cons.prems(3) by (simp add: idx_of_None)
    have keq: "\<forall>q \<in> set (xs @ ins). key_of ?h' q = key_of ?h q"
      using fr by (auto simp: index_insert_def key_of_def)
    have inv': "cm_inv ?h' (um_cm ?U') xs"
      using Cons.prems(1) fr by (simp add: index_insert_def cm_inv_value_upd)
    have kp: "key_of ?h' p = fst kv" by (simp add: index_insert_def key_of_def)
    have me: "map (key_of ?h') (xs @ ins) = map (key_of ?h) (xs @ ins)"
      using keq by (intro map_cong) auto
    have "map (key_of ?h') (xs @ ins @ [p]) = map (key_of ?h) (xs @ ins) @ [fst kv]"
      using me kp by simp
    then have d': "distinct (map (key_of ?h') (xs @ ins @ [p]))"
      using Cons.prems(2) kn by (simp only: distinct_append set_map) simp
    have "key_of ?h' p \<notin> key_of ?h' ` set (xs @ ins)" using kn kp keq by (metis image_cong)
    then have "idx_of ?h' (xs @ ins @ [p]) = (idx_of ?h' (xs @ ins))(fst kv \<mapsto> p)"
      using idx_of_snoc [of ?h' p "xs @ ins"] kp by simp
    moreover have "idx_of ?h' (xs @ ins) = idx_of ?h (xs @ ins)"
      using keq by (intro idx_of_cong) auto
    ultimately have idx': "um_index ?U' = idx_of ?h' (xs @ ins @ [p])"
      using Cons.prems(3) by (simp add: index_insert_def)
    have w': "unat ?w' = unat w + unat (cm_weigher ?m kv)"
      using Cons.prems(6) it by (intro unat_add_no_wrap) (simp add: comp_def)
    have "unat_sum (calculate_weight ?h' (um_cm ?U')) ins = unat_sum (calculate_weight ?h ?m) ins"
      using fr by (intro unat_sum_cong) (auto simp: index_insert_def calculate_weight_def)
    moreover have "calculate_weight ?h' (um_cm ?U') p = cm_weigher ?m kv"
      by (simp add: index_insert_def calculate_weight_def)
    ultimately have wsum: "unat ?w' = unat_sum (calculate_weight ?h' (um_cm ?U')) (ins @ [p])"
      using w' Cons.prems(5) by simp
    have nowrap': "unat ?w' + unat_sum (cm_weigher (um_cm ?U') \<circ> snd) items < 2 ^ 64"
      using w' Cons.prems(6) it by (simp add: index_insert_def comp_def)
    have fresh': "distinct (map fst items @ (ins @ [p]) @ cm_first (um_cm ?U') # xs)"
      using Cons.prems(4) it by (auto simp: index_insert_def)
    have m': "um_cm ?U' = ?m" by (simp add: index_insert_def)
    have step: "range_index (it # items) U ins w =
        (if cm_capacity ?m < ?w' then (?U', ins @ [p], ?w') else range_index items ?U' (ins @ [p]) ?w')"
      using None it by (simp add: Let_def index_insert_def calculate_weight_def)
    show ?thesis
    proof (cases "cm_capacity ?m < ?w'")
      case True
      then show ?thesis using step inv' d' idx' wsum it
        by (auto simp: index_insert_def intro!: exI [of _ "[p]"])
    next
      case False
      obtain U1 ins1 w1 where r: "range_index items ?U' (ins @ [p]) ?w' = (U1, ins1, w1)"
        by (metis prod.exhaust)
      have "\<exists>new V. ins1 = (ins @ [p]) @ new \<and> set new \<subseteq> fst ` set items \<and>
          um_heap U1 = ?h'\<lparr>node_value := V\<rparr> \<and> (\<forall>q. q \<notin> set new \<longrightarrow> V q = node_value ?h' q) \<and>
          (um_cm U1 = ?m \<and> cm_inv (um_heap U1) (um_cm U1) xs \<and>
          distinct (map (key_of (um_heap U1)) (xs @ ins1)) \<and> um_index U1 = idx_of (um_heap U1) (xs @ ins1) \<and>
          unat w1 = unat_sum (calculate_weight (um_heap U1) (um_cm U1)) ins1 \<and>
          (cm_capacity ?m < w1 \<or> (\<forall>it \<in> set items. fst (snd it) \<in> key_of (um_heap U1) ` set (xs @ ins1))))"
        using Cons.IH [OF inv' d' idx' fresh' wsum nowrap'] r m' by simp
      then obtain new V where nw: "ins1 = (ins @ [p]) @ new" "set new \<subseteq> fst ` set items"
        and hv: "um_heap U1 = ?h'\<lparr>node_value := V\<rparr>" "\<forall>q. q \<notin> set new \<longrightarrow> V q = node_value ?h' q"
        and rest: "um_cm U1 = ?m \<and> cm_inv (um_heap U1) (um_cm U1) xs \<and>
          distinct (map (key_of (um_heap U1)) (xs @ ins1)) \<and> um_index U1 = idx_of (um_heap U1) (xs @ ins1) \<and>
          unat w1 = unat_sum (calculate_weight (um_heap U1) (um_cm U1)) ins1 \<and>
          (cm_capacity ?m < w1 \<or> (\<forall>it \<in> set items. fst (snd it) \<in> key_of (um_heap U1) ` set (xs @ ins1)))"
        by blast
      have pn: "p \<notin> set new" using nw(2) Cons.prems(4) it by auto
      have "key_of (um_heap U1) p = fst kv" using hv pn by (simp add: index_insert_def key_of_def)
      then have "fst kv \<in> key_of (um_heap U1) ` set (xs @ ins1)" using nw(1) by auto
      moreover have D: "cm_capacity ?m < w1 \<or> (\<forall>it \<in> set items. fst (snd it) \<in> key_of (um_heap U1) ` set (xs @ ins1))"
        using rest by blast
      ultimately have last: "cm_capacity ?m < w1 \<or>
          (\<forall>it' \<in> set (it # items). fst (snd it') \<in> key_of (um_heap U1) ` set (xs @ ins1))"
        using it by auto
      have vq: "\<forall>q. q \<notin> set (p # new) \<longrightarrow> V q = node_value ?h q"
        using hv(2) by (auto simp: index_insert_def)
      have sub: "set (p # new) \<subseteq> fst ` set (it # items)" using nw(2) it by auto
      have hv': "um_heap U1 = ?h\<lparr>node_value := V\<rparr>" using hv(1) by (simp add: index_insert_def)
      have eq: "range_index (it # items) U ins w = (U1, ins1, w1)" using step False r by simp
      show ?thesis
        unfolding eq prod.case
        apply (rule exI [of _ "p # new"], rule exI [of _ V])
        using sub hv' vq rest last nw(1) [simplified] by blast
    qed
  qed
qed

section \<open>Second phase\<close>

lemma mset_insert_list: "mset (insert_list pol p ys) = mset (p # ys)"
  by (simp add: insert_list_def)

lemma set_fold_insert_list: "set (fold (insert_list pol) ps ys) = set ys \<union> set ps"
  by (induction ps arbitrary: ys) (auto simp: insert_list_def)

text \<open>
  Threading the pending nodes into the list one \<open>_manager.insert\<close> at a time, when
  their total weight fits: the facade's invariant over the list with each node at its
  policy's insert position.
\<close>

lemma thread_ok:
  assumes "cm_inv (um_heap U) (um_cm U) ys"
    and "distinct (map (key_of (um_heap U)) (ys @ ins))"
    and "um_index U = idx_of (um_heap U) (ys @ ins)"
    and "distinct (ins @ cm_first (um_cm U) # ys)"
    and "unat (cm_weight (um_cm U)) + unat_sum (calculate_weight (um_heap U) (um_cm U)) ins
           \<le> unat (cm_capacity (um_cm U))"
  shows "um_inv (fold (\<lambda>p. lift_cm (cm_insert p)) ins U) (fold (insert_list (cm_policy (um_cm U))) ins ys) \<and>
    node_value (um_heap (fold (\<lambda>p. lift_cm (cm_insert p)) ins U)) = node_value (um_heap U) \<and>
    cm_config (um_cm (fold (\<lambda>p. lift_cm (cm_insert p)) ins U)) = cm_config (um_cm U)"
  using assms
proof (induction ins arbitrary: U ys)
  case Nil
  then show ?case by (simp add: um_inv_def)
next
  case (Cons p ins)
  let ?h = "um_heap U" and ?m = "um_cm U" and ?U' = "lift_cm (cm_insert p) U"
  let ?ys' = "insert_list (cm_policy ?m) p ys"
  have fresh: "p \<notin> set (cm_first ?m # ys)" using Cons.prems(4) by auto
  have fit: "unat (cm_weight ?m) + unat (cm_weigher ?m (node_value ?h p)) \<le> unat (cm_capacity ?m)"
    using Cons.prems(5) by (simp add: calculate_weight_def)
  note step = cm_insert_step [OF Cons.prems(1) fresh fit]
  have h': "um_heap ?U' = fst (cm_insert p (?h, ?m))" "um_cm ?U' = snd (cm_insert p (?h, ?m))"
    "um_index ?U' = um_index U"
    by (simp_all add: lift_cm_def Let_def)
  have cfg: "cm_capacity (um_cm ?U') = cm_capacity ?m" "cm_weigher (um_cm ?U') = cm_weigher ?m"
    "cm_first (um_cm ?U') = cm_first ?m" "cm_policy (um_cm ?U') = cm_policy ?m"
    using step h' by (simp_all add: cm_config_def)
  have nv: "node_value (um_heap ?U') = node_value ?h" using step h' by simp
  then have kv: "key_of (um_heap ?U') = key_of ?h" by (simp add: key_of_def [abs_def])
  have cw: "calculate_weight (um_heap ?U') (um_cm ?U') = calculate_weight ?h ?m"
    using nv cfg by (simp add: calculate_weight_def [abs_def])
  have inv': "cm_inv (um_heap ?U') (um_cm ?U') ?ys'" using step h' by simp
  have ms: "mset (?ys' @ ins) = mset (ys @ p # ins)" by (simp add: mset_insert_list)
  have perm: "distinct (map (key_of ?h) (?ys' @ ins)) \<and> idx_of ?h (?ys' @ ins) = idx_of ?h (ys @ p # ins)"
    by (rule idx_of_perm [OF ms Cons.prems(2)])
  have d': "distinct (map (key_of (um_heap ?U')) (?ys' @ ins))" using perm kv by simp
  have idx': "um_index ?U' = idx_of (um_heap ?U') (?ys' @ ins)"
    using perm kv Cons.prems(3) h'(3) by (simp add: idx_of_def)
  have fresh': "distinct (ins @ cm_first (um_cm ?U') # ?ys')"
    using Cons.prems(4) cfg by (auto simp: insert_list_def)
  have "unat (cm_weight (um_cm ?U')) = unat (cm_weight ?m) + unat (calculate_weight ?h ?m p)"
    using step h' by (simp add: calculate_weight_def)
  then have fit': "unat (cm_weight (um_cm ?U')) + unat_sum (calculate_weight (um_heap ?U') (um_cm ?U')) ins
      \<le> unat (cm_capacity (um_cm ?U'))"
    using Cons.prems(5) cw cfg by simp
  note ih = Cons.IH [OF inv' d' idx' fresh' fit']
  show ?case using ih nv cfg step h' by (simp add: cm_config_def)
qed

lemma drop_keys_append:
  assumes "distinct (map (key_of h) (xs @ ps))"
  shows "drop_keys h ps (idx_of h (xs @ ps)) = idx_of h xs"
proof
  fix k
  show "drop_keys h ps (idx_of h (xs @ ps)) k = idx_of h xs k"
  proof (cases "k \<in> key_of h ` set ps")
    case True
    then have "k \<notin> key_of h ` set xs" using assms by auto
    then have "idx_of h xs k = None" by (simp add: idx_of_None)
    then show ?thesis using True by (simp add: drop_keys_apply)
  next
    case False
    then have "map_of (map (\<lambda>p. (key_of h p, p)) ps) k = None"
      by (simp add: map_of_eq_None_iff image_image)
    then show ?thesis using False
      by (simp add: drop_keys_apply idx_of_def map_add_def split: option.split)
  qed
qed

section \<open>Weights, eviction and commit\<close>

lemma range_index_weight:
  assumes "unat w + unat_sum (cm_weigher (um_cm U) \<circ> snd) items < 2 ^ 64"
  shows "unat (snd (snd (range_index items U ins w))) \<le> unat w + unat_sum (cm_weigher (um_cm U) \<circ> snd) items"
  using assms
proof (induction items arbitrary: U ins w)
  case Nil
  then show ?case by simp
next
  case (Cons it items)
  obtain p kv where it: "it = (p, kv)" by (metis prod.exhaust)
  let ?U' = "index_insert p kv U" and ?wt = "cm_weigher (um_cm U)"
  have cw: "calculate_weight (um_heap ?U') (um_cm ?U') p = ?wt kv"
    by (simp add: index_insert_def calculate_weight_def)
  have m': "um_cm ?U' = um_cm U" by (simp add: index_insert_def)
  have b: "unat w + unat (?wt kv) + unat_sum (?wt \<circ> snd) items < 2 ^ 64"
    using Cons.prems it by (simp add: comp_def add.assoc)
  then have w': "unat (w + ?wt kv) = unat w + unat (?wt kv)" by (intro unat_add_no_wrap) simp
  show ?case
  proof (cases "um_index U (fst kv)")
    case (Some q)
    then have "unat (snd (snd (range_index items U ins w))) \<le> unat w + unat_sum (?wt \<circ> snd) items"
      by (intro Cons.IH) (use b in \<open>simp add: comp_def\<close>)
    then show ?thesis using Some it by (simp add: comp_def)
  next
    case None
    have "unat (snd (snd (range_index items ?U' (ins @ [p]) (w + ?wt kv))))
        \<le> unat (w + ?wt kv) + unat_sum (?wt \<circ> snd) items"
      using Cons.IH [where U = ?U' and ins = "ins @ [p]" and w = "w + ?wt kv"] b w' m' by (simp add: comp_def)
    then show ?thesis using None it cw m' w' by (simp add: Let_def comp_def)
  qed
qed

text \<open>
  The first phase on a well-formed map with fresh node addresses: what
  \<open>range_index\<close> leaves, packaged for the two phases that follow.
\<close>

lemma range_first_phase:
  assumes inv: "um_inv U xs" and fresh: "distinct (map fst items @ cm_first (um_cm U) # xs)"
    and nowrap: "unat_sum (cm_weigher (um_cm U) \<circ> snd) items < 2 ^ 64"
    and ri: "range_index items U [] 0 = (U1, ins, w1)"
  shows "\<exists>V. um_heap U1 = (um_heap U)\<lparr>node_value := V\<rparr> \<and> (\<forall>q \<in> set xs. V q = node_value (um_heap U) q) \<and>
       set ins \<subseteq> fst ` set items \<and> um_cm U1 = um_cm U \<and> cm_inv (um_heap U1) (um_cm U1) xs \<and>
       distinct (map (key_of (um_heap U1)) (xs @ ins)) \<and> um_index U1 = idx_of (um_heap U1) (xs @ ins) \<and>
       distinct (ins @ cm_first (um_cm U1) # xs) \<and>
       unat w1 = unat_sum (calculate_weight (um_heap U1) (um_cm U1)) ins \<and>
       unat w1 \<le> unat_sum (cm_weigher (um_cm U) \<circ> snd) items \<and>
       (cm_capacity (um_cm U) < w1 \<or> (\<forall>it \<in> set items. fst (snd it) \<in> key_of (um_heap U1) ` set (xs @ ins)))"
proof -
  let ?h = "um_heap U" and ?m = "um_cm U"
  have cinv: "cm_inv ?h ?m xs" and d: "distinct (map (key_of ?h) (xs @ []))"
    and idx: "um_index U = idx_of ?h (xs @ [])"
    using inv by (simp_all add: um_inv_def)
  have "\<exists>V. um_heap U1 = ?h\<lparr>node_value := V\<rparr> \<and> (\<forall>q. q \<notin> set ins \<longrightarrow> V q = node_value ?h q) \<and>
       set ins \<subseteq> fst ` set items \<and> um_cm U1 = ?m \<and> cm_inv (um_heap U1) (um_cm U1) xs \<and>
       distinct (map (key_of (um_heap U1)) (xs @ ins)) \<and> um_index U1 = idx_of (um_heap U1) (xs @ ins) \<and>
       unat w1 = unat_sum (calculate_weight (um_heap U1) (um_cm U1)) ins \<and>
       (cm_capacity ?m < w1 \<or> (\<forall>it \<in> set items. fst (snd it) \<in> key_of (um_heap U1) ` set (xs @ ins)))"
    using range_index_ok [OF cinv d idx, of items 0] fresh nowrap ri by auto
  then obtain V where hv: "um_heap U1 = ?h\<lparr>node_value := V\<rparr>" "\<forall>q. q \<notin> set ins \<longrightarrow> V q = node_value ?h q"
    and ins: "set ins \<subseteq> fst ` set items" and m1: "um_cm U1 = ?m"
    and rest: "cm_inv (um_heap U1) (um_cm U1) xs" "distinct (map (key_of (um_heap U1)) (xs @ ins))"
      "um_index U1 = idx_of (um_heap U1) (xs @ ins)"
      "unat w1 = unat_sum (calculate_weight (um_heap U1) (um_cm U1)) ins"
      "cm_capacity ?m < w1 \<or> (\<forall>it \<in> set items. fst (snd it) \<in> key_of (um_heap U1) ` set (xs @ ins))"
    by blast
  have xi: "set xs \<inter> set ins = {}" using ins fresh by auto
  have dins: "distinct ins" using rest(2) by (simp add: distinct_map)
  have fr1: "distinct (ins @ cm_first (um_cm U1) # xs)" using fresh ins xi dins m1 by auto
  have vx: "\<forall>q \<in> set xs. V q = node_value ?h q" using hv(2) xi by auto
  have wb: "unat w1 \<le> unat_sum (cm_weigher ?m \<circ> snd) items"
    using range_index_weight [of 0 U items "[]"] nowrap ri by simp
  show ?thesis using hv(1) vx ins m1 rest fr1 wb by blast
qed

text \<open>
  The second phase after \<open>provideSpace\<close> succeeded: the new nodes are threaded into
  the survivors' list, the facade's invariant holds, and every key of the range whose
  entry was not evicted is in the index.
\<close>

lemma range_commit_ok:
  assumes inv1: "cm_inv (um_heap U1) (um_cm U1) xs"
    and d1: "distinct (map (key_of (um_heap U1)) (xs @ ins))"
    and idx1: "um_index U1 = idx_of (um_heap U1) (xs @ ins)"
    and fr: "distinct (ins @ cm_first (um_cm U1) # xs)"
    and w1: "unat w1 = unat_sum (calculate_weight (um_heap U1) (um_cm U1)) ins"
    and keys: "\<forall>it \<in> set items. fst (snd it) \<in> key_of (um_heap U1) ` set (xs @ ins)"
    and ev: "evicted U1 xs rem U2"
    and fit0: "unat (cm_weight (um_cm U2)) + unat w1 \<le> unat (cm_capacity (um_cm U1))"
  shows "um_inv (fold (\<lambda>p. lift_cm (cm_insert p)) ins U2)
           (fold (insert_list (cm_policy (um_cm U1))) ins (filter (\<lambda>q. q \<notin> set rem) xs)) \<and>
         (\<forall>it \<in> set items. fst (snd it) \<notin> key_of (um_heap U1) ` set rem \<longrightarrow>
            um_index (fold (\<lambda>p. lift_cm (cm_insert p)) ins U2) (fst (snd it)) \<noteq> None)"
proof -
  let ?ys = "filter (\<lambda>q. q \<notin> set rem) xs"
  let ?U' = "fold (\<lambda>p. lift_cm (cm_insert p)) ins U2"
  have ev': "set rem \<subseteq> set xs" "cm_inv (um_heap U2) (um_cm U2) ?ys"
    "um_index U2 = drop_keys (um_heap U1) rem (um_index U1)"
    "node_value (um_heap U2) = node_value (um_heap U1)" "cm_config (um_cm U2) = cm_config (um_cm U1)"
    using ev by (simp_all add: evicted_def)
  have kv2: "key_of (um_heap U2) = key_of (um_heap U1)" using ev'(4) by (simp add: key_of_def [abs_def])
  have cfg2: "cm_capacity (um_cm U2) = cm_capacity (um_cm U1)" "cm_first (um_cm U2) = cm_first (um_cm U1)"
    "cm_policy (um_cm U2) = cm_policy (um_cm U1)"
    using ev'(5) by (simp_all add: cm_config_def)
  have cw2: "calculate_weight (um_heap U2) (um_cm U2) = calculate_weight (um_heap U1) (um_cm U1)"
    using ev'(4) ev'(5) by (simp add: calculate_weight_def [abs_def] cm_config_def)
  have rins: "\<forall>q \<in> set ins. q \<notin> set rem" using ev'(1) fr by auto
  have fl: "filter (\<lambda>q. q \<notin> set rem) (xs @ ins) = ?ys @ ins" using rins by simp
  have "distinct (map (key_of (um_heap U1)) (filter (\<lambda>q. q \<notin> set rem) (xs @ ins)))"
    using d1 by (rule distinct_map_filter)
  then have d2: "distinct (map (key_of (um_heap U2)) (?ys @ ins))" unfolding kv2 fl [symmetric] .
  have "um_index U2 = idx_of (um_heap U1) (filter (\<lambda>q. q \<notin> set rem) (xs @ ins))"
    using ev'(3) idx1 idx_of_filter [OF d1, of rem] ev'(1) by auto
  then have idx2: "um_index U2 = idx_of (um_heap U2) (?ys @ ins)" using fl kv2 by (simp add: idx_of_def)
  have fr2: "distinct (ins @ cm_first (um_cm U2) # ?ys)" using fr cfg2(2) by auto
  have fit2: "unat (cm_weight (um_cm U2)) + unat_sum (calculate_weight (um_heap U2) (um_cm U2)) ins
      \<le> unat (cm_capacity (um_cm U2))"
    using fit0 w1 cw2 cfg2(1) by simp
  note th = thread_ok [OF ev'(2) d2 idx2 fr2 fit2]
  have kU: "key_of (um_heap ?U') = key_of (um_heap U1)"
    using th kv2 by (simp add: key_of_def [abs_def])
  have pres: "um_index ?U' (fst (snd it)) \<noteq> None"
    if it: "it \<in> set items" and nr: "fst (snd it) \<notin> key_of (um_heap U1) ` set rem" for it
  proof -
    obtain q where q: "q \<in> set (xs @ ins)" "fst (snd it) = key_of (um_heap U1) q"
      using keys it by auto
    have "q \<in> set (fold (insert_list (cm_policy (um_cm U2))) ins ?ys)"
      using q nr by (auto simp: set_fold_insert_list)
    then have "idx_of (um_heap ?U') (fold (insert_list (cm_policy (um_cm U2))) ins ?ys) (fst (snd it)) \<noteq> None"
      using q(2) kU by (simp add: idx_of_None)
    then show ?thesis using th by (simp add: um_inv_def)
  qed
  show ?thesis using th pres cfg2(3) by simp
qed

text \<open>
  A range whose weights fit the free space is inserted without eviction: the call
  succeeds, every key of the range is in the map, and the facade's invariant holds of
  the old entries followed by the new ones.
\<close>

lemma range_fits_result:
  assumes inv: "um_inv U xs" and fresh: "distinct (map fst items @ cm_first (um_cm U) # xs)"
    and fit: "unat (cm_weight (um_cm U)) + unat_sum (cm_weigher (um_cm U) \<circ> snd) items \<le> unat (cm_capacity (um_cm U))"
    and ri: "range_index items U [] 0 = (U1, ins, w1)"
  shows "unat (cm_weight (um_cm U)) + unat w1 \<le> unat (cm_capacity (um_cm U)) \<and>
    um_insert_range items U = Some (fold (\<lambda>p. lift_cm (cm_insert p)) ins U1, Inr ())"
proof -
  let ?m = "um_cm U"
  have nowrap: "unat_sum (cm_weigher ?m \<circ> snd) items < 2 ^ 64"
    using fit unat_bound [of "cm_capacity ?m"] by simp
  from range_first_phase [OF inv fresh nowrap ri]
  have m1: "um_cm U1 = ?m" and wb: "unat w1 \<le> unat_sum (cm_weigher ?m \<circ> snd) items"
    by blast+
  have le: "cm_weight ?m \<le> cm_capacity ?m" using inv by (simp add: um_inv_def cm_inv_def)
  have f0: "unat (cm_weight ?m) + unat w1 \<le> unat (cm_capacity ?m)" using fit wb by simp
  then have nc: "\<not> cm_capacity ?m < w1" by (simp add: word_less_nat_alt)
  have "w1 \<le> cm_capacity ?m - cm_weight ?m"
    using f0 unat_sub_no_wrap [OF le] by (simp add: word_le_nat_alt)
  then have ps: "provideSpace w1 U1 = Some (True, U1)" using nc m1 by (simp add: provideSpace_def)
  have "um_insert_range items U = Some (fold (\<lambda>p. lift_cm (cm_insert p)) ins U1, Inr ())"
    using ri ps by (simp add: um_insert_range_def)
  then show ?thesis using f0 by simp
qed

lemma range_fits_ok:
  assumes inv: "um_inv U xs" and fresh: "distinct (map fst items @ cm_first (um_cm U) # xs)"
    and fit: "unat (cm_weight (um_cm U)) + unat_sum (cm_weigher (um_cm U) \<circ> snd) items \<le> unat (cm_capacity (um_cm U))"
  shows "\<exists>U' new. um_insert_range items U = Some (U', Inr ()) \<and> set new \<subseteq> fst ` set items \<and>
    um_inv U' (fold (insert_list (cm_policy (um_cm U))) new xs) \<and>
    (\<forall>it \<in> set items. um_index U' (fst (snd it)) \<noteq> None)"
proof -
  let ?m = "um_cm U"
  have nowrap: "unat_sum (cm_weigher ?m \<circ> snd) items < 2 ^ 64"
    using fit unat_bound [of "cm_capacity ?m"] by simp
  obtain U1 ins w1 where ri: "range_index items U [] 0 = (U1, ins, w1)" by (metis prod.exhaust)
  from range_fits_result [OF inv fresh fit ri]
  have f0: "unat (cm_weight ?m) + unat w1 \<le> unat (cm_capacity ?m)"
    and res: "um_insert_range items U = Some (fold (\<lambda>p. lift_cm (cm_insert p)) ins U1, Inr ())"
    by blast+
  then have nc: "\<not> cm_capacity ?m < w1" by (simp add: word_less_nat_alt)
  from range_first_phase [OF inv fresh nowrap ri] obtain V
    where m1: "um_cm U1 = ?m" and ins: "set ins \<subseteq> fst ` set items"
    and inv1: "cm_inv (um_heap U1) (um_cm U1) xs" and d1: "distinct (map (key_of (um_heap U1)) (xs @ ins))"
    and idx1: "um_index U1 = idx_of (um_heap U1) (xs @ ins)"
    and fr1: "distinct (ins @ cm_first (um_cm U1) # xs)"
    and w1: "unat w1 = unat_sum (calculate_weight (um_heap U1) (um_cm U1)) ins"
    and keys: "cm_capacity ?m < w1 \<or> (\<forall>it \<in> set items. fst (snd it) \<in> key_of (um_heap U1) ` set (xs @ ins))"
    by blast
  have keys': "\<forall>it \<in> set items. fst (snd it) \<in> key_of (um_heap U1) ` set (xs @ ins)" using keys nc by simp
  have f1: "unat (cm_weight (um_cm U1)) + unat w1 \<le> unat (cm_capacity (um_cm U1))" using f0 m1 by simp
  note c = range_commit_ok [OF inv1 d1 idx1 fr1 w1 keys' evicted_none [OF inv1] f1]
  show ?thesis using res c ins m1 by auto
qed

section \<open>The range insert\<close>

text \<open>
  C9. \<open>insert(first, last)\<close> on a well-formed map, with fresh node addresses and
  item weights whose sum does not overflow \<open>size_t\<close>, returns and is atomic: either it
  throws \<open>no_space_error\<close> and the index, the manager and the list are as before (only
  the unreachable nodes allocated for the items differ), or every key of the range is
  in the map afterwards, except a key already present whose entry was evicted to make
  room, and the facade's invariant holds of the surviving entries in their old order
  followed by the new ones at their policy's insert positions.
\<close>

theorem um_insert_range_correct:
  assumes inv: "um_inv U xs" and fresh: "distinct (map fst items @ cm_first (um_cm U) # xs)"
    and nowrap: "unat_sum (cm_weigher (um_cm U) \<circ> snd) items < 2 ^ 64"
  shows "\<exists>U' r. um_insert_range items U = Some (U', r) \<and>
    (case r of
       Inl e \<Rightarrow> e = NoSpace \<and> um_index U' = um_index U \<and> um_cm U' = um_cm U \<and>
         (\<exists>V. um_heap U' = (um_heap U)\<lparr>node_value := V\<rparr> \<and> (\<forall>q \<in> set xs. V q = node_value (um_heap U) q))
     | Inr u \<Rightarrow> (\<exists>rem new. set rem \<subseteq> set xs \<and> set new \<subseteq> fst ` set items \<and>
         um_inv U' (fold (insert_list (cm_policy (um_cm U))) new (filter (\<lambda>q. q \<notin> set rem) xs)) \<and>
         (\<forall>it \<in> set items. fst (snd it) \<notin> key_of (um_heap U) ` set rem \<longrightarrow>
            um_index U' (fst (snd it)) \<noteq> None)))"
proof -
  let ?h = "um_heap U" and ?m = "um_cm U"
  have idx: "um_index U = idx_of ?h xs" using inv by (simp add: um_inv_def)
  obtain U1 ins w1 where ri: "range_index items U [] 0 = (U1, ins, w1)" by (metis prod.exhaust)
  from range_first_phase [OF inv fresh nowrap ri] obtain V
    where hv: "um_heap U1 = ?h\<lparr>node_value := V\<rparr>" and vx: "\<forall>q \<in> set xs. V q = node_value ?h q"
    and m1: "um_cm U1 = ?m"
    and inv1: "cm_inv (um_heap U1) (um_cm U1) xs" and d1: "distinct (map (key_of (um_heap U1)) (xs @ ins))"
    and idx1: "um_index U1 = idx_of (um_heap U1) (xs @ ins)"
    and fr1: "distinct (ins @ cm_first (um_cm U1) # xs)"
    and w1: "unat w1 = unat_sum (calculate_weight (um_heap U1) (um_cm U1)) ins"
    and keys: "cm_capacity ?m < w1 \<or> (\<forall>it \<in> set items. fst (snd it) \<in> key_of (um_heap U1) ` set (xs @ ins))"
    and ins: "set ins \<subseteq> fst ` set items"
    by blast
  have kx: "\<forall>q \<in> set xs. key_of (um_heap U1) q = key_of ?h q"
    using hv vx by (simp add: key_of_def)
  obtain r where r: "provideSpace w1 U1 = Some r"
    and ok: "if fst r then \<exists>rem. evicted U1 xs rem (snd r) \<and>
               unat (cm_weight (um_cm (snd r))) + unat w1 \<le> unat (cm_capacity (um_cm U1)) else snd r = U1"
    using provideSpace_ok [OF inv1] by blast
  have run: "um_insert_range items U =
      Some (if fst r then (fold (\<lambda>p. lift_cm (cm_insert p)) ins (snd r), Inr ())
            else ((snd r)\<lparr>um_index := drop_keys (um_heap (snd r)) ins (um_index (snd r))\<rparr>, Inl NoSpace))"
    using ri r by (cases r) (simp add: um_insert_range_def)
  show ?thesis
  proof (cases "fst r")
    case False
    then have U2: "snd r = U1" using ok by simp
    have "drop_keys (um_heap U1) ins (um_index U1) = idx_of (um_heap U1) xs"
      using idx1 drop_keys_append [OF d1] by simp
    also have "\<dots> = um_index U" using idx idx_of_cong [of xs "um_heap U1" ?h] kx by simp
    finally have res: "um_insert_range items U = Some (U1\<lparr>um_index := um_index U\<rparr>, Inl NoSpace)"
      using run False U2 by simp
    show ?thesis
      apply (rule exI [of _ "U1\<lparr>um_index := um_index U\<rparr>"], rule exI [of _ "Inl NoSpace"])
      using res m1 hv vx by (simp, blast)
  next
    case True
    with ok have "\<exists>rem. evicted U1 xs rem (snd r) \<and>
        unat (cm_weight (um_cm (snd r))) + unat w1 \<le> unat (cm_capacity (um_cm U1))" by simp
    then obtain rem where ev: "evicted U1 xs rem (snd r)"
      and fit0: "unat (cm_weight (um_cm (snd r))) + unat w1 \<le> unat (cm_capacity (um_cm U1))"
      by blast
    have "unat w1 \<le> unat (cm_capacity (um_cm U1))" using fit0 by simp
    then have nc: "\<not> cm_capacity ?m < w1" using m1 by (simp add: word_less_nat_alt)
    have keys': "\<forall>it \<in> set items. fst (snd it) \<in> key_of (um_heap U1) ` set (xs @ ins)" using keys nc by simp
    note c = range_commit_ok [OF inv1 d1 idx1 fr1 w1 keys' ev fit0]
    have rx: "set rem \<subseteq> set xs" using ev by (simp add: evicted_def)
    then have kr: "key_of (um_heap U1) ` set rem = key_of ?h ` set rem" using kx by (intro image_cong) auto
    let ?U' = "fold (\<lambda>p. lift_cm (cm_insert p)) ins (snd r)"
    have res: "um_insert_range items U = Some (?U', Inr ())" using run True by simp
    have main: "set rem \<subseteq> set xs \<and> set ins \<subseteq> fst ` set items \<and>
        um_inv ?U' (fold (insert_list (cm_policy ?m)) ins (filter (\<lambda>q. q \<notin> set rem) xs)) \<and>
        (\<forall>it \<in> set items. fst (snd it) \<notin> key_of ?h ` set rem \<longrightarrow> um_index ?U' (fst (snd it)) \<noteq> None)"
      using rx ins c m1 kr by simp
    show ?thesis
      apply (rule exI [of _ ?U'], rule exI [of _ "Inr ()"])
      apply (simp only: res simp_thms sum.case)
      by (rule exI [of _ rem], rule exI [of _ ins]) (rule main)
  qed
qed

end
