(* ===== verification/Cache_Move.thy ===== *)
theory Cache_Move
  imports Cache_Manager
begin

text \<open>
  Ownership transfer of a manager (\<open>cache_manager.h\<close>): the move constructor, the move
  assignment and \<open>swap\<close>. The sentinel is part of the manager's storage, so each of
  them copies the sentinel's links to a new address and repairs the two nodes that
  pointed at the old one (\<open>_fix_first\<close>). The lemmas show that the list survives the
  transfer under its new sentinel, empty lists included, that the moved-from manager of
  a move assignment is a valid empty manager, and that the moved-from manager of a move
  construction is not.
\<close>

section \<open>Repointing a sentinel\<close>

lemma links_cong [heap_frame]:
  "(\<And>p. p \<in> set zs \<Longrightarrow> node_next h' p = node_next h p \<and> node_prev h' p = node_prev h p) \<Longrightarrow>
   links h' zs = links h zs"
  by (induction h zs rule: links.induct) auto

lemma dl_ring_cong:
  "(\<And>p. p \<in> set (s # xs) \<Longrightarrow> node_next h' p = node_next h p \<and> node_prev h' p = node_prev h p) \<Longrightarrow>
   dl_ring h' s xs = dl_ring h s xs"
  unfolding dl_ring_def by (subst links_cong [of _ h' h]) auto

lemma fix_first_value_weight [simp]:
  "node_value (fix_first s' s h) = node_value h" "node_weight (fix_first s' s h) = node_weight h"
  by (simp_all add: fix_first_def Let_def)

text \<open>\<open>_fix_first\<close> touches the new sentinel and, for a non-empty list, its two neighbours.\<close>

lemma fix_first_frame:
  assumes "p \<noteq> s'" and "node_next h s' \<noteq> s \<Longrightarrow> p \<noteq> node_next h s' \<and> p \<noteq> node_prev h s'"
  shows "node_next (fix_first s' s h) p = node_next h p \<and> node_prev (fix_first s' s h) p = node_prev h p"
  using assms by (auto simp: fix_first_def Let_def)

text \<open>
  A ring with sentinel \<open>s\<close> whose sentinel links were copied to \<open>s'\<close> is, after
  \<open>_fix_first(s)\<close> at \<open>s'\<close>, the same ring with sentinel \<open>s'\<close>.
\<close>

lemma fix_first_ring:
  assumes r: "dl_ring h s xs" and fr: "s' \<notin> set (s # xs)"
    and nx: "node_next h1 s' = node_next h s" and pv: "node_prev h1 s' = node_prev h s"
    and ag: "\<And>p. p \<in> set xs \<Longrightarrow> node_next h1 p = node_next h p \<and> node_prev h1 p = node_prev h p"
  shows "dl_ring (fix_first s' s h1) s' xs"
proof (cases xs)
  case Nil
  then have "node_next h s = s" using r by (simp add: dl_ring_def)
  then show ?thesis using Nil nx by (simp add: fix_first_def dl_ring_def)
next
  case (Cons a as)
  have d: "distinct (s # xs)" using r by (rule dl_ring_distinct)
  have ne: "xs \<noteq> []" using Cons by simp
  have hn: "node_next h s = hd xs"
    using dl_ring_links_split(3) [of h s "[]" xs] r ne by simp
  have hp: "node_prev h s = last xs"
    using dl_ring_links_split(4) [of h s xs "[]"] r ne by simp
  have lx: "links h xs" using dl_ring_links_mid(1) [of h s "[]" xs "[]"] r ne by simp
  have hs: "hd xs \<noteq> s" "hd xs \<noteq> s'" "last xs \<noteq> s'" using d fr ne by auto
  let ?h2 = "link s' (hd xs) h1"
  let ?h3 = "link (last xs) s' ?h2"
  have p2: "node_prev ?h2 s' = last xs" using pv hp hs by simp
  have fx: "fix_first s' s h1 = ?h3" using nx hn hs p2 by (simp add: fix_first_def Let_def)
  have "last xs \<notin> set (butlast xs)" "hd xs \<notin> set (tl xs)"
    using d ne by (simp_all add: distinct_last_notin_butlast distinct_hd_notin_tl)
  moreover have "s' \<notin> set (tl xs)" "s' \<notin> set (butlast xs)"
    using fr notin_set_tl [of s' xs] notin_set_butlast [of s' xs] by simp_all
  ultimately have "links ?h3 xs = links h1 xs" by (simp add: links_frame)
  also have "\<dots> = links h xs" using ag by (rule links_cong)
  finally have l3: "links ?h3 xs" using lx by simp
  have e: "node_next ?h3 s' = hd xs" "node_prev ?h3 (hd xs) = s'"
    "node_next ?h3 (last xs) = s'" "node_prev ?h3 s' = last xs"
    using hs by simp_all
  have "links ?h3 ([s'] @ (xs @ [s']))"
    using l3 e ne links_append [of "[s']" "xs @ [s']" ?h3] links_append [of xs "[s']" ?h3] by simp
  then show ?thesis using fx d fr by (simp add: dl_ring_def)
qed

text \<open>
  Outside the list being repointed, \<open>_fix_first\<close> changes nothing but the new
  sentinel.
\<close>

lemma fix_first_frame_ring:
  assumes r: "dl_ring h s xs" and nx: "node_next h1 s' = node_next h s" and pv: "node_prev h1 s' = node_prev h s"
    and p: "p \<noteq> s'" "p \<notin> set xs"
  shows "node_next (fix_first s' s h1) p = node_next h1 p \<and> node_prev (fix_first s' s h1) p = node_prev h1 p"
proof (rule fix_first_frame [OF p(1)])
  assume "node_next h1 s' \<noteq> s"
  then have ne: "xs \<noteq> []" using nx r by (auto simp: dl_ring_def)
  have "node_next h s = hd xs" "node_prev h s = last xs"
    using dl_ring_links_split(3) [of h s "[]" xs] dl_ring_links_split(4) [of h s xs "[]"] r ne by simp_all
  then show "p \<noteq> node_next h1 s' \<and> p \<noteq> node_prev h1 s'"
    using nx pv p(2) hd_in_set [OF ne] last_in_set [OF ne] by auto
qed

lemma cm_inv_cong:
  assumes "cm_inv h m xs"
    and "\<And>p. p \<in> set (cm_first m # xs) \<Longrightarrow> node_next h' p = node_next h p \<and> node_prev h' p = node_prev h p"
    and "node_value h' = node_value h" "node_weight h' = node_weight h"
  shows "cm_inv h' m xs"
  using assms dl_ring_cong [of "cm_first m" xs h' h] by (simp add: cm_inv_def)

text \<open>The manager's invariant carried to a copied sentinel.\<close>

lemma fix_first_cm_inv:
  assumes inv: "cm_inv h m xs" and fr: "s' \<notin> set (cm_first m # xs)"
    and nx: "node_next h1 s' = node_next h (cm_first m)" and pv: "node_prev h1 s' = node_prev h (cm_first m)"
    and ag: "\<And>p. p \<in> set xs \<Longrightarrow> node_next h1 p = node_next h p \<and> node_prev h1 p = node_prev h p \<and>
               node_value h1 p = node_value h p \<and> node_weight h1 p = node_weight h p"
    and m': "cm_first m' = s'" "cm_weigher m' = cm_weigher m" "cm_weight m' = cm_weight m"
      "cm_capacity m' = cm_capacity m"
  shows "cm_inv (fix_first s' (cm_first m) h1) m' xs"
proof -
  have "dl_ring (fix_first s' (cm_first m) h1) s' xs"
    using fix_first_ring [OF cm_inv_ring [OF inv] fr nx pv] ag by blast
  moreover have "unat_sum (node_weight h1) xs = unat_sum (node_weight h) xs"
    using ag by (intro unat_sum_cong) simp
  ultimately show ?thesis using inv ag m' by (simp add: cm_inv_def list_all_iff)
qed

section \<open>Construction\<close>

text \<open>
  A constructed manager holds the empty list: its sentinel is linked to itself, and
  the weight is zero.
\<close>

lemma cm_construct_inv:
  "cm_inv (fst (cm_construct c wt pol s h)) (snd (cm_construct c wt pol s h)) [] \<and>
   cm_config (snd (cm_construct c wt pol s h)) = (c, s, wt, pol)"
  by (simp add: cm_construct_def cm_inv_def dl_ring_def cm_config_def)

section \<open>Move construction\<close>

lemma cm_move_construct_ok:
  assumes inv: "cm_inv h m xs" and fr: "s' \<notin> set (cm_first m # xs)"
  shows "cm_inv (fst (cm_move_construct s' h m)) (m\<lparr>cm_first := s'\<rparr>) xs"
proof -
  let ?s = "cm_first m"
  let ?h1 = "(copy_links s' ?s h)\<lparr>node_value := (node_value h)(s' := node_value h ?s)\<rparr>"
  have "cm_inv (fix_first s' ?s ?h1) (m\<lparr>cm_first := s'\<rparr>) xs"
    by (rule fix_first_cm_inv [OF inv fr]) (use fr in \<open>auto simp: copy_links_def\<close>)
  then show ?thesis by (simp add: cm_move_construct_def Let_def)
qed

text \<open>
  C10. The move constructor, with its sentinel at a fresh address \<open>s'\<close>, takes over
  the list of a well-formed manager: the new manager holds the same nodes in the same
  order under \<open>s'\<close>, with the same capacity, weight, weigher and policy, and the values
  of the nodes are untouched; an empty list becomes a self-linked sentinel.
\<close>

theorem cm_move_construct_inv:
  assumes inv: "cm_inv h m xs" and fr: "s' \<notin> set (cm_first m # xs)"
    and mv: "cm_move_construct s' h m = (h', m')"
  shows "cm_inv h' m' xs \<and> m' = m\<lparr>cm_first := s'\<rparr> \<and> (\<forall>p. p \<noteq> s' \<longrightarrow> node_value h' p = node_value h p)"
proof -
  have "m' = m\<lparr>cm_first := s'\<rparr>" "\<forall>p. p \<noteq> s' \<longrightarrow> node_value h' p = node_value h p"
    using mv by (auto simp: cm_move_construct_def Let_def)
  then show ?thesis using cm_move_construct_ok [OF inv fr] mv by simp
qed

text \<open>
  C13. The manager moved from keeps its old sentinel links: when the list was not
  empty, its sentinel still points at the first node, whose \<open>prev\<close> now points at the
  new sentinel, so the moved-from manager satisfies the invariant with no list at all.
\<close>

theorem cm_move_construct_source_stale:
  assumes inv: "cm_inv h m xs" and fr: "s' \<notin> set (cm_first m # xs)" and ne: "xs \<noteq> []"
  shows "\<not> cm_inv (fst (cm_move_construct s' h m)) m ys"
proof
  let ?s = "cm_first m" and ?h' = "fst (cm_move_construct s' h m)"
  assume bad: "cm_inv ?h' m ys"
  obtain h' m' where mv: "cm_move_construct s' h m = (h', m')" by (metis prod.exhaust)
  have r': "dl_ring h' s' xs" using cm_move_construct_ok [OF inv fr] mv by (simp add: cm_inv_def)
  have r: "dl_ring h ?s xs" by (rule cm_inv_ring [OF inv])
  have d: "distinct (?s # xs)" using r by (rule dl_ring_distinct)
  have p': "node_prev h' (hd xs) = s'"
    using dl_ring_links_split(4) [of h' s' "[]" xs] r' ne by simp
  have hn: "node_next h ?s = hd xs"
    using dl_ring_links_split(3) [of h ?s "[]" xs] r ne by simp
  have hl: "node_prev h ?s = last xs"
    using dl_ring_links_split(4) [of h ?s xs "[]"] r ne by simp
  have "last xs \<noteq> ?s" "hd xs \<noteq> ?s" "?s \<noteq> s'"
    using d fr last_in_set [OF ne] hd_in_set [OF ne] by auto
  then have n': "node_next h' ?s = hd xs"
    using mv hn hl by (auto simp: cm_move_construct_def fix_first_def copy_links_def Let_def)
  have rb: "dl_ring h' ?s ys" using bad mv by (simp add: cm_inv_def)
  then have "node_next h' ?s = hd (ys @ [?s])" "node_prev h' (hd (ys @ [?s])) = ?s"
    using dl_ring_links_split(3,4) [of h' ?s "[]" ys] by simp_all
  then show False using n' p' fr by simp
qed

section \<open>Move assignment\<close>

text \<open>The effect of move assignment, which the facade's move assignment builds on.\<close>

lemma cm_move_assign_ok:
  assumes inv: "cm_inv h other xs" and fr: "cm_first this \<notin> set (cm_first other # xs)"
    and mv: "cm_move_assign h this other = (h', this', other')"
  shows "cm_inv h' this' xs \<and> cm_inv h' other' [] \<and>
    cm_config this' = (cm_capacity other, cm_first this, cm_weigher other, cm_policy other) \<and>
    cm_weight this' = cm_weight other \<and> cm_capacity other' = 0 \<and> node_value h' = node_value h"
proof -
  let ?s = "cm_first this" and ?so = "cm_first other"
  let ?h1 = "link ?so ?so (copy_links ?s ?so h)"
  have ne: "?s \<noteq> ?so" "?s \<notin> set xs" using fr by auto
  have eq: "h' = fix_first ?s ?so ?h1"
    "this' = this\<lparr>cm_capacity := cm_capacity other, cm_weight := cm_weight other,
                  cm_weigher := cm_weigher other, cm_policy := cm_policy other\<rparr>"
    "other' = other\<lparr>cm_capacity := 0, cm_weight := 0\<rparr>"
    using mv by (simp_all add: cm_move_assign_def Let_def)
  have nx: "node_next ?h1 ?s = node_next h ?so" and pv: "node_prev ?h1 ?s = node_prev h ?so"
    using ne by (simp_all add: copy_links_def)
  have ag: "node_next ?h1 p = node_next h p \<and> node_prev ?h1 p = node_prev h p \<and>
      node_value ?h1 p = node_value h p \<and> node_weight ?h1 p = node_weight h p" if "p \<in> set xs" for p
    using that ne inv by (auto simp: copy_links_def cm_inv_def dl_ring_def)
  have c1: "cm_inv h' this' xs"
    unfolding eq by (rule fix_first_cm_inv [OF inv fr nx pv ag]) simp_all
  have r: "dl_ring h ?so xs" by (rule cm_inv_ring [OF inv])
  have "?so \<noteq> ?s" "?so \<notin> set xs" using r ne(1) by (auto simp: dl_ring_def)
  then have "node_next h' ?so = node_next ?h1 ?so \<and> node_prev h' ?so = node_prev ?h1 ?so"
    unfolding eq(1) by (rule fix_first_frame_ring [OF r nx pv])
  then have c2: "cm_inv h' other' []" using eq(3) by (simp add: cm_inv_def dl_ring_def)
  show ?thesis using c1 c2 eq by (simp add: cm_config_def copy_links_def)
qed

text \<open>
  C11. Move assignment from a well-formed manager whose list does not contain the
  assigned manager's sentinel: the assigned manager holds the other's list under its own
  sentinel, with the other's capacity, weight, weigher and policy, and the moved-from
  manager is a valid empty manager of capacity 0 (its sentinel linked to itself).
\<close>

theorem cm_move_assign_inv:
  assumes inv: "cm_inv h other xs" and fr: "cm_first this \<notin> set (cm_first other # xs)"
    and mv: "cm_move_assign h this other = (h', this', other')"
  shows "cm_inv h' this' xs \<and> cm_inv h' other' [] \<and>
    cm_config this' = (cm_capacity other, cm_first this, cm_weigher other, cm_policy other) \<and>
    cm_weight this' = cm_weight other \<and> cm_capacity other' = 0 \<and> node_value h' = node_value h"
  using cm_move_assign_ok [OF inv fr mv] .

section \<open>Swap\<close>

text \<open>The effect of \<open>swap(other)\<close>, which the facade's \<open>swap\<close> builds on.\<close>

lemma cm_swap_ok:
  assumes i1: "cm_inv h this xs" and i2: "cm_inv h other ys"
    and dj: "set (cm_first this # xs) \<inter> set (cm_first other # ys) = {}"
    and sw: "cm_swap h this other = (h', this', other')"
  shows "cm_inv h' this' ys \<and> cm_inv h' other' xs \<and>
    cm_config this' = (cm_capacity other, cm_first this, cm_weigher other, cm_policy other) \<and>
    cm_config other' = (cm_capacity this, cm_first other, cm_weigher this, cm_policy this) \<and>
    cm_weight this' = cm_weight other \<and> cm_weight other' = cm_weight this \<and> node_value h' = node_value h"
proof -
  let ?s = "cm_first this" and ?so = "cm_first other"
  let ?h1 = "(copy_links ?so ?s (copy_links ?s ?so h))
                 \<lparr>node_prev := (node_prev h)(?s := node_prev h ?so, ?so := node_prev h ?s),
                   node_next := (node_next h)(?s := node_next h ?so, ?so := node_next h ?s),
                   node_weight := (node_weight h)(?s := node_weight h ?so, ?so := node_weight h ?s)\<rparr>"
  let ?hA = "fix_first ?s ?so ?h1"
  let ?t = "this\<lparr>cm_capacity := cm_capacity other, cm_weight := cm_weight other,
                   cm_weigher := cm_weigher other, cm_policy := cm_policy other\<rparr>"
  let ?o = "other\<lparr>cm_capacity := cm_capacity this, cm_weight := cm_weight this,
                   cm_weigher := cm_weigher this, cm_policy := cm_policy this\<rparr>"
  have eq: "h' = fix_first ?so ?s ?hA" "this' = ?t" "other' = ?o"
    using sw by (simp_all add: cm_swap_def Let_def)
  have ne: "?s \<noteq> ?so" "?s \<notin> set ys" "?so \<notin> set xs" "set xs \<inter> set ys = {}" using dj by auto
  have r1: "dl_ring h ?s xs" and r2: "dl_ring h ?so ys" using i1 i2 by (simp_all add: cm_inv_ring)
  have ds: "?s \<notin> set xs" "?so \<notin> set ys" using r1 r2 by (simp_all add: dl_ring_def)
  have nx1: "node_next ?h1 ?s = node_next h ?so" "node_prev ?h1 ?s = node_prev h ?so"
    using ne by simp_all
  have ag1: "node_next ?h1 p = node_next h p \<and> node_prev ?h1 p = node_prev h p \<and>
      node_value ?h1 p = node_value h p \<and> node_weight ?h1 p = node_weight h p"
    if "p \<notin> {?s, ?so}" for p
    using that by (simp add: copy_links_def)
  have fr2: "?s \<notin> set (?so # ys)" using ne by simp
  have A: "cm_inv ?hA ?t ys"
    by (rule fix_first_cm_inv [OF i2 fr2 nx1 ag1]) (use ne ds in auto)
  have fA: "node_next ?hA p = node_next ?h1 p \<and> node_prev ?hA p = node_prev ?h1 p"
    if "p \<noteq> ?s" "p \<notin> set ys" for p
    by (rule fix_first_frame_ring [OF r2 nx1 that])
  have nx2: "node_next ?hA ?so = node_next h ?s" "node_prev ?hA ?so = node_prev h ?s"
    using fA [of ?so] ne(1) ds(2) by (simp_all add: eq_commute [of ?so])
  have ag2: "node_next ?hA p = node_next h p \<and> node_prev ?hA p = node_prev h p \<and>
      node_value ?hA p = node_value h p \<and> node_weight ?hA p = node_weight h p"
    if "p \<in> set xs" for p
  proof -
    have p: "p \<noteq> ?s" "p \<notin> set ys" "p \<notin> {?s, ?so}" using that ne ds by auto
    show ?thesis using fA [OF p(1,2)] ag1 [OF p(3)] by simp
  qed
  have fr1: "?so \<notin> set (?s # xs)" using ne by simp
  have B: "cm_inv h' ?o xs"
    unfolding eq(1) by (rule fix_first_cm_inv [OF i1 fr1 nx2 ag2]) simp_all
  have "cm_inv h' ?t ys"
  proof (rule cm_inv_cong [OF A])
    fix p assume "p \<in> set (cm_first ?t # ys)"
    then have "p \<noteq> ?so" "p \<notin> set xs" using ne ds by auto
    then show "node_next h' p = node_next ?hA p \<and> node_prev h' p = node_prev ?hA p"
      unfolding eq(1) by (rule fix_first_frame_ring [OF r1 nx2])
  qed (simp_all add: eq(1))
  moreover have "node_value h' = node_value h" using eq(1) by (simp add: copy_links_def)
  ultimately show ?thesis using B eq by (simp add: cm_config_def)
qed

text \<open>
  C12. \<open>swap(other)\<close> of two well-formed managers over disjoint lists exchanges the
  lists, each under its own manager's sentinel, together with the capacities, weights,
  weighers and policies; the values of the nodes are untouched.
\<close>

theorem cm_swap_inv:
  assumes i1: "cm_inv h this xs" and i2: "cm_inv h other ys"
    and dj: "set (cm_first this # xs) \<inter> set (cm_first other # ys) = {}"
    and sw: "cm_swap h this other = (h', this', other')"
  shows "cm_inv h' this' ys \<and> cm_inv h' other' xs \<and>
    cm_config this' = (cm_capacity other, cm_first this, cm_weigher other, cm_policy other) \<and>
    cm_config other' = (cm_capacity this, cm_first other, cm_weigher this, cm_policy this) \<and>
    cm_weight this' = cm_weight other \<and> cm_weight other' = cm_weight this \<and> node_value h' = node_value h"
  using cm_swap_ok [OF i1 i2 dj sw] .

end
