(* ===== verification/Limited_Construct.thy ===== *)
theory Limited_Construct
  imports Limited_Range Cache_Move
begin

text \<open>
  Building and rebuilding a whole map (\<open>limited/unordered_map.h\<close>): the constructor
  from a capacity, the constructors from a range and from an initializer list (both a
  constructed map followed by \<open>insert(first, last)\<close>), the defaulted move constructor
  (the index moves, the manager is move-constructed) and the assignment from an
  initializer list, which checks the total weight of the list, clears the map and
  inserts the list, asserting that the insertion cannot fail.
\<close>

section \<open>Construction\<close>

text \<open>
  \<open>unordered_map(capacity, bucket_count, hash, equal, weigher, policy, alloc)\<close>: an
  empty index and a manager constructed with its sentinel at \<open>s\<close>. The bucket count,
  hash, key equality and allocator configure the hash table only.
\<close>

definition um_new ::
  "size_t \<Rightarrow> ('k \<times> 'v \<Rightarrow> size_t) \<Rightarrow> ('k \<times> 'v, 'r) policy \<Rightarrow> 'p \<Rightarrow> ('p, 'k \<times> 'v) heap \<Rightarrow>
   ('k, 'v, 'p, 'r) umap" where
  "um_new c wt pol s h =
     (let (h1, m) = cm_construct c wt pol s h in \<lparr>um_index = Map.empty, um_heap = h1, um_cm = m\<rparr>)"


text \<open>
  \<open>unordered_map(first, last, capacity, ...)\<close> and, delegating to it,
  \<open>unordered_map(list, capacity, ...)\<close>: construct, then \<open>insert(first, last)\<close>; a
  \<open>no_space_error\<close> of the insertion leaves the constructor.
\<close>

definition um_from_range ::
  "('p \<times> 'k \<times> 'v) list \<Rightarrow> size_t \<Rightarrow> ('k \<times> 'v \<Rightarrow> size_t) \<Rightarrow> ('k \<times> 'v, 'w::len word) policy \<Rightarrow> 'p \<Rightarrow>
   ('p, 'k \<times> 'v) heap \<Rightarrow> (('k, 'v, 'p, 'w word) umap \<times> (error + unit)) option" where
  "um_from_range items c wt pol s h = um_insert_range items (um_new c wt pol s h)"

text \<open>
  \<open>unordered_map(unordered_map&&) = default\<close>: the index is moved and the manager is
  move-constructed with its sentinel at \<open>s'\<close>; the nodes stay where they are.
\<close>

definition um_move :: "'p \<Rightarrow> ('k, 'v, 'p, 'r) umap \<Rightarrow> ('k, 'v, 'p, 'r) umap" where
  "um_move s' U =
     (let (h1, m1) = cm_move_construct s' (um_heap U) (um_cm U)
      in \<lparr>um_index = um_index U, um_heap = h1, um_cm = m1\<rparr>)"

section \<open>Assignment from a list\<close>

text \<open>
  \<open>operator=(initializer_list)\<close>: add the weights of the list in \<open>size_t\<close> and throw
  when the sum exceeds the capacity; otherwise clear the manager and the index and
  insert the list. A \<open>no_space_error\<close> of that insertion trips the debug build's
  assertion, the value \<open>None\<close>; \<open>_map.reserve\<close> sizes the hash table only.
\<close>

definition um_assign_list ::
  "('p \<times> 'k \<times> 'v) list \<Rightarrow> ('k, 'v, 'p, 'w::len word) umap \<Rightarrow>
   (('k, 'v, 'p, 'w word) umap \<times> (error + unit)) option" where
  "um_assign_list items U =
     (let weight = fold (\<lambda>it w. w + cm_weigher (um_cm U) (snd it)) items 0
      in if cm_capacity (um_cm U) < weight then Some (U, Inl NoSpace)
         else (case um_insert_range items (um_clear U) of
                 None \<Rightarrow> None
               | Some (U', r) \<Rightarrow> (case r of Inl e \<Rightarrow> None | Inr u \<Rightarrow> Some (U', Inr u))))"

section \<open>Well-formed starting points\<close>

lemma um_new_inv:
  "um_inv (um_new c wt pol s h) [] \<and> cm_config (um_cm (um_new c wt pol s h)) = (c, s, wt, pol) \<and>
   cm_weight (um_cm (um_new c wt pol s h)) = 0"
  by (simp add: um_new_def cm_construct_def um_inv_def cm_inv_def dl_ring_def idx_of_def cm_config_def)


lemma um_clear_empty:
  "um_inv (um_clear U) [] \<and> cm_config (um_cm (um_clear U)) = cm_config (um_cm U) \<and>
   cm_weight (um_cm (um_clear U)) = 0"
  by (simp add: um_clear_def um_inv_def lift_cm_def Let_def idx_of_def cm_clear_def cm_config_def
      cm_inv_def dl_ring_def)

section \<open>Building a map from a range\<close>

text \<open>
  C18. A map constructed from a range of entries, with fresh node addresses, whose
  weights add up to at most the capacity is built without eviction or
  \<open>no_space_error\<close>: it is well-formed, its list holds new nodes of the range in the
  policy's insert order, and every key of the range is in it.
\<close>

theorem um_from_range_correct:
  assumes fresh: "distinct (map fst items @ [s])"
    and fit: "unat_sum (wt \<circ> snd) items \<le> unat c"
  shows "\<exists>U' new. um_from_range items c wt pol s h = Some (U', Inr ()) \<and> set new \<subseteq> fst ` set items \<and>
    um_inv U' (fold (insert_list pol) new []) \<and> (\<forall>it \<in> set items. um_index U' (fst (snd it)) \<noteq> None)"
proof -
  let ?U = "um_new c wt pol s h"
  have inv: "um_inv ?U []" and cfg: "cm_config (um_cm ?U) = (c, s, wt, pol)"
    and w0: "cm_weight (um_cm ?U) = 0"
    using um_new_inv [of c wt pol s h] by simp_all
  have cf: "cm_capacity (um_cm ?U) = c" "cm_first (um_cm ?U) = s" "cm_weigher (um_cm ?U) = wt"
    "cm_policy (um_cm ?U) = pol"
    using cfg by (simp_all add: cm_config_def)
  have fr: "distinct (map fst items @ cm_first (um_cm ?U) # [])" using fresh cf by simp
  have ft: "unat (cm_weight (um_cm ?U)) + unat_sum (cm_weigher (um_cm ?U) \<circ> snd) items
      \<le> unat (cm_capacity (um_cm ?U))"
    using fit w0 cf by simp
  from range_fits_ok [OF inv fr ft] show ?thesis by (simp add: um_from_range_def cf)
qed

section \<open>Assignment from a list\<close>

text \<open>
  C17. \<open>operator=(initializer_list)\<close> with fresh node addresses and weights whose sum
  does not overflow \<open>size_t\<close> does what its documentation says: when the list weighs
  more than the capacity it throws \<open>no_space_error\<close> and leaves the map unaltered;
  otherwise the map holds exactly entries of the list, is well-formed, and has every
  key of the list, and the insertion it asserts on never fails.
\<close>

theorem um_assign_list_correct:
  assumes fresh: "distinct (map fst items @ [cm_first (um_cm U)])"
    and nowrap: "unat_sum (cm_weigher (um_cm U) \<circ> snd) items < 2 ^ 64"
  shows "\<exists>U' r. um_assign_list items U = Some (U', r) \<and>
    (if unat (cm_capacity (um_cm U)) < unat_sum (cm_weigher (um_cm U) \<circ> snd) items
     then U' = U \<and> r = Inl NoSpace
     else r = Inr () \<and> (\<exists>ys. set ys \<subseteq> fst ` set items \<and> um_inv U' ys) \<and>
          (\<forall>it \<in> set items. um_index U' (fst (snd it)) \<noteq> None))"
proof -
  let ?m = "um_cm U" and ?S = "unat_sum (cm_weigher (um_cm U) \<circ> snd) items"
  let ?w = "fold (\<lambda>it w. w + cm_weigher ?m (snd it)) items 0"
  have uw: "unat ?w = ?S"
    using unat_fold_sum [of 0 "cm_weigher ?m" snd items] nowrap by simp
  show ?thesis
  proof (cases "unat (cm_capacity ?m) < ?S")
    case True
    then have "cm_capacity ?m < ?w" using uw by (simp add: word_less_nat_alt)
    then show ?thesis using True by (simp add: um_assign_list_def Let_def)
  next
    case False
    then have nc: "\<not> cm_capacity ?m < ?w" using uw by (simp add: word_less_nat_alt)
    let ?U0 = "um_clear U"
    have inv0: "um_inv ?U0 []" and cfg: "cm_config (um_cm ?U0) = cm_config ?m"
      and w0: "cm_weight (um_cm ?U0) = 0"
      using um_clear_empty [of U] by simp_all
    have cf: "cm_capacity (um_cm ?U0) = cm_capacity ?m" "cm_first (um_cm ?U0) = cm_first ?m"
      "cm_weigher (um_cm ?U0) = cm_weigher ?m"
      using cfg by (simp_all add: cm_config_def)
    have fr: "distinct (map fst items @ cm_first (um_cm ?U0) # [])" using fresh cf by simp
    have ft: "unat (cm_weight (um_cm ?U0)) + unat_sum (cm_weigher (um_cm ?U0) \<circ> snd) items
        \<le> unat (cm_capacity (um_cm ?U0))"
      using False w0 cf by simp
    from range_fits_ok [OF inv0 fr ft] obtain U' new
      where ri: "um_insert_range items ?U0 = Some (U', Inr ())" and nw: "set new \<subseteq> fst ` set items"
      and inv': "um_inv U' (fold (insert_list (cm_policy (um_cm ?U0))) new [])"
      and keys: "\<forall>it \<in> set items. um_index U' (fst (snd it)) \<noteq> None"
      by blast
    have res: "um_assign_list items U = Some (U', Inr ())"
      using nc ri by (simp add: um_assign_list_def Let_def)
    have "set (fold (insert_list (cm_policy (um_cm ?U0))) new []) \<subseteq> fst ` set items"
      using nw by (simp add: set_fold_insert_list)
    then show ?thesis using res inv' keys False by auto
  qed
qed

section \<open>Moving a map\<close>

text \<open>
  C19. The defaulted move constructor of the facade, with the manager's sentinel at
  a fresh address, gives a well-formed map with the same index, the same entries in the
  same replacement order and the same capacity, weight, weigher and policy.
\<close>

theorem um_move_inv:
  assumes inv: "um_inv U xs" and fr: "s' \<notin> set (cm_first (um_cm U) # xs)"
  shows "um_inv (um_move s' U) xs \<and> um_index (um_move s' U) = um_index U \<and>
    um_cm (um_move s' U) = (um_cm U)\<lparr>cm_first := s'\<rparr>"
proof -
  let ?h = "um_heap U" and ?m = "um_cm U"
  obtain h1 m1 where mv: "cm_move_construct s' ?h ?m = (h1, m1)" by (metis prod.exhaust)
  have cinv: "cm_inv ?h ?m xs" using inv by (simp add: um_inv_def)
  have c1: "cm_inv h1 (?m\<lparr>cm_first := s'\<rparr>) xs" using cm_move_construct_ok [OF cinv fr] mv by simp
  have m1: "m1 = ?m\<lparr>cm_first := s'\<rparr>" and v1: "node_value h1 = (node_value ?h)(s' := node_value ?h (cm_first ?m))"
    using mv by (auto simp: cm_move_construct_def Let_def)
  have kx: "key_of h1 p = key_of ?h p" if "p \<in> set xs" for p
    using that fr v1 by (auto simp: key_of_def)
  then have mk: "map (key_of h1) xs = map (key_of ?h) xs" by simp
  have dk: "distinct (map (key_of h1) xs)" unfolding mk using inv by (simp add: um_inv_def)
  have "idx_of h1 xs = idx_of ?h xs" using kx by (rule idx_of_cong)
  then show ?thesis using inv c1 m1 mv dk by (simp add: um_move_def um_inv_def)
qed

end
