(* ===== verification/Limited_Reach.thy ===== *)
theory Limited_Reach
  imports Limited_Construct
begin

text \<open>
  The facade as a state machine. The public operations that change the state form a
  datatype; \<open>um_apply\<close> runs one of them through the definitions of \<open>Limited_Map\<close>
  and \<open>Limited_Construct\<close>, and \<open>op_ok\<close> is the contract the caller and the allocator
  keep: a node the allocator hands out is neither the sentinel nor a node of the map, and
  the weights of a range add up without overflowing \<open>size_t\<close>. The states reachable
  from a constructed map by such operations (\<open>um_reach\<close>) all satisfy the facade's
  invariant, and on each of them every operation returns.
\<close>

section \<open>Operations\<close>

datatype ('p, 'k, 'v) um_op =
    OpInsert 'p "'k \<times> 'v"
  | OpInsertNode 'p
  | OpInsertRange "('p \<times> 'k \<times> 'v) list"
  | OpAssignList "('p \<times> 'k \<times> 'v) list"
  | OpEraseKey 'k
  | OpExtractKey 'k
  | OpAccessKey 'k
  | OpFreeSpace size_t
  | OpProvideSpace size_t
  | OpClear

text \<open>The state after an operation, its result dropped; \<open>None\<close> when it does not return.\<close>

fun um_apply ::
  "('p, 'k, 'v) um_op \<Rightarrow> ('k, 'v, 'p, 'w::len word) umap \<Rightarrow> ('k, 'v, 'p, 'w word) umap option" where
  "um_apply (OpInsert p kv) U = map_option fst (um_insert p kv U)"
| "um_apply (OpInsertNode p) U = map_option fst (um_insert_node p U)"
| "um_apply (OpInsertRange items) U = map_option fst (um_insert_range items U)"
| "um_apply (OpAssignList items) U = map_option fst (um_assign_list items U)"
| "um_apply (OpEraseKey k) U = Some (fst (um_erase_key k U))"
| "um_apply (OpExtractKey k) U = Some (fst (um_extract_key k U))"
| "um_apply (OpAccessKey k) U = Some (um_access_key k U)"
| "um_apply (OpFreeSpace w) U = map_option fst (um_free_space w U)"
| "um_apply (OpProvideSpace w) U = map_option fst (um_provide_space w U)"
| "um_apply OpClear U = Some (um_clear U)"

text \<open>A node is fresh when it is neither the sentinel nor a node of the index.\<close>

definition fresh_node :: "('k, 'v, 'p, 'r) umap \<Rightarrow> 'p \<Rightarrow> bool" where
  "fresh_node U p \<longleftrightarrow> p \<noteq> cm_first (um_cm U) \<and> p \<notin> ran (um_index U)"

fun op_ok :: "('p, 'k, 'v) um_op \<Rightarrow> ('k, 'v, 'p, 'w::len word) umap \<Rightarrow> bool" where
  "op_ok (OpInsert p kv) U \<longleftrightarrow> fresh_node U p"
| "op_ok (OpInsertNode p) U \<longleftrightarrow> fresh_node U p"
| "op_ok (OpInsertRange items) U \<longleftrightarrow>
     distinct (map fst items) \<and> list_all (fresh_node U \<circ> fst) items \<and>
     unat_sum (cm_weigher (um_cm U) \<circ> snd) items < 2 ^ 64"
| "op_ok (OpAssignList items) U \<longleftrightarrow>
     distinct (map fst items) \<and> cm_first (um_cm U) \<notin> fst ` set items \<and>
     unat_sum (cm_weigher (um_cm U) \<circ> snd) items < 2 ^ 64"
| "op_ok _ U \<longleftrightarrow> True"

text \<open>The states reachable from a constructed map.\<close>

inductive um_reach :: "('k, 'v, 'p, 'w::len word) umap \<Rightarrow> bool" where
  new: "um_reach (um_new c wt pol s h)"
| step: "um_reach U \<Longrightarrow> op_ok op U \<Longrightarrow> um_apply op U = Some U' \<Longrightarrow> um_reach U'"

section \<open>Freshness and the index\<close>

lemma ran_idx_of:
  assumes "distinct (map (key_of h) xs)"
  shows "ran (idx_of h xs) = set xs"
proof -
  have "distinct (map fst (map (\<lambda>p. (key_of h p, p)) xs))" using assms by (simp add: comp_def)
  then show ?thesis by (simp add: idx_of_def ran_distinct image_image)
qed

lemma fresh_node_inv:
  "um_inv U xs \<Longrightarrow> fresh_node U p \<longleftrightarrow> p \<notin> set (cm_first (um_cm U) # xs)"
  by (auto simp: fresh_node_def um_inv_def ran_idx_of)

section \<open>Each operation returns and keeps the invariant\<close>

text \<open>The state of a space request is well-formed whether it evicted or not.\<close>

lemma space_result_inv:
  assumes inv: "um_inv U xs" and ok: "if fst r then \<exists>rem. evicted U xs rem (snd r) \<and> P rem else snd r = U"
  shows "\<exists>ys. um_inv (snd r) ys"
proof (cases "fst r")
  case True
  then obtain rem where "evicted U xs rem (snd r)" using ok by auto
  then show ?thesis using evicted_um_inv [OF inv] by blast
next
  case False
  then show ?thesis using ok inv by auto
qed

lemma index_insert_ready:
  assumes inv: "um_inv U xs" and pxs: "p \<notin> set xs" and knew: "fst kv \<notin> key_of (um_heap U) ` set xs"
  shows "cm_inv (um_heap (index_insert p kv U)) (um_cm (index_insert p kv U)) xs \<and>
    distinct (map (key_of (um_heap (index_insert p kv U))) xs) \<and>
    um_index (index_insert p kv U) =
      (idx_of (um_heap (index_insert p kv U)) xs)(key_of (um_heap (index_insert p kv U)) p \<mapsto> p) \<and>
    key_of (um_heap (index_insert p kv U)) p \<notin> key_of (um_heap (index_insert p kv U)) ` set xs \<and>
    um_cm (index_insert p kv U) = um_cm U"
proof -
  let ?h = "um_heap U" and ?h1 = "um_heap (index_insert p kv U)"
  have keq: "\<And>q. q \<in> set xs \<Longrightarrow> key_of ?h1 q = key_of ?h q"
    using pxs by (auto simp: index_insert_def key_of_def)
  have d: "distinct (map (key_of ?h) xs)" and idx: "um_index U = idx_of ?h xs"
    using inv by (simp_all add: um_inv_def)
  have kp: "key_of ?h1 p = fst kv" by (simp add: index_insert_def key_of_def)
  have me: "map (key_of ?h1) xs = map (key_of ?h) xs" by (rule map_cong [OF refl keq])
  have idx1: "idx_of ?h1 xs = idx_of ?h xs" using keq by (rule idx_of_cong)
  have "cm_inv ?h1 (um_cm (index_insert p kv U)) xs"
    using um_inv_cm [OF inv] pxs by (simp add: index_insert_def cm_inv_value_upd)
  moreover have "distinct (map (key_of ?h1) xs)" using d by (simp only: me)
  moreover have "key_of ?h1 p \<notin> key_of ?h1 ` set xs" using knew kp keq by auto
  ultimately show ?thesis using idx idx1 kp by (simp add: index_insert_def)
qed

lemma indexInserted_inv:
  assumes inv: "cm_inv (um_heap U) (um_cm U) xs" and d: "distinct (map (key_of (um_heap U)) xs)"
    and fresh: "p \<notin> set (cm_first (um_cm U) # xs)"
    and idx: "um_index U = (idx_of (um_heap U) xs)(key_of (um_heap U) p \<mapsto> p)"
    and knew: "key_of (um_heap U) p \<notin> key_of (um_heap U) ` set xs"
  shows "\<exists>U' r ys. indexInserted p U = Some (U', r) \<and> um_inv U' ys"
proof -
  obtain U' r where ii: "indexInserted p U = Some (U', r)"
    and ok: "case r of
       Inl e \<Rightarrow> e = NoSpace \<and> U' = U\<lparr>um_index := idx_of (um_heap U) xs\<rparr>
     | Inr u \<Rightarrow> (\<exists>rem. um_inv U' (insert_list (cm_policy (um_cm U)) p (filter (\<lambda>q. q \<notin> set rem) xs))) \<and>
                node_value (um_heap U') = node_value (um_heap U) \<and> cm_config (um_cm U') = cm_config (um_cm U)"
    using indexInserted_ok [OF inv d fresh idx knew] by blast
  have "\<exists>ys. um_inv U' ys"
  proof (cases r)
    case (Inl e)
    then have "um_inv U' xs" using ok inv d by (simp add: um_inv_def)
    then show ?thesis by blast
  next
    case (Inr u)
    then show ?thesis using ok by auto
  qed
  then show ?thesis using ii by blast
qed

lemma apply_insert_ok:
  assumes inv: "um_inv U xs" and fr: "p \<notin> set (cm_first (um_cm U) # xs)"
  shows "\<exists>U' ys. um_apply (OpInsert p kv) U = Some U' \<and> um_inv U' ys"
proof (cases "um_index U (fst kv)")
  case (Some q)
  then show ?thesis using inv by (auto simp: um_insert_def)
next
  case None
  then have knew: "fst kv \<notin> key_of (um_heap U) ` set xs" using inv by (simp add: um_inv_def idx_of_None)
  have pxs: "p \<notin> set xs" using fr by simp
  note r = index_insert_ready [OF inv pxs knew]
  have "p \<notin> set (cm_first (um_cm (index_insert p kv U)) # xs)" using fr r by simp
  then obtain U' r' ys where "indexInserted p (index_insert p kv U) = Some (U', r')" "um_inv U' ys"
    using indexInserted_inv [of "index_insert p kv U" xs p] r by blast
  then show ?thesis using None by (auto simp: um_insert_def)
qed

lemma apply_insert_node_ok:
  assumes inv: "um_inv U xs" and fr: "p \<notin> set (cm_first (um_cm U) # xs)"
  shows "\<exists>U' ys. um_apply (OpInsertNode p) U = Some U' \<and> um_inv U' ys"
proof (cases "um_index U (key_of (um_heap U) p)")
  case (Some q)
  then show ?thesis using inv by (auto simp: um_insert_node_def)
next
  case None
  let ?k = "key_of (um_heap U) p" and ?U1 = "U\<lparr>um_index := (um_index U)(key_of (um_heap U) p \<mapsto> p)\<rparr>"
  have knew: "?k \<notin> key_of (um_heap U) ` set xs" using None inv by (simp add: um_inv_def idx_of_None)
  have c: "cm_inv (um_heap ?U1) (um_cm ?U1) xs" "distinct (map (key_of (um_heap ?U1)) xs)"
    "um_index ?U1 = (idx_of (um_heap ?U1) xs)(key_of (um_heap ?U1) p \<mapsto> p)"
    using inv by (simp_all add: um_inv_def)
  obtain U' r' ys where "indexInserted p ?U1 = Some (U', r')" "um_inv U' ys"
    using indexInserted_inv [OF c(1,2) _ c(3)] fr knew by auto
  then show ?thesis using None by (auto simp: um_insert_node_def Let_def)
qed

lemma apply_erase_key_ok:
  assumes inv: "um_inv U xs"
  shows "\<exists>ys. um_inv (fst (um_erase_key k U)) ys \<and> um_inv (fst (um_extract_key k U)) ys"
proof (cases "um_index U k")
  case None
  then show ?thesis using inv by (auto simp: um_erase_key_def um_extract_key_def)
next
  case (Some p)
  then obtain as bs where xs: "xs = as @ p # bs" using um_inv_key_split [OF inv] by blast
  then show ?thesis using um_erase_node_step [OF inv [unfolded xs]] Some
    by (auto simp: um_erase_key_def um_extract_key_def)
qed

lemma apply_access_key_ok:
  assumes inv: "um_inv U xs"
  shows "\<exists>ys. um_inv (um_access_key k U) ys"
proof (cases "um_index U k")
  case None
  then show ?thesis using inv by (auto simp: um_access_key_def)
next
  case (Some p)
  then have "p \<in> set xs" using inv idx_of_Some [of "um_heap U" xs] by (auto simp: um_inv_def)
  then show ?thesis using um_access_step [OF inv] Some by (auto simp: um_access_key_def)
qed

lemma apply_space_ok:
  assumes inv: "um_inv U xs"
  shows "\<exists>U' ys. um_apply (OpFreeSpace w) U = Some U' \<and> um_inv U' ys"
    "\<exists>U' ys. um_apply (OpProvideSpace w) U = Some U' \<and> um_inv U' ys"
proof -
  obtain r where r: "freeSpace w U = Some r"
    and ok: "if fst r then \<exists>rem. evicted U xs rem (snd r) \<and> unat w \<le> unat_sum (node_weight (um_heap U)) rem
             else snd r = U"
    using freeSpace_ok [OF um_inv_cm [OF inv]] by blast
  then show "\<exists>U' ys. um_apply (OpFreeSpace w) U = Some U' \<and> um_inv U' ys"
    using space_result_inv [OF inv ok] by (cases r) (auto simp: um_free_space_def)
next
  obtain r where r: "provideSpace w U = Some r"
    and ok: "if fst r then \<exists>rem. evicted U xs rem (snd r) \<and>
               unat (cm_weight (um_cm (snd r))) + unat w \<le> unat (cm_capacity (um_cm U)) else snd r = U"
    using provideSpace_ok [OF um_inv_cm [OF inv]] by blast
  then show "\<exists>U' ys. um_apply (OpProvideSpace w) U = Some U' \<and> um_inv U' ys"
    using space_result_inv [OF inv, of r "\<lambda>rem. unat (cm_weight (um_cm (snd r))) + unat w \<le> unat (cm_capacity (um_cm U))"]
    by (cases r) (auto simp: um_provide_space_def)
qed

lemma apply_range_ok:
  assumes inv: "um_inv U xs" and fresh: "distinct (map fst items @ cm_first (um_cm U) # xs)"
    and nowrap: "unat_sum (cm_weigher (um_cm U) \<circ> snd) items < 2 ^ 64"
  shows "\<exists>U' ys. um_apply (OpInsertRange items) U = Some U' \<and> um_inv U' ys"
proof -
  obtain U1 ins w1 where ri: "range_index items U [] 0 = (U1, ins, w1)" by (metis prod.exhaust)
  from range_first_phase [OF inv fresh nowrap ri] obtain V
    where m1: "um_cm U1 = um_cm U"
    and inv1: "cm_inv (um_heap U1) (um_cm U1) xs" and d1: "distinct (map (key_of (um_heap U1)) (xs @ ins))"
    and idx1: "um_index U1 = idx_of (um_heap U1) (xs @ ins)"
    and fr1: "distinct (ins @ cm_first (um_cm U1) # xs)"
    and w1: "unat w1 = unat_sum (calculate_weight (um_heap U1) (um_cm U1)) ins"
    and keys: "cm_capacity (um_cm U) < w1 \<or> (\<forall>it \<in> set items. fst (snd it) \<in> key_of (um_heap U1) ` set (xs @ ins))"
    by blast
  obtain r where r: "provideSpace w1 U1 = Some r"
    and ok: "if fst r then \<exists>rem. evicted U1 xs rem (snd r) \<and>
               unat (cm_weight (um_cm (snd r))) + unat w1 \<le> unat (cm_capacity (um_cm U1)) else snd r = U1"
    using provideSpace_ok [OF inv1] by blast
  show ?thesis
  proof (cases "fst r")
    case True
    with ok obtain rem where ev: "evicted U1 xs rem (snd r)"
      and fit0: "unat (cm_weight (um_cm (snd r))) + unat w1 \<le> unat (cm_capacity (um_cm U1))"
      by auto
    have "\<not> cm_capacity (um_cm U) < w1" using fit0 m1 by (simp add: word_less_nat_alt)
    then have keys': "\<forall>it \<in> set items. fst (snd it) \<in> key_of (um_heap U1) ` set (xs @ ins)" using keys by simp
    note c = range_commit_ok [OF inv1 d1 idx1 fr1 w1 keys' ev fit0]
    then show ?thesis using ri r True by (cases r) (auto simp: um_insert_range_def)
  next
    case False
    then have U2: "snd r = U1" using ok by simp
    have "drop_keys (um_heap U1) ins (um_index U1) = idx_of (um_heap U1) xs"
      using idx1 drop_keys_append [OF d1] by simp
    moreover have "distinct (map (key_of (um_heap U1)) xs)" using d1 by simp
    ultimately have "um_inv (U1\<lparr>um_index := drop_keys (um_heap U1) ins (um_index U1)\<rparr>) xs"
      using inv1 by (simp add: um_inv_def)
    then show ?thesis using ri r False U2 by (cases r) (auto simp: um_insert_range_def)
  qed
qed

lemma apply_assign_list_ok:
  assumes fresh: "distinct (map fst items @ [cm_first (um_cm U)])"
    and nowrap: "unat_sum (cm_weigher (um_cm U) \<circ> snd) items < 2 ^ 64" and inv: "um_inv U xs"
  shows "\<exists>U' ys. um_apply (OpAssignList items) U = Some U' \<and> um_inv U' ys"
proof -
  let ?m = "um_cm U" and ?w = "fold (\<lambda>it w. w + cm_weigher (um_cm U) (snd it)) items 0"
  have uw: "unat ?w = unat_sum (cm_weigher ?m \<circ> snd) items"
    using unat_fold_sum [of 0 "cm_weigher ?m" snd items] nowrap by simp
  show ?thesis
  proof (cases "cm_capacity ?m < ?w")
    case True
    then show ?thesis using inv by (auto simp: um_assign_list_def Let_def)
  next
    case False
    let ?U0 = "um_clear U"
    have inv0: "um_inv ?U0 []" and cfg: "cm_config (um_cm ?U0) = cm_config ?m"
      and w0: "cm_weight (um_cm ?U0) = 0"
      using um_clear_empty [of U] by simp_all
    have cf: "cm_capacity (um_cm ?U0) = cm_capacity ?m" "cm_first (um_cm ?U0) = cm_first ?m"
      "cm_weigher (um_cm ?U0) = cm_weigher ?m"
      using cfg by (simp_all add: cm_config_def)
    have fr: "distinct (map fst items @ cm_first (um_cm ?U0) # [])" using fresh cf by simp
    have "unat (cm_weight (um_cm ?U0)) + unat_sum (cm_weigher (um_cm ?U0) \<circ> snd) items
        \<le> unat (cm_capacity (um_cm ?U0))"
      using False uw w0 cf by (simp add: word_less_nat_alt)
    from range_fits_ok [OF inv0 fr this] obtain U' new
      where "um_insert_range items ?U0 = Some (U', Inr ())"
      and "um_inv U' (fold (insert_list (cm_policy (um_cm ?U0))) new [])"
      by blast
    then show ?thesis using False by (auto simp: um_assign_list_def Let_def)
  qed
qed

text \<open>Every operation whose contract holds on a well-formed map returns a well-formed map.\<close>

lemma um_apply_ok:
  assumes inv: "um_inv U xs" and ok: "op_ok op U"
  shows "\<exists>U' ys. um_apply op U = Some U' \<and> um_inv U' ys"
proof (cases op)
  case (OpInsert p kv)
  then show ?thesis using apply_insert_ok [OF inv] ok fresh_node_inv [OF inv] by simp
next
  case (OpInsertNode p)
  then show ?thesis using apply_insert_node_ok [OF inv] ok fresh_node_inv [OF inv] by simp
next
  case (OpInsertRange items)
  have "distinct (map fst items @ cm_first (um_cm U) # xs)"
    using ok OpInsertRange fresh_node_inv [OF inv] dl_ring_distinct [OF cm_inv_ring [OF um_inv_cm [OF inv]]]
    by (auto simp: list_all_iff)
  then show ?thesis using apply_range_ok [OF inv] ok OpInsertRange by simp
next
  case (OpAssignList items)
  then show ?thesis using apply_assign_list_ok [OF _ _ inv] ok by simp
next
  case (OpEraseKey k)
  then show ?thesis using apply_erase_key_ok [OF inv, of k] by auto
next
  case (OpExtractKey k)
  then show ?thesis using apply_erase_key_ok [OF inv, of k] by auto
next
  case (OpAccessKey k)
  then show ?thesis using apply_access_key_ok [OF inv, of k] by auto
next
  case (OpFreeSpace w)
  then show ?thesis using apply_space_ok(1) [OF inv] by simp
next
  case (OpProvideSpace w)
  then show ?thesis using apply_space_ok(2) [OF inv] by simp
next
  case OpClear
  then show ?thesis using um_clear_empty [of U] by auto
qed

section \<open>Reachable states\<close>

text \<open>
  C1. Every state reachable from a constructed map by operations whose contract
  holds satisfies the facade's invariant (I1 to I3 over some replacement order), and on
  every such state each operation whose contract holds returns: no loop diverges and no
  assertion of the manager or of \<open>operator=(initializer_list)\<close> fires.
\<close>

theorem um_reach_wf:
  assumes "um_reach U"
  shows "(\<exists>xs. um_inv U xs) \<and> (\<forall>op. op_ok op U \<longrightarrow> (\<exists>U'. um_apply op U = Some U'))"
proof -
  have inv: "\<exists>xs. um_inv U xs" using assms
  proof (induction rule: um_reach.induct)
    case (new c wt pol s h)
    then show ?case using um_new_inv [of c wt pol s h] by blast
  next
    case (step U op U')
    then show ?case using um_apply_ok [of U _ op] by fastforce
  qed
  then show ?thesis using um_apply_ok by blast
qed

end
