(* ===== verification/Limited_Api.thy ===== *)
theory Limited_Api
  imports Limited_Reach
begin

text \<open>
  The rest of the public surface of \<open>limited::unordered_map\<close> that the state model
  reaches: the observers and requests stated on a value (\<open>can_fit\<close>,
  \<open>provide_space(obj)\<close>), \<open>access\<close> through an iterator, the ends of the replacement
  order, the hinted insertions (which ignore the hint and return the iterator of the
  unhinted call), and the node handles and insert results of \<open>limited/base.h\<close>.
\<close>

section \<open>Observers, requests and access\<close>

text \<open>
  \<open>empty()\<close> and \<open>size()\<close> ask the index, \<open>weight()\<close>, \<open>capacity()\<close>, \<open>weigher()\<close>
  and \<open>policy()\<close> the manager.
\<close>

definition um_empty :: "('k, 'v, 'p, 'r) umap \<Rightarrow> bool" where
  "um_empty U \<longleftrightarrow> um_index U = Map.empty"

definition um_size :: "('k, 'v, 'p, 'r) umap \<Rightarrow> nat" where
  "um_size U = card (dom (um_index U))"

definition um_weight :: "('k, 'v, 'p, 'r) umap \<Rightarrow> size_t" where
  "um_weight U = cm_weight (um_cm U)"

definition um_capacity :: "('k, 'v, 'p, 'r) umap \<Rightarrow> size_t" where
  "um_capacity U = cm_capacity (um_cm U)"

definition um_weigher :: "('k, 'v, 'p, 'r) umap \<Rightarrow> 'k \<times> 'v \<Rightarrow> size_t" where
  "um_weigher U = cm_weigher (um_cm U)"

definition um_policy :: "('k, 'v, 'p, 'r) umap \<Rightarrow> ('k \<times> 'v, 'r) policy" where
  "um_policy U = cm_policy (um_cm U)"

text \<open>
  \<open>cache_manager::begin()\<close> and \<open>end()\<close>: \<open>++\<close> of the iterator at the sentinel (its
  assertion included), and the sentinel.
\<close>

definition cm_begin :: "('p, 'v) heap \<Rightarrow> ('p, 'v, 'r) cache_manager \<Rightarrow> 'p option" where
  "cm_begin h m = ri_next h (cm_first m)"

definition cm_end :: "('p, 'v, 'r) cache_manager \<Rightarrow> 'p" where
  "cm_end m = cm_first m"

text \<open>\<open>replacement_begin()\<close> and \<open>replacement_end()\<close> of the facade.\<close>

definition um_replacement_begin :: "('k, 'v, 'p, 'r) umap \<Rightarrow> 'p option" where
  "um_replacement_begin U = cm_begin (um_heap U) (um_cm U)"

definition um_replacement_end :: "('k, 'v, 'p, 'r) umap \<Rightarrow> 'p" where
  "um_replacement_end U = cm_end (um_cm U)"

text \<open>\<open>can_fit(weight)\<close> and \<open>can_fit(obj)\<close> of the facade, through the manager's.\<close>

definition um_can_fit :: "size_t \<Rightarrow> ('k, 'v, 'p, 'r) umap \<Rightarrow> bool" where
  "um_can_fit w U = can_fit (um_cm U) w"

definition um_can_fit_obj :: "'k \<times> 'v \<Rightarrow> ('k, 'v, 'p, 'r) umap \<Rightarrow> bool" where
  "um_can_fit_obj kv U = cm_can_fit_val (um_cm U) kv"

text \<open>\<open>provide_space(obj)\<close>: \<open>provide_space(_manager.calculate_weight(obj))\<close>.\<close>

definition um_provide_space_obj ::
  "'k \<times> 'v \<Rightarrow> ('k, 'v, 'p, 'w::len word) umap \<Rightarrow> (('k, 'v, 'p, 'w word) umap \<times> (error + unit)) option" where
  "um_provide_space_obj kv U = um_provide_space (cm_weigher (um_cm U) kv) U"

text \<open>\<open>access(iterator)\<close> and \<open>access(replacement_iterator)\<close>: \<open>_manager.access\<close> of the node.\<close>

definition um_access :: "'p \<Rightarrow> ('k, 'v, 'p, 'w::len word) umap \<Rightarrow> ('k, 'v, 'p, 'w word) umap" where
  "um_access p U = lift_cm (cm_access p) U"

section \<open>Hinted insertions\<close>

text \<open>\<open>emplace_hint(hint, args)\<close>: \<open>emplace(args).first\<close>.\<close>

definition um_emplace_hint ::
  "'p \<Rightarrow> 'k \<Rightarrow> 'v \<Rightarrow> ('k, 'v, 'p, 'w::len word) umap \<Rightarrow> (('k, 'v, 'p, 'w word) umap \<times> (error + 'p)) option" where
  "um_emplace_hint p k v U = map_option (\<lambda>(U', r). (U', map_sum id fst r)) (um_emplace p k v U)"

text \<open>\<open>try_emplace(hint, k, args)\<close>: \<open>try_emplace(k, args).first\<close>.\<close>

definition um_try_emplace_hint ::
  "'p \<Rightarrow> 'k \<Rightarrow> 'v \<Rightarrow> ('k, 'v, 'p, 'w::len word) umap \<Rightarrow> (('k, 'v, 'p, 'w word) umap \<times> (error + 'p)) option" where
  "um_try_emplace_hint p k v U = map_option (\<lambda>(U', r). (U', map_sum id fst r)) (um_try_emplace p k v U)"

text \<open>\<open>insert(hint, value)\<close>: \<open>insert(value).first\<close>.\<close>

definition um_insert_hint ::
  "'p \<Rightarrow> 'k \<times> 'v \<Rightarrow> ('k, 'v, 'p, 'w::len word) umap \<Rightarrow> (('k, 'v, 'p, 'w word) umap \<times> (error + 'p)) option" where
  "um_insert_hint p kv U = map_option (\<lambda>(U', r). (U', map_sum id fst r)) (um_insert p kv U)"

text \<open>\<open>insert(initializer_list)\<close>: \<open>insert(list.begin(), list.end())\<close>.\<close>

definition um_insert_list ::
  "('p \<times> 'k \<times> 'v) list \<Rightarrow> ('k, 'v, 'p, 'w::len word) umap \<Rightarrow>
   (('k, 'v, 'p, 'w word) umap \<times> (error + unit)) option" where
  "um_insert_list items U = um_insert_range items U"

text \<open>\<open>insert_or_assign(hint, k, obj)\<close>: \<open>insert_or_assign(k, obj).first\<close>.\<close>

definition um_insert_or_assign_hint ::
  "'p \<Rightarrow> 'k \<Rightarrow> 'v \<Rightarrow> ('k, 'v, 'p, 'w::len word) umap \<Rightarrow> (('k, 'v, 'p, 'w word) umap \<times> (error + 'p)) option" where
  "um_insert_or_assign_hint p k v U = map_option (\<lambda>(U', r). (U', map_sum id fst r)) (um_insert_or_assign p k v U)"

section \<open>Node handles and insert results\<close>

text \<open>
  A node handle (\<open>key_value_node_wrapper\<close>) owns an extracted node or nothing; its
  \<open>key()\<close> and \<open>mapped()\<close> read the pair held by the node.
\<close>

type_synonym 'p node_handle = "'p option"

definition nh_empty :: "'p node_handle \<Rightarrow> bool" where
  "nh_empty nh \<longleftrightarrow> nh = None"

definition nh_key :: "('p, 'k \<times> 'v) heap \<Rightarrow> 'p \<Rightarrow> 'k" where
  "nh_key h p = fst (node_value h p)"

definition nh_mapped :: "('p, 'k \<times> 'v) heap \<Rightarrow> 'p \<Rightarrow> 'v" where
  "nh_mapped h p = snd (node_value h p)"

text \<open>\<open>swap(other)\<close> of two node handles exchanges the nodes they own.\<close>

definition nh_swap :: "'p node_handle \<Rightarrow> 'p node_handle \<Rightarrow> 'p node_handle \<times> 'p node_handle" where
  "nh_swap x y = (y, x)"

text \<open>
  \<open>key_node_wrapper\<close>, the node handle of a container of keys only, over the same
  heap of nodes: \<open>empty()\<close> and \<open>operator bool\<close>, \<open>value()\<close> (the node's key, here the
  stored value) and \<open>swap\<close>.
\<close>

definition kn_empty :: "'p node_handle \<Rightarrow> bool" where
  "kn_empty nh \<longleftrightarrow> nh = None"

definition kn_value :: "('p, 'v) heap \<Rightarrow> 'p \<Rightarrow> 'v" where
  "kn_value h p = node_value h p"

definition kn_swap :: "'p node_handle \<Rightarrow> 'p node_handle \<Rightarrow> 'p node_handle \<times> 'p node_handle" where
  "kn_swap x y = (y, x)"

text \<open>
  \<open>map_insert_return_type_wrapper\<close>: the position (\<open>None\<close> for \<open>end()\<close>), whether the
  node was inserted, and the node handed back.
\<close>

record 'p insert_return =
  ir_position :: "'p option"
  ir_inserted :: bool
  ir_node :: "'p node_handle"

text \<open>
  \<open>insert(node_type&&)\<close> with its result: an empty handle inserts nothing; a handle
  whose key is present is handed back with the position of the present entry.
\<close>

definition um_insert_nh ::
  "'p node_handle \<Rightarrow> ('k, 'v, 'p, 'w::len word) umap \<Rightarrow>
   (('k, 'v, 'p, 'w word) umap \<times> (error + 'p insert_return)) option" where
  "um_insert_nh nh U =
     (case nh of
        None \<Rightarrow> Some (U, Inr \<lparr>ir_position = None, ir_inserted = False, ir_node = None\<rparr>)
      | Some p \<Rightarrow> map_option (\<lambda>(U', r). (U', map_sum id (\<lambda>(q, b).
                    \<lparr>ir_position = Some q, ir_inserted = b, ir_node = (if b then None else Some p)\<rparr>) r))
                  (um_insert_node p U))"

text \<open>\<open>insert(hint, node_type&&)\<close>: \<open>insert(node).position\<close>.\<close>

definition um_insert_nh_hint ::
  "'p node_handle \<Rightarrow> ('k, 'v, 'p, 'w::len word) umap \<Rightarrow> (('k, 'v, 'p, 'w word) umap \<times> (error + 'p option)) option" where
  "um_insert_nh_hint nh U = map_option (\<lambda>(U', r). (U', map_sum id ir_position r)) (um_insert_nh nh U)"

section \<open>Lookup and erasure by ranges of the index\<close>

text \<open>
  \<open>quiet_equal_range(key)\<close> and \<open>equal_range(key)\<close>: the range of \<open>_map\<close> holding the
  key, as the list of nodes the pair of iterators spans (keys are unique, so the entry
  of the key or nothing); \<open>equal_range\<close> accesses every node of the range.
\<close>

definition um_quiet_equal_range :: "'k \<Rightarrow> ('k, 'v, 'p, 'r) umap \<Rightarrow> 'p list" where
  "um_quiet_equal_range k U = (case um_index U k of None \<Rightarrow> [] | Some p \<Rightarrow> [p])"

definition um_equal_range :: "'k \<Rightarrow> ('k, 'v, 'p, 'w::len word) umap \<Rightarrow> ('k, 'v, 'p, 'w word) umap \<times> 'p list" where
  "um_equal_range k U =
     (let r = um_quiet_equal_range k U in (fold (\<lambda>p. lift_cm (cm_access p)) r U, r))"

text \<open>
  \<open>erase(first, last)\<close> over iterators of the index: \<open>_manager.erase\<close> of each node
  \<open>first\<close> to \<open>last\<close> visits (\<open>ps\<close>, in the hash table's order), then
  \<open>_map.erase(first, last)\<close> drops their keys.
\<close>

definition um_erase_hash_range :: "'p list \<Rightarrow> ('k, 'v, 'p, 'r) umap \<Rightarrow> ('k, 'v, 'p, 'r) umap" where
  "um_erase_hash_range ps U =
     (let U1 = fold (\<lambda>p. lift_cm (cm_erase_node p)) ps U
      in U1\<lparr>um_index := drop_keys (um_heap U1) ps (um_index U1)\<rparr>)"

section \<open>Comparison\<close>

text \<open>
  The abstract map a facade stands for: each key of the index to the mapped value of its
  node.
\<close>

definition um_abs :: "('k, 'v, 'p, 'r) umap \<Rightarrow> 'k \<rightharpoonup> 'v" where
  "um_abs U k = map_option (\<lambda>p. snd (node_value (um_heap U) p)) (um_index U k)"

text \<open>
  \<open>operator==(lhs, rhs)\<close>: equal \<open>size()\<close>, and every entry of \<open>lhs\<close>, met in the
  order \<open>xs\<close> in which \<open>lhs.begin()\<close> to \<open>lhs.end()\<close> visits its nodes, found by
  \<open>rhs.quiet_find\<close> with an equal pair.
\<close>

definition um_equal :: "('k, 'v, 'p, 'r) umap \<Rightarrow> 'p list \<Rightarrow> ('k, 'v, 'p, 'r) umap \<Rightarrow> bool" where
  "um_equal U xs V \<longleftrightarrow>
     um_size U = um_size V \<and>
     list_all (\<lambda>p. case um_quiet_find (key_of (um_heap U) p) V of
                     None \<Rightarrow> False
                   | Some q \<Rightarrow> node_value (um_heap V) q = node_value (um_heap U) p) xs"

text \<open>\<open>operator!=(lhs, rhs)\<close>: \<open>!(lhs == rhs)\<close>.\<close>

definition um_not_equal :: "('k, 'v, 'p, 'r) umap \<Rightarrow> 'p list \<Rightarrow> ('k, 'v, 'p, 'r) umap \<Rightarrow> bool" where
  "um_not_equal U xs V \<longleftrightarrow> \<not> um_equal U xs V"

section \<open>Walking the replacement order\<close>

text \<open>
  C22. On a well-formed map, \<open>replacement_begin()\<close> passes the assertion of \<open>++\<close>
  and returns the first entry of the replacement order; walking \<open>++\<close> from it never
  trips the assertion, visits the entries of the replacement order one by one and first
  reaches \<open>replacement_end()\<close> after the last of them; the keys of the entries visited
  are exactly the keys of the index.
\<close>

theorem um_replacement_walk:
  assumes inv: "um_inv U xs"
  shows "um_replacement_begin U = Some (hd (xs @ [um_replacement_end U])) \<and>
    seg (node_next (um_heap U)) (hd (xs @ [um_replacement_end U])) xs (um_replacement_end U) \<and>
    (\<forall>p \<in> set (um_replacement_end U # xs). ri_next (um_heap U) p = Some (node_next (um_heap U) p)) \<and>
    dom (um_index U) = key_of (um_heap U) ` set xs"
proof -
  let ?h = "um_heap U" and ?s = "cm_first (um_cm U)"
  have r: "dl_ring ?h ?s ([] @ xs)" using cm_inv_ring [OF um_inv_cm [OF inv]] by simp
  have nx: "ri_next ?h p = Some (node_next ?h p)" if "p \<in> set (?s # xs)" for p
  proof -
    have rr: "dl_ring ?h ?s xs" using r by simp
    show ?thesis using ring_links_mirrored [OF rr that] by (simp add: ri_next_def)
  qed
  have "node_next ?h ?s = hd (xs @ [?s])" using dl_ring_links_split(3) [OF r] by simp
  then have "cm_begin ?h (um_cm U) = Some (hd (xs @ [?s]))" using nx [of ?s] by (simp add: cm_begin_def)
  moreover have "seg (node_next ?h) (hd (xs @ [?s])) xs ?s" by (rule dl_ring_suffix_seg [OF r])
  moreover have "dom (um_index U) = key_of ?h ` set xs"
    using inv by (simp add: um_inv_def idx_of_def dom_map_of_conv_image_fst image_image)
  ultimately show ?thesis
    using nx by (simp add: um_replacement_begin_def um_replacement_end_def cm_end_def)
qed

section \<open>Ranges of the index\<close>

text \<open>\<open>equal_range(key)\<close> has the effect of \<open>find(key)\<close> and returns the quiet range.\<close>

lemma um_equal_range_find: "um_equal_range k U = (fst (um_find k U), um_quiet_equal_range k U)"
  by (simp add: um_equal_range_def um_quiet_equal_range_def um_find_def split: option.splits)

text \<open>
  C27. On a well-formed map \<open>equal_range(key)\<close> returns the nodes holding the key (the entry
  of the key or nothing) and keeps the map well-formed, with the entry, if any, moved as
  the policy's access hook says.
\<close>

lemma um_equal_range_inv:
  assumes inv: "um_inv U xs"
  shows "um_inv (fst (um_equal_range k U))
           (case um_index U k of None \<Rightarrow> xs | Some p \<Rightarrow> access_list (cm_policy (um_cm U)) p xs) \<and>
         set (snd (um_equal_range k U)) = {p \<in> set xs. key_of (um_heap U) p = k}"
proof (cases "um_index U k")
  case None
  then have "k \<notin> key_of (um_heap U) ` set xs" using inv by (simp add: um_inv_def idx_of_None)
  then show ?thesis using None inv by (auto simp: um_equal_range_def um_quiet_equal_range_def)
next
  case (Some p)
  have d: "distinct (map (key_of (um_heap U)) xs)" and idx: "um_index U = idx_of (um_heap U) xs"
    using inv by (simp_all add: um_inv_def)
  then have p: "p \<in> set xs" "key_of (um_heap U) p = k" using Some idx_of_Some [OF d] by simp_all
  have "{q \<in> set xs. key_of (um_heap U) q = k} = {p}"
    using p d by (auto simp: distinct_map inj_on_eq_iff)
  then show ?thesis
    using Some um_access_step [OF inv p(1)] by (simp add: um_equal_range_def um_quiet_equal_range_def)
qed

text \<open>Unlinking distinct listed nodes one by one.\<close>

lemma fold_erase_nodes:
  assumes "cm_inv h m xs" and "distinct ps" and "set ps \<subseteq> set xs"
  shows "cm_inv (fst (fold cm_erase_node ps (h, m))) (snd (fold cm_erase_node ps (h, m)))
           (filter (\<lambda>q. q \<notin> set ps) xs) \<and>
         node_value (fst (fold cm_erase_node ps (h, m))) = node_value h \<and>
         node_weight (fst (fold cm_erase_node ps (h, m))) = node_weight h \<and>
         cm_config (snd (fold cm_erase_node ps (h, m))) = cm_config m \<and>
         unat (cm_weight (snd (fold cm_erase_node ps (h, m)))) + unat_sum (node_weight h) ps = unat (cm_weight m)"
  using assms
proof (induction ps arbitrary: h m xs)
  case Nil
  then show ?case by simp
next
  case (Cons p ps)
  obtain as bs where xs: "xs = as @ p # bs" using Cons.prems(3) by (meson list.set_intros(1) split_list subsetD)
  have e: "fst (cm_erase p (h, m)) = cm_erase_node p (h, m)" by (simp add: cm_erase_def Let_def)
  note step = cm_erase_step [OF Cons.prems(1) [unfolded xs], unfolded e]
  obtain h1 m1 where hm: "cm_erase_node p (h, m) = (h1, m1)" by (metis prod.exhaust)
  have inv1: "cm_inv h1 m1 (as @ bs)" and nv: "node_value h1 = node_value h"
    and nw: "node_weight h1 = node_weight h" and cf: "cm_config m1 = cm_config m"
    and w: "unat (cm_weight m1) + unat (node_weight h p) = unat (cm_weight m)"
    using step hm by simp_all
  have ds: "distinct (as @ p # bs)" using dl_ring_distinct [OF cm_inv_ring [OF Cons.prems(1)]] xs by simp
  have dp: "distinct ps" and np: "p \<notin> set ps" using Cons.prems(2) by simp_all
  have sub: "set ps \<subseteq> set (as @ bs)" using Cons.prems(3) np xs by auto
  note ih = Cons.IH [OF inv1 dp sub]
  have "filter (\<lambda>q. q \<noteq> p \<and> q \<notin> set ps) as = filter (\<lambda>q. q \<notin> set ps) as"
    "filter (\<lambda>q. q \<noteq> p \<and> q \<notin> set ps) bs = filter (\<lambda>q. q \<notin> set ps) bs"
    using ds by (auto intro!: filter_cong)
  then have "filter (\<lambda>q. q \<notin> set (p # ps)) (as @ p # bs) = filter (\<lambda>q. q \<notin> set ps) (as @ bs)"
    by simp
  then have flt: "filter (\<lambda>q. q \<notin> set (p # ps)) xs = filter (\<lambda>q. q \<notin> set ps) (as @ bs)" using xs by simp
  have fo: "fold cm_erase_node (p # ps) (h, m) = fold cm_erase_node ps (h1, m1)" using hm by simp
  show ?case unfolding fo flt using ih nv nw cf w by simp
qed

lemma fold_lift_cm:
  "fold (\<lambda>p. lift_cm (f p)) ps U =
     U\<lparr>um_heap := fst (fold f ps (um_heap U, um_cm U)), um_cm := snd (fold f ps (um_heap U, um_cm U))\<rparr>"
  by (induction ps arbitrary: U) (simp_all add: lift_cm_def Let_def)

text \<open>
  C6. \<open>erase(first, last)\<close> over distinct listed nodes removes exactly them from the list
  and the index and lowers the weight by their weights.
\<close>

lemma um_erase_hash_range_inv:
  assumes inv: "um_inv U xs" and d: "distinct ps" and sub: "set ps \<subseteq> set xs"
  shows "um_inv (um_erase_hash_range ps U) (filter (\<lambda>q. q \<notin> set ps) xs) \<and>
    unat (um_weight (um_erase_hash_range ps U)) + unat_sum (node_weight (um_heap U)) ps = unat (um_weight U)"
proof -
  let ?h = "um_heap U" and ?m = "um_cm U"
  let ?st = "fold cm_erase_node ps (?h, ?m)"
  note fe = fold_erase_nodes [OF um_inv_cm [OF inv] d sub]
  have U1: "fold (\<lambda>p. lift_cm (cm_erase_node p)) ps U = U\<lparr>um_heap := fst ?st, um_cm := snd ?st\<rparr>"
    by (rule fold_lift_cm)
  have "drop_keys (fst ?st) ps = drop_keys ?h ps"
    using fe by (intro drop_keys_cong) (simp add: key_of_def)
  then have "evicted U xs ps (um_erase_hash_range ps U)"
    using fe d sub by (simp add: evicted_def um_erase_hash_range_def U1)
  then show ?thesis
    using evicted_um_inv [OF inv] fe by (simp add: um_erase_hash_range_def U1 um_weight_def)
qed

section \<open>Size and equality of maps\<close>

lemma card_keys:
  "distinct (map (key_of h) xs) \<Longrightarrow> card (key_of h ` set xs) = length xs"
  by (simp add: distinct_map card_image distinct_card)

lemma dom_um_index:
  assumes "um_inv U xs"
  shows "dom (um_index U) = key_of (um_heap U) ` set xs"
  using assms idx_of_None [of "um_heap U" xs] by (simp add: um_inv_def dom_def set_eq_iff)

text \<open>\<open>size()\<close> of a well-formed map is the length of its replacement list.\<close>

lemma um_size_inv:
  assumes "um_inv U xs"
  shows "um_size U = length xs \<and> (um_empty U \<longleftrightarrow> xs = [])"
proof -
  have "distinct (map (key_of (um_heap U)) xs)" using assms by (simp add: um_inv_def)
  then have "card (dom (um_index U)) = length xs"
    using dom_um_index [OF assms] card_keys by simp
  moreover have "um_index U = Map.empty \<longleftrightarrow> xs = []"
    using dom_um_index [OF assms] by (metis dom_empty empty_is_image set_empty2 dom_eq_empty_conv)
  ultimately show ?thesis by (simp add: um_size_def um_empty_def)
qed

lemma um_abs_Some:
  assumes "um_inv U xs"
  shows "um_abs U k = Some v \<longleftrightarrow> (\<exists>p \<in> set xs. node_value (um_heap U) p = (k, v))"
  using assms idx_of_Some [of "um_heap U" xs]
  by (auto simp: um_abs_def um_inv_def key_of_def prod_eq_iff)

lemma dom_um_abs:
  assumes "um_inv U xs"
  shows "dom (um_abs U) = key_of (um_heap U) ` set xs"
proof -
  have "dom (um_abs U) = dom (um_index U)" by (auto simp: um_abs_def)
  then show ?thesis using dom_um_index [OF assms] by simp
qed

text \<open>
  C39. On two well-formed maps, \<open>operator==\<close> holds exactly when they stand for the
  same map from keys to mapped values, whatever order \<open>lhs.begin()\<close> to \<open>lhs.end()\<close>
  visits the nodes of \<open>lhs\<close> in.
\<close>

theorem um_equal_abs:
  assumes iu: "um_inv U xs" and iv: "um_inv V ys" and perm: "mset zs = mset xs"
  shows "um_equal U zs V \<longleftrightarrow> um_abs U = um_abs V"
proof -
  let ?hU = "um_heap U" and ?hV = "um_heap V"
  have dU: "distinct (map (key_of ?hU) xs)" and dV: "distinct (map (key_of ?hV) ys)"
    using iu iv by (simp_all add: um_inv_def)
  have domU: "dom (um_abs U) = key_of ?hU ` set xs" and domV: "dom (um_abs V) = key_of ?hV ` set ys"
    using dom_um_abs [OF iu] dom_um_abs [OF iv] by simp_all
  have fV: "um_index V = idx_of ?hV ys" using iv by (simp add: um_inv_def)
  have sz: "um_size U = length xs" "um_size V = length ys"
    using um_size_inv [OF iu] um_size_inv [OF iv] by simp_all
  have sx: "set zs = set xs" using mset_eq_setD [OF perm] .
  show ?thesis
  proof
    assume eq: "um_equal U zs V"
    have sub: "um_abs U k = Some v \<Longrightarrow> um_abs V k = Some v" for k v
    proof -
      assume "um_abs U k = Some v"
      then obtain p where p: "p \<in> set zs" "node_value ?hU p = (k, v)" using um_abs_Some [OF iu] sx by blast
      then obtain q where "um_index V k = Some q" "node_value ?hV q = (k, v)"
        using eq by (auto simp: um_equal_def um_quiet_find_def list_all_iff key_of_def split: option.splits)
      then show ?thesis by (simp add: um_abs_def)
    qed
    then have "dom (um_abs U) \<subseteq> dom (um_abs V)" by auto
    moreover have "card (dom (um_abs U)) = card (dom (um_abs V))"
      using eq sz domU domV card_keys [OF dU] card_keys [OF dV] by (simp add: um_equal_def)
    ultimately have dm: "dom (um_abs U) = dom (um_abs V)" by (simp add: card_subset_eq domV)
    show "um_abs U = um_abs V"
    proof
      fix k
      show "um_abs U k = um_abs V k"
      proof (cases "um_abs U k")
        case None
        then have "k \<notin> dom (um_abs V)" using dm by blast
        then show ?thesis using None by (simp add: domIff)
      qed (simp add: sub)
    qed
  next
    assume eq: "um_abs U = um_abs V"
    then have "card (key_of ?hU ` set xs) = card (key_of ?hV ` set ys)" using domU domV by simp
    then have len: "um_size U = um_size V" using card_keys [OF dU] card_keys [OF dV] sz by simp
    have "case um_quiet_find (key_of ?hU p) V of None \<Rightarrow> False | Some q \<Rightarrow> node_value ?hV q = node_value ?hU p"
      if p: "p \<in> set zs" for p
    proof -
      obtain k v where kv: "node_value ?hU p = (k, v)" by (cases "node_value ?hU p")
      then have "um_abs U k = Some v" using um_abs_Some [OF iu] p sx by blast
      then have "um_abs V k = Some v" using eq by simp
      then obtain q where q: "um_index V k = Some q" "snd (node_value ?hV q) = v"
        by (auto simp: um_abs_def)
      then have "key_of ?hV q = k" using fV idx_of_Some [OF dV] by simp
      then show ?thesis using q kv by (simp add: um_quiet_find_def key_of_def prod_eq_iff)
    qed
    then show "um_equal U zs V" using len by (simp add: um_equal_def list_all_iff)
  qed
qed

end
