(* ===== verification/Limited_Copy.thy ===== *)
theory Limited_Copy
  imports Limited_Api
begin

text \<open>
  Copying, moving and swapping whole maps (\<open>limited/unordered_map.h\<close>): the copy
  constructor, which builds a map with the other's capacity, weigher and policy from the
  range \<open>other.begin(), other.end()\<close>, and the copy assignment, which replaces the
  manager by a fresh one with the other's configuration, clears the index and inserts
  the other's range. The range
  is iterated in the hash table's order, which the model leaves open: \<open>enum V\<close> is the
  list of nodes \<open>begin()\<close> to \<open>end()\<close> of \<open>V\<close> visits. The copy assignment works on a
  store of maps, so that its source may be the map assigned to. The defaulted move
  assignment and \<open>swap\<close> act on two maps over one memory.
\<close>

section \<open>Copy construction\<close>

text \<open>
  \<open>unordered_map(const unordered_map& other)\<close>: delegate to the range constructor with
  \<open>other.begin(), other.end()\<close> and the other's capacity, weigher and policy; \<open>ps\<close> are
  the addresses the allocator gives the copied nodes.
\<close>

definition um_copy ::
  "(('k, 'v, 'p, 'w::len word) umap \<Rightarrow> 'p list) \<Rightarrow> 'p list \<Rightarrow> 'p \<Rightarrow> ('p, 'k \<times> 'v) heap \<Rightarrow>
   ('k, 'v, 'p, 'w word) umap \<Rightarrow> (('k, 'v, 'p, 'w word) umap \<times> (error + unit)) option" where
  "um_copy enum ps s h V =
     um_from_range (zip ps (map (node_value (um_heap V)) (enum V)))
       (cm_capacity (um_cm V)) (cm_weigher (um_cm V)) (cm_policy (um_cm V)) s h"

section \<open>Copy assignment\<close>

text \<open>
  \<open>operator=(const unordered_map& other)\<close> on the map \<open>this\<close> of a store \<open>st\<close>:
  move-assign a manager constructed with the other's configuration (its sentinel at
  \<open>s'\<close>) to \<open>_manager\<close>, clear \<open>_map\<close>, then \<open>insert(other.begin(), other.end())\<close>,
  reading \<open>other\<close> after the clear. A \<open>no_space_error\<close> of the insertion trips the debug
  build's assertion, the value \<open>None\<close>; \<open>_map.reserve\<close> sizes the hash table only.
\<close>

definition um_copy_assign ::
  "(('k, 'v, 'p, 'w::len word) umap \<Rightarrow> 'p list) \<Rightarrow> 'p list \<Rightarrow> 'p \<Rightarrow> 'o \<Rightarrow> 'o \<Rightarrow>
   ('o \<Rightarrow> ('k, 'v, 'p, 'w word) umap) \<Rightarrow> ('o \<Rightarrow> ('k, 'v, 'p, 'w word) umap) option" where
  "um_copy_assign enum ps s' this other st =
     (let V = st other; U = st this;
          (h1, m1) = cm_construct (cm_capacity (um_cm V)) (cm_weigher (um_cm V)) (cm_policy (um_cm V)) s' (um_heap U);
          (h2, m2, m3) = cm_move_assign h1 (um_cm U) m1;
          st1 = st(this := \<lparr>um_index = Map.empty, um_heap = h2, um_cm = m2\<rparr>);
          V1 = st1 other
      in case um_insert_range (zip ps (map (node_value (um_heap V1)) (enum V1))) (st1 this) of
           None \<Rightarrow> None
         | Some (U', r) \<Rightarrow> (case r of Inl e \<Rightarrow> None | Inr u \<Rightarrow> Some (st1(this := U'))))"

section \<open>Move assignment\<close>

text \<open>
  \<open>operator=(unordered_map&&) = default\<close>: \<open>_map\<close> is move-assigned, so the map takes
  the other's index, then \<open>_manager\<close> is move-assigned. The moved-from
  \<open>std::unordered_map\<close> is valid but unspecified; the model takes it empty, as the
  standard library's node-based tables leave it. The two maps live in one memory, the
  heap of the first.
\<close>

definition um_move_assign ::
  "('k, 'v, 'p, 'r) umap \<Rightarrow> ('k, 'v, 'p, 'r) umap \<Rightarrow> ('k, 'v, 'p, 'r) umap \<times> ('k, 'v, 'p, 'r) umap" where
  "um_move_assign U V =
     (let (h', m1, m2) = cm_move_assign (um_heap U) (um_cm U) (um_cm V)
      in (\<lparr>um_index = um_index V, um_heap = h', um_cm = m1\<rparr>, \<lparr>um_index = Map.empty, um_heap = h', um_cm = m2\<rparr>))"

section \<open>Swap\<close>

text \<open>
  \<open>swap(other)\<close>: \<open>_map.swap(other._map)\<close> exchanges the indexes,
  \<open>_manager.swap(other._manager)\<close> the lists. The two maps live in one memory, the
  heap of the first.
\<close>

definition um_swap ::
  "('k, 'v, 'p, 'r) umap \<Rightarrow> ('k, 'v, 'p, 'r) umap \<Rightarrow> ('k, 'v, 'p, 'r) umap \<times> ('k, 'v, 'p, 'r) umap" where
  "um_swap U V =
     (let (h', m1, m2) = cm_swap (um_heap U) (um_cm U) (um_cm V)
      in (\<lparr>um_index = um_index V, um_heap = h', um_cm = m1\<rparr>, \<lparr>um_index = um_index U, um_heap = h', um_cm = m2\<rparr>))"

section \<open>The abstract map of a well-formed map\<close>

lemma idx_of_abs:
  "map_option (\<lambda>p. snd (node_value h p)) (idx_of h ys k) = map_of (map (node_value h) ys) k"
  by (induction ys) (auto simp: idx_of_def key_of_def)

lemma um_abs_map_of:
  assumes "um_inv U xs"
  shows "um_abs U = map_of (map (node_value (um_heap U)) xs)"
proof
  fix k
  show "um_abs U k = map_of (map (node_value (um_heap U)) xs) k"
    using assms idx_of_abs [of "um_heap U" xs k] by (simp add: um_abs_def um_inv_def)
qed

section \<open>A range inserted into an empty map\<close>

text \<open>
  A range with fresh addresses and distinct keys that fits the capacity, inserted into
  an empty well-formed map, gives a well-formed map whose abstract map is the range's.
\<close>

lemma range_new_abs:
  assumes inv: "um_inv U []" and fresh: "distinct (map fst items @ [cm_first (um_cm U)])"
    and dk: "distinct (map (fst \<circ> snd) items)"
    and fit: "unat_sum (cm_weigher (um_cm U) \<circ> snd) items \<le> unat (cm_capacity (um_cm U))"
  shows "\<exists>U' zs. um_insert_range items U = Some (U', Inr ()) \<and> um_inv U' zs \<and>
    cm_config (um_cm U') = cm_config (um_cm U) \<and> um_abs U' = map_of (map snd items)"
proof -
  let ?m = "um_cm U"
  have w0: "unat (cm_weight ?m) = 0" using inv by (simp add: um_inv_def cm_inv_def)
  have fr: "distinct (map fst items @ cm_first ?m # [])" using fresh by simp
  have ft: "unat (cm_weight ?m) + unat_sum (cm_weigher ?m \<circ> snd) items \<le> unat (cm_capacity ?m)"
    using fit w0 by simp
  have nowrap: "unat_sum (cm_weigher ?m \<circ> snd) items < 2 ^ 64"
    using fit unat_bound [of "cm_capacity ?m"] by simp
  obtain U1 ins w1 where ri: "range_index items U [] 0 = (U1, ins, w1)" by (metis prod.exhaust)
  from range_fits_result [OF inv fr ft ri]
  have f0: "unat (cm_weight ?m) + unat w1 \<le> unat (cm_capacity ?m)"
    and res: "um_insert_range items U = Some (fold (\<lambda>p. lift_cm (cm_insert p)) ins U1, Inr ())"
    by blast+
  then have nc: "\<not> cm_capacity ?m < w1" by (simp add: word_less_nat_alt)
  have m1: "um_cm U1 = ?m" and inv1: "cm_inv (um_heap U1) (um_cm U1) []"
    and d1: "distinct (map (key_of (um_heap U1)) ([] @ ins))"
    and idx1: "um_index U1 = idx_of (um_heap U1) ([] @ ins)"
    and fr1: "distinct (ins @ cm_first (um_cm U1) # [])"
    and w1: "unat w1 = unat_sum (calculate_weight (um_heap U1) (um_cm U1)) ins"
    and keys: "cm_capacity ?m < w1 \<or> (\<forall>it \<in> set items. fst (snd it) \<in> key_of (um_heap U1) ` set ([] @ ins))"
    using range_first_phase [OF inv fr nowrap ri] by blast+
  have ft1: "unat (cm_weight (um_cm U1)) + unat_sum (calculate_weight (um_heap U1) (um_cm U1)) ins
      \<le> unat (cm_capacity (um_cm U1))"
    using f0 w1 m1 by simp
  let ?U' = "fold (\<lambda>p. lift_cm (cm_insert p)) ins U1"
  let ?zs = "fold (insert_list (cm_policy (um_cm U1))) ins []"
  have inv': "um_inv ?U' ?zs" and nv: "node_value (um_heap ?U') = node_value (um_heap U1)"
    and cfg: "cm_config (um_cm ?U') = cm_config (um_cm U1)"
    using thread_ok [OF inv1 d1 idx1 fr1 ft1] by simp_all
  have vals: "\<forall>q \<in> set ins. (q, node_value (um_heap U1) q) \<in> set items"
    using range_index_values [OF ri] fresh by simp
  have zs: "set ?zs = set ins" by (simp add: set_fold_insert_list)
  have inj: "inj_on (fst \<circ> snd) (set items)" using dk by (simp add: distinct_map)
  have "set (map (node_value (um_heap ?U')) ?zs) = snd ` set items"
  proof
    show "set (map (node_value (um_heap ?U')) ?zs) \<subseteq> snd ` set items"
      using vals zs nv by force
    show "snd ` set items \<subseteq> set (map (node_value (um_heap ?U')) ?zs)"
    proof
      fix kv
      assume "kv \<in> snd ` set items"
      then obtain p where pi: "(p, kv) \<in> set items" by force
      obtain q where q: "q \<in> set ins" "fst kv = key_of (um_heap U1) q"
        using keys nc pi by force
      have qi: "(q, node_value (um_heap U1) q) \<in> set items" using vals q(1) by blast
      have "(p, kv) = (q, node_value (um_heap U1) q)"
        using inj_onD [OF inj _ pi qi] q(2) by (simp add: key_of_def)
      then show "kv \<in> set (map (node_value (um_heap ?U')) ?zs)" using q(1) zs nv by force
    qed
  qed
  moreover have "distinct (map fst (map (node_value (um_heap ?U')) ?zs))"
    using inv' by (simp add: um_inv_def key_of_def [abs_def] comp_def)
  moreover have "distinct (map fst (map snd items))" using dk by simp
  ultimately have "um_abs ?U' = map_of (map snd items)"
    by (simp add: um_abs_map_of [OF inv'] map_of_inject_set)
  moreover have "cm_config (um_cm ?U') = cm_config ?m" using cfg m1 by simp
  ultimately show ?thesis using res inv' by blast
qed

section \<open>Copying the entries of a map\<close>

text \<open>
  The entries of a well-formed map \<open>V\<close>, visited in any order \<open>ys\<close> and inserted with
  fresh addresses into an empty well-formed map of the same weigher and capacity, give a
  well-formed map with the abstract map of \<open>V\<close>.
\<close>

lemma copy_items_abs:
  assumes inv: "um_inv U0 []" and wt: "cm_weigher (um_cm U0) = cm_weigher (um_cm V)"
    and cap: "cm_capacity (um_cm U0) = cm_capacity (um_cm V)"
    and iv: "um_inv V xs" and perm: "mset ys = mset xs" and len: "length ps = length ys"
    and fresh: "distinct (ps @ [cm_first (um_cm U0)])"
  shows "\<exists>U' zs. um_insert_range (zip ps (map (node_value (um_heap V)) ys)) U0 = Some (U', Inr ()) \<and>
    um_inv U' zs \<and> cm_config (um_cm U') = cm_config (um_cm U0) \<and> um_abs U' = um_abs V"
proof -
  let ?hV = "um_heap V" and ?mV = "um_cm V"
  let ?items = "zip ps (map (node_value ?hV) ys)"
  have ms: "map snd ?items = map (node_value ?hV) ys" using len by simp
  have fr: "distinct (map fst ?items @ [cm_first (um_cm U0)])" using fresh len by simp
  have dV: "distinct (map (key_of ?hV) xs)" using iv by (simp add: um_inv_def)
  have dY: "distinct (map (key_of ?hV) ys)" using idx_of_perm [OF perm dV] by blast
  have "map (fst \<circ> snd) ?items = map (key_of ?hV) ys"
    using arg_cong [OF ms, of "map fst"] by (simp add: key_of_def [abs_def] comp_def)
  then have dk: "distinct (map (fst \<circ> snd) ?items)" using dY by simp
  have cinv: "cm_inv ?hV ?mV xs" using iv by (simp add: um_inv_def)
  have "unat_sum (cm_weigher (um_cm U0) \<circ> snd) ?items = unat_sum (cm_weigher ?mV \<circ> node_value ?hV) ys"
    using arg_cong [OF ms, of "unat_sum (cm_weigher ?mV)"] wt by (simp add: unat_sum_map)
  also have "\<dots> = unat_sum (cm_weigher ?mV \<circ> node_value ?hV) xs" using perm by (rule unat_sum_mset)
  also have "\<dots> = unat_sum (node_weight ?hV) xs"
    using cinv by (intro unat_sum_cong) (simp add: cm_inv_def list_all_iff)
  also have "\<dots> \<le> unat (cm_capacity (um_cm U0))"
    using cinv cap by (simp add: cm_inv_def word_le_nat_alt)
  finally have fit: "unat_sum (cm_weigher (um_cm U0) \<circ> snd) ?items \<le> unat (cm_capacity (um_cm U0))" .
  from range_new_abs [OF inv fr dk fit] obtain U' zs
    where r: "um_insert_range ?items U0 = Some (U', Inr ())" "um_inv U' zs"
      "cm_config (um_cm U') = cm_config (um_cm U0)" and a: "um_abs U' = map_of (map snd ?items)"
    by blast
  have "set (map (node_value ?hV) ys) = set (map (node_value ?hV) xs)"
    using mset_eq_setD [OF perm] by simp
  then have "map_of (map (node_value ?hV) ys) = map_of (map (node_value ?hV) xs)"
    using dV dY by (simp add: map_of_inject_set key_of_def [abs_def] comp_def)
  then have "um_abs U' = um_abs V" using a ms um_abs_map_of [OF iv] by simp
  then show ?thesis using r by blast
qed

text \<open>
  Move-assigning a newly constructed manager empties the assigned one under its own
  sentinel and gives it the new configuration.
\<close>

lemma move_assign_fresh:
  assumes "cm_construct c wt pol s' h = (h1, m1)" and "cm_move_assign h1 m m1 = (h2, m2, m3)"
  shows "cm_inv h2 m2 [] \<and> cm_config m2 = (c, cm_first m, wt, pol)"
  using assms
  by (auto simp: cm_construct_def cm_move_assign_def Let_def fix_first_def copy_links_def link_def
      cm_inv_def dl_ring_def cm_config_def)

section \<open>The copy constructor\<close>

text \<open>
  C20. The copy constructor, with fresh addresses for the copied nodes and its sentinel,
  visiting the other's entries in any order, returns without \<open>no_space_error\<close> a
  well-formed map that stands for the same abstract map as the other, with the other's
  capacity, weigher and policy.
\<close>

theorem um_copy_correct:
  assumes iv: "um_inv V xs" and perm: "mset (enum V) = mset xs" and len: "length ps = length xs"
    and fresh: "distinct (ps @ [s])"
  shows "\<exists>U' zs. um_copy enum ps s h V = Some (U', Inr ()) \<and> um_inv U' zs \<and> um_abs U' = um_abs V \<and>
    cm_config (um_cm U') = (cm_capacity (um_cm V), s, cm_weigher (um_cm V), cm_policy (um_cm V))"
proof -
  let ?U0 = "um_new (cm_capacity (um_cm V)) (cm_weigher (um_cm V)) (cm_policy (um_cm V)) s h"
  have inv0: "um_inv ?U0 []"
    and cfg: "cm_config (um_cm ?U0) = (cm_capacity (um_cm V), s, cm_weigher (um_cm V), cm_policy (um_cm V))"
    using um_new_inv [of "cm_capacity (um_cm V)" "cm_weigher (um_cm V)" "cm_policy (um_cm V)" s h] by simp_all
  have cf: "cm_weigher (um_cm ?U0) = cm_weigher (um_cm V)" "cm_capacity (um_cm ?U0) = cm_capacity (um_cm V)"
    "cm_first (um_cm ?U0) = s"
    using cfg by (simp_all add: cm_config_def)
  have len': "length ps = length (enum V)" using len perm by (metis size_mset)
  have fr: "distinct (ps @ [cm_first (um_cm ?U0)])" using fresh cf by simp
  from copy_items_abs [OF inv0 cf(1) cf(2) iv perm len' fr] obtain U' zs
    where r: "um_insert_range (zip ps (map (node_value (um_heap V)) (enum V))) ?U0 = Some (U', Inr ())"
      and rest: "um_inv U' zs" "cm_config (um_cm U') = cm_config (um_cm ?U0)" "um_abs U' = um_abs V"
    by blast
  have "um_copy enum ps s h V = Some (U', Inr ())" using r by (simp add: um_copy_def um_from_range_def)
  then show ?thesis using rest cfg by auto
qed

section \<open>The copy assignment\<close>

text \<open>
  C21. Copy assignment from another map of the store, with fresh addresses for the copied
  nodes, visiting the other's entries in any order, returns; the assigned map is
  well-formed under its own sentinel, stands for the same abstract map as the other and
  takes the other's capacity, weigher and policy; no other map of the store changes.
\<close>

theorem um_copy_assign_correct:
  assumes ne: "this \<noteq> other" and iv: "um_inv (st other) xs" and perm: "mset (enum (st other)) = mset xs"
    and len: "length ps = length xs" and fresh: "distinct (ps @ [cm_first (um_cm (st this))])"
  shows "\<exists>U' zs. um_copy_assign enum ps s' this other st = Some (st(this := U')) \<and> um_inv U' zs \<and>
    um_abs U' = um_abs (st other) \<and>
    cm_config (um_cm U') = (cm_capacity (um_cm (st other)), cm_first (um_cm (st this)),
                            cm_weigher (um_cm (st other)), cm_policy (um_cm (st other)))"
proof -
  let ?V = "st other" and ?U = "st this"
  obtain h1 m1 where c: "cm_construct (cm_capacity (um_cm ?V)) (cm_weigher (um_cm ?V)) (cm_policy (um_cm ?V))
      s' (um_heap ?U) = (h1, m1)" by (metis prod.exhaust)
  obtain h2 m2 m3 where a: "cm_move_assign h1 (um_cm ?U) m1 = (h2, m2, m3)" by (metis prod.exhaust)
  define U0 where "U0 = \<lparr>um_index = Map.empty, um_heap = h2, um_cm = m2\<rparr>"
  have ci: "cm_inv h2 m2 []"
    and cfg: "cm_config m2 = (cm_capacity (um_cm ?V), cm_first (um_cm ?U), cm_weigher (um_cm ?V), cm_policy (um_cm ?V))"
    using move_assign_fresh [OF c a] by blast+
  have inv0: "um_inv U0 []" using ci by (simp add: U0_def um_inv_def idx_of_def)
  have cf: "cm_weigher (um_cm U0) = cm_weigher (um_cm ?V)" "cm_capacity (um_cm U0) = cm_capacity (um_cm ?V)"
    "cm_first (um_cm U0) = cm_first (um_cm ?U)"
    using cfg by (simp_all add: U0_def cm_config_def)
  have len': "length ps = length (enum ?V)" using len perm by (metis size_mset)
  have fr: "distinct (ps @ [cm_first (um_cm U0)])" using fresh cf by simp
  from copy_items_abs [OF inv0 cf(1) cf(2) iv perm len' fr] obtain U' zs
    where r: "um_insert_range (zip ps (map (node_value (um_heap ?V)) (enum ?V))) U0 = Some (U', Inr ())"
      and rest: "um_inv U' zs" "cm_config (um_cm U') = cm_config (um_cm U0)" "um_abs U' = um_abs ?V"
    by blast
  have "um_copy_assign enum ps s' this other st = Some (st(this := U'))"
    using r ne by (simp add: um_copy_assign_def c a U0_def [symmetric])
  then show ?thesis using rest cfg by (auto simp: U0_def)
qed

text \<open>
  C16. Self-assignment \<open>x = x\<close> empties the map: the clear runs before the range
  \<open>x.begin(), x.end()\<close> is read, so whatever the hash order, nothing is copied back.
\<close>

theorem um_copy_assign_self:
  assumes en: "\<forall>V. um_index V = Map.empty \<longrightarrow> enum V = []"
  shows "\<exists>U'. um_copy_assign enum ps s' this this st = Some (st(this := U')) \<and> um_inv U' [] \<and>
    um_abs U' = Map.empty"
proof -
  let ?U = "st this"
  obtain h1 m1 where c: "cm_construct (cm_capacity (um_cm ?U)) (cm_weigher (um_cm ?U)) (cm_policy (um_cm ?U))
      s' (um_heap ?U) = (h1, m1)" by (metis prod.exhaust)
  obtain h2 m2 m3 where a: "cm_move_assign h1 (um_cm ?U) m1 = (h2, m2, m3)" by (metis prod.exhaust)
  define U0 where "U0 = \<lparr>um_index = Map.empty, um_heap = h2, um_cm = m2\<rparr>"
  have ci: "cm_inv h2 m2 []" using move_assign_fresh [OF c a] by blast
  have inv0: "um_inv U0 []" using ci by (simp add: U0_def um_inv_def idx_of_def)
  have e: "enum U0 = []" using en by (simp add: U0_def)
  have "um_insert_range [] U0 = Some (U0, Inr ())" by (simp add: um_insert_range_def provideSpace_def)
  then have "um_copy_assign enum ps s' this this st = Some (st(this := U0))"
    using e by (simp add: um_copy_assign_def c a U0_def [symmetric])
  moreover have "um_abs U0 = Map.empty" by (simp add: U0_def um_abs_def [abs_def])
  ultimately show ?thesis using inv0 by blast
qed

section \<open>Moving a map by assignment\<close>

text \<open>
  C15. Move assignment from a well-formed map over the same memory whose list does not hold
  the assigned map's sentinel: the assigned map is well-formed with the other's list,
  index and abstract map under its own sentinel; the moved-from map is a valid empty map
  of capacity 0.
\<close>

lemma um_move_assign_inv:
  assumes iv: "um_inv V xs" and hv: "um_heap V = um_heap U"
    and fr: "cm_first (um_cm U) \<notin> set (cm_first (um_cm V) # xs)"
  shows "um_inv (fst (um_move_assign U V)) xs \<and> um_abs (fst (um_move_assign U V)) = um_abs V \<and>
    cm_first (um_cm (fst (um_move_assign U V))) = cm_first (um_cm U) \<and>
    um_inv (snd (um_move_assign U V)) [] \<and> cm_capacity (um_cm (snd (um_move_assign U V))) = 0"
proof -
  let ?h = "um_heap U"
  obtain h' m1 m2 where mv: "cm_move_assign ?h (um_cm U) (um_cm V) = (h', m1, m2)" by (metis prod.exhaust)
  have i2: "cm_inv ?h (um_cm V) xs" using iv hv by (simp add: um_inv_def)
  note ok = cm_move_assign_ok [OF i2 fr mv]
  have nv: "node_value h' = node_value ?h" using ok by simp
  then have kv: "key_of h' = key_of ?h" by (simp add: key_of_def [abs_def])
  have r: "um_move_assign U V = (\<lparr>um_index = um_index V, um_heap = h', um_cm = m1\<rparr>,
      \<lparr>um_index = Map.empty, um_heap = h', um_cm = m2\<rparr>)"
    using mv by (simp add: um_move_assign_def)
  have "um_inv (fst (um_move_assign U V)) xs \<and> um_inv (snd (um_move_assign U V)) []"
    using ok iv hv kv r by (simp add: um_inv_def idx_of_def)
  moreover have "um_abs (fst (um_move_assign U V)) = um_abs V"
    using nv hv r by (simp add: um_abs_def [abs_def])
  moreover have "cm_first m1 = cm_first (um_cm U)" using ok by (simp add: cm_config_def)
  ultimately show ?thesis using r ok by simp
qed

section \<open>Swapping two maps\<close>

text \<open>
  C14. \<open>swap\<close> of two well-formed maps over one memory with disjoint lists exchanges them:
  each keeps its sentinel and takes the other's list, index, abstract map and
  configuration.
\<close>

lemma um_swap_inv:
  assumes iu: "um_inv U xs" and iv: "um_inv V ys" and hv: "um_heap V = um_heap U"
    and dj: "set (cm_first (um_cm U) # xs) \<inter> set (cm_first (um_cm V) # ys) = {}"
  shows "um_inv (fst (um_swap U V)) ys \<and> um_inv (snd (um_swap U V)) xs \<and>
    um_abs (fst (um_swap U V)) = um_abs V \<and> um_abs (snd (um_swap U V)) = um_abs U \<and>
    cm_first (um_cm (fst (um_swap U V))) = cm_first (um_cm U) \<and>
    cm_first (um_cm (snd (um_swap U V))) = cm_first (um_cm V)"
proof -
  let ?h = "um_heap U"
  obtain h' m1 m2 where sw: "cm_swap ?h (um_cm U) (um_cm V) = (h', m1, m2)" by (metis prod.exhaust)
  have i2: "cm_inv ?h (um_cm V) ys" using iv hv by (simp add: um_inv_def)
  note ok = cm_swap_ok [OF um_inv_cm [OF iu] i2 dj sw]
  have nv: "node_value h' = node_value ?h" using ok by simp
  then have kv: "key_of h' = key_of ?h" by (simp add: key_of_def [abs_def])
  have r: "um_swap U V = (\<lparr>um_index = um_index V, um_heap = h', um_cm = m1\<rparr>,
      \<lparr>um_index = um_index U, um_heap = h', um_cm = m2\<rparr>)"
    using sw by (simp add: um_swap_def)
  have "um_inv (fst (um_swap U V)) ys \<and> um_inv (snd (um_swap U V)) xs"
    using ok iu iv hv kv r by (simp add: um_inv_def idx_of_def)
  moreover have "um_abs (fst (um_swap U V)) = um_abs V \<and> um_abs (snd (um_swap U V)) = um_abs U"
    using nv hv r by (simp add: um_abs_def [abs_def])
  moreover have "cm_first m1 = cm_first (um_cm U) \<and> cm_first m2 = cm_first (um_cm V)"
    using ok by (simp add: cm_config_def)
  ultimately show ?thesis using r by simp
qed

end
