(* ===== verification/Limited_Iter.thy ===== *)
theory Limited_Iter
  imports Limited_Copy
begin

text \<open>
  Iteration in index order (\<open>limited/base.h\<close>, \<open>wrapped_iterator\<close>, and
  \<open>begin()\<close>, \<open>end()\<close> of \<open>limited/unordered_map.h\<close>). The hash table's iterators are
  modelled by the list \<open>hs\<close> of the nodes they visit, in the table's order: an iterator
  is the node it points at, or \<open>None\<close> for \<open>end()\<close>, and \<open>++\<close> steps to the next
  node of \<open>hs\<close>. The lemmas show that the loop \<open>for (it = begin(); it != end(); ++it)\<close>
  returns and reads the entries in that order, and that, on a well-formed map whose
  nodes \<open>hs\<close> lists, the pairs it reads make up the map's abstract map.
\<close>

section \<open>Iterators\<close>

type_synonym 'p map_iterator = "'p option"

text \<open>\<open>begin()\<close>, \<open>cbegin()\<close> and \<open>end()\<close>, \<open>cend()\<close>: \<open>_map.begin()\<close> and \<open>_map.end()\<close>.\<close>

definition um_begin :: "'p list \<Rightarrow> 'p map_iterator" where
  "um_begin hs = (case hs of [] \<Rightarrow> None | p # ps \<Rightarrow> Some p)"

definition um_end :: "'p map_iterator" where
  "um_end = None"

text \<open>\<open>wrapped_iterator::operator*\<close> and \<open>operator->\<close>: the stored pair \<open>_iterator->first\<close>.\<close>

definition wi_deref :: "('p, 'k \<times> 'v) heap \<Rightarrow> 'p \<Rightarrow> 'k \<times> 'v" where
  "wi_deref h p = node_value h p"

text \<open>\<open>wrapped_iterator::operator++\<close>: \<open>++_iterator\<close>, the next node of the table's order.\<close>

fun wi_next :: "'p list \<Rightarrow> 'p \<Rightarrow> 'p map_iterator" where
  "wi_next [] p = None"
| "wi_next (q # qs) p = (if q = p then um_begin qs else wi_next qs p)"

text \<open>\<open>wrapped_iterator::operator==\<close> and \<open>operator!=\<close>: the wrapped iterators compared.\<close>

definition wi_eq :: "'p map_iterator \<Rightarrow> 'p map_iterator \<Rightarrow> bool" where
  "wi_eq it1 it2 \<longleftrightarrow> it1 = it2"

text \<open>
  The loop \<open>for (it = first; it != end(); ++it)\<close> reading \<open>*it\<close>, as the facade runs it
  in \<open>operator==\<close> and in the copy operations; \<open>None\<close> would be a loop that never ends.
\<close>

partial_function (option) wi_read ::
  "'p list \<Rightarrow> ('p, 'k \<times> 'v) heap \<Rightarrow> 'p map_iterator \<Rightarrow> ('k \<times> 'v) list option" where
  "wi_read hs h it =
     (if wi_eq it um_end then Some []
      else (case it of
              None \<Rightarrow> Some []
            | Some p \<Rightarrow> Option.bind (wi_read hs h (wi_next hs p)) (\<lambda>kvs. Some (wi_deref h p # kvs))))"

section \<open>Stepping through the table's order\<close>

lemma wi_next_split:
  "distinct (as @ p # bs) \<Longrightarrow> wi_next (as @ p # bs) p = um_begin bs"
  by (induction as) auto

text \<open>From the node at position \<open>i\<close>, \<open>++\<close> reaches the node at \<open>i + 1\<close>, or \<open>end()\<close>.\<close>

lemma wi_next_nth:
  assumes "distinct hs" and "i < length hs"
  shows "wi_next hs (hs ! i) = (if Suc i < length hs then Some (hs ! Suc i) else None)"
proof -
  have hs: "hs = take i hs @ hs ! i # drop (Suc i) hs" using assms(2) by (simp add: id_take_nth_drop)
  then have "wi_next hs (hs ! i) = um_begin (drop (Suc i) hs)"
    using wi_next_split [of "take i hs" "hs ! i" "drop (Suc i) hs"] assms(1) by simp
  then show ?thesis using assms(2)
    by (cases "drop (Suc i) hs") (auto simp: um_begin_def Cons_nth_drop_Suc [symmetric] dest: arg_cong [of _ _ length])
qed

lemma wi_read_suffix:
  assumes "distinct (as @ bs)"
  shows "wi_read (as @ bs) h (um_begin bs) = Some (map (node_value h) bs)"
  using assms
proof (induction bs arbitrary: as)
  case Nil
  then show ?case by (simp add: wi_read.simps um_begin_def wi_eq_def um_end_def)
next
  case (Cons p bs)
  have "wi_next (as @ p # bs) p = um_begin bs" using Cons.prems by (rule wi_next_split)
  moreover have "wi_read ((as @ [p]) @ bs) h (um_begin bs) = Some (map (node_value h) bs)"
    using Cons.prems by (intro Cons.IH) simp
  ultimately show ?case
    by (subst wi_read.simps) (simp add: um_begin_def wi_eq_def um_end_def wi_deref_def)
qed

text \<open>The loop from \<open>begin()\<close> returns and reads every entry once, in the table's order.\<close>

lemma wi_read_begin:
  "distinct hs \<Longrightarrow> wi_read hs h (um_begin hs) = Some (map (node_value h) hs)"
  using wi_read_suffix [of "[]" hs h] by simp

section \<open>Iteration and the abstract map\<close>

text \<open>
  C23. On a well-formed map whose hash table holds the nodes \<open>hs\<close> (the nodes of the list, in
  another order), reading from \<open>begin()\<close> to \<open>end()\<close> returns, and the pairs read,
  with distinct keys, form the map's abstract map.
\<close>

lemma um_iterate_abs:
  assumes inv: "um_inv U xs" and perm: "mset hs = mset xs"
  shows "\<exists>kvs. wi_read hs (um_heap U) (um_begin hs) = Some kvs \<and> distinct (map fst kvs) \<and>
    map_of kvs = um_abs U \<and> length kvs = um_size U"
proof -
  let ?h = "um_heap U"
  have d: "distinct (map (key_of ?h) xs)" using inv by (simp add: um_inv_def)
  have dh: "distinct (map (key_of ?h) hs)" using idx_of_perm [OF perm d] by blast
  then have "distinct hs" by (simp add: distinct_map)
  then have r: "wi_read hs ?h (um_begin hs) = Some (map (node_value ?h) hs)" by (rule wi_read_begin)
  have k: "map fst (map (node_value ?h) zs) = map (key_of ?h) zs" for zs
    by (simp add: key_of_def)
  have d1: "distinct (map fst (map (node_value ?h) hs))" and d2: "distinct (map fst (map (node_value ?h) xs))"
    unfolding k using d dh by simp_all
  have "set (map (node_value ?h) hs) = set (map (node_value ?h) xs)" using mset_eq_setD [OF perm] by simp
  then have "map_of (map (node_value ?h) hs) = map_of (map (node_value ?h) xs)"
    using map_of_inject_set [OF d1 d2] by blast
  moreover have "length (map (node_value ?h) hs) = um_size U"
    using um_size_inv [OF inv] perm by (metis length_map size_mset)
  ultimately show ?thesis using r d1 um_abs_map_of [OF inv] by simp
qed

end
