(* ===== verification/Spec2Isabelle.thy ===== *)
theory Spec2Isabelle
  imports Limited_Iter
begin

text \<open>
  A verification development of the weight-bounded associative containers of
  \<open>src/\<close>: the replacement list and its manager (\<open>src/cache_manager/\<close>) and,
  on top of them, the map facade \<open>limited::unordered_map\<close> (\<open>src/limited/\<close>).

  \<^bold>\<open>The program.\<close> Every entry of a map is a node of a hash table that also
  carries the links of a circular doubly linked list through a sentinel node
  (\<open>cache_manager/base.h\<close>). \<open>cache_manager\<close> (\<open>cache_manager.h\<close>) owns the
  sentinel, the capacity, the total weight, the weigher and the policy; it splices nodes
  in and out of the list, counts their weights and asks the policy for the next victim.
  The policies (\<open>policy.h\<close>) decide where a node is inserted, which node is evicted
  and how an access reorders the list; they reorder through the list surgery of
  \<open>replacement_iterator.h\<close>. The facade checks the fit of every entry it adds and
  evicts victims of the manager until it fits.

  \<^bold>\<open>Theories.\<close>
  \<^item> \<open>Cache_Prelude\<close>: \<open>size_t\<close> as \<open>64 word\<close>, the error kinds, sums of weights in
    \<open>nat\<close> (\<open>unat_sum\<close>) and shared lemmas on lists and words.
  \<^item> \<open>Cache_Node\<close>: the node heap (a record of one function per field of
    \<open>stored_node\<close>, node addresses \<open>'p\<close>), \<open>__link\<close> as \<open>link\<close>, the ring predicate
    \<open>dl_ring h s xs\<close> (the list \<open>s, xs, s\<close> linked both ways: invariant I2 of the
    design) and the two lemmas every list operation rests on, unlinking a segment and
    splicing one in.
  \<^item> \<open>Replacement_Ops\<close>: \<open>replacement_iterator\<close> (\<open>ri_deref\<close>, and \<open>++\<close>,
    \<open>--\<close> as \<open>ri_next\<close>, \<open>ri_prev\<close> with their link assertions) and the
    \<open>iterator_operations\<close> of \<open>replacement_iterator.h\<close> (\<open>move\<close>,
    \<open>iter_swap\<close>, \<open>swap_ranges\<close>, \<open>reverse\<close>, \<open>rotate\<close> as
    \<open>rotate_iop\<close>), each the source's sequence of \<open>__link\<close> calls.
  \<^item> \<open>Policy\<close>: the built-in policies as a datatype (\<open>base_policy\<close> for FIFO, LIFO,
    LRU, MRU and swapping, which have no erase hook, and \<open>Example\<close>, \<open>Locked\<close>,
    \<open>Priority\<close>), the three hooks as functions with the \<open>policy_extractor\<close> defaults
    (the traits \<open>provides_insert\<close>, \<open>provides_erase\<close>, \<open>provides_access\<close>, and the
    fallbacks for a policy without the hook),
    and the victims and access moves as list functions (\<open>erase_pick\<close>,
    \<open>erase_spec\<close>, \<open>access_list\<close>) with the refinement lemmas relating them to
    the pointer code. For every policy but the priority policy \<open>erase_pick\<close> is the
    victim of the design's policy table; for the priority policy it is the source's scan
    (\<open>prio_pick\<close>), which departs from the design's rule (\<open>spec_prio_pick\<close>, below).
  \<^item> \<open>Cache_Manager\<close>: the record \<open>cache_manager\<close> and one definition per member
    function of \<open>cache_manager.h\<close> (\<open>cm_insert\<close>, \<open>cm_erase\<close>, \<open>cm_access\<close>,
    \<open>cm_next\<close>, ...), the invariant \<open>cm_inv h m xs\<close> relating the heap and the
    manager to the replacement order \<open>xs\<close> (I2, the cached weights, and I3: the counter
    is the sum of the weights and within the capacity), and its preservation.
  \<^item> \<open>Cache_Move\<close>: the transfers of a manager's list to another sentinel: the move
    constructor (\<open>cm_move_construct\<close>), the move assignment (\<open>cm_move_assign\<close>) and
    \<open>swap\<close> (\<open>cm_swap\<close>), all built on \<open>_fix_first\<close> (\<open>fix_first\<close>), and the
    constructor's empty list. The lemmas show each transfer keeps the list valid under the
    new sentinel, empty lists included (the design's "single subtlest point").
  \<^item> \<open>Limited_Space\<close>: the facade's state, the record \<open>umap\<close> (the hash index
    \<open>_map\<close> as a finite map from keys to node addresses, the heap of nodes holding
    key-value pairs, and \<open>_manager\<close>), its helpers (\<open>key_of\<close>, \<open>lift_cm\<close> for a call
    \<open>_manager.f(...)\<close>, \<open>index_insert\<close>, \<open>index_erase\<close>), and the private eviction
    code of \<open>unordered_map.h\<close>: \<open>freeSpace\<close>, \<open>freeSpace(weight, except)\<close>,
    \<open>provideSpace\<close> and \<open>provideSpace(weight, except)\<close>, whose loops are
    \<open>free_loop\<close> and \<open>free_loop_except\<close>. The facade's invariant \<open>um_inv U xs\<close>
    is the manager's, distinct keys along the list, and the index equal to the map from
    each listed node's key to the node (I1). The lemmas show that the loops return, that
    on success the evicted nodes left the list and the index and freed enough weight,
    and that on failure the reinsertions in reverse order restore the state exactly.
  \<^item> \<open>Limited_Map\<close>: one definition per public member function of the facade that
    changes or reads the state: \<open>insert\<close> (value, node, range), \<open>emplace\<close>,
    \<open>try_emplace\<close>, \<open>assign\<close>, \<open>insert_or_assign\<close>, \<open>extract\<close>, \<open>erase\<close> (key,
    iterator, replacement iterator, replacement range), \<open>clear\<close>, the lookups and their
    quiet variants, \<open>at\<close>, \<open>operator[]\<close>, \<open>free_space\<close> and \<open>provide_space\<close>;
    and the correctness of \<open>insert\<close>, \<open>free_space\<close> and \<open>provide_space\<close>.
  \<^item> \<open>Limited_Props\<close>: \<open>erase(key)\<close>, the round trip \<open>extract\<close> then
    \<open>insert(node)\<close>, \<open>at\<close>, the lookups against their quiet variants,
    \<open>clear\<close>, and that a map under a policy without an erase hook never refuses an
    entry that fits its capacity.
  \<^item> \<open>Limited_Assign\<close>: \<open>provideSpace(weight, except)\<close> and the correctness of
    \<open>assign\<close> under a policy without an erase hook. During \<open>assign\<close> the node already
    holds its new value while its old weight is still counted; the theory shows that the
    eviction loop never reads that value (it commutes with the update) and that
    \<open>update_weight\<close> restores the invariant afterwards.
  \<^item> \<open>Limited_Range\<close>: the correctness of \<open>insert(first, last)\<close>. Its first phase
    (\<open>range_index\<close>) puts the new keys in the index, allocates their nodes outside the
    list and sums their weights; the lemmas show what the phase leaves, that threading
    the new nodes into the list keeps the invariant, and that dropping their keys again
    on failure restores the index.
  \<^item> \<open>Limited_Construct\<close>: the constructors of the facade from a capacity
    (\<open>um_new\<close>) and from a range or an initializer list (\<open>um_from_range\<close>), the
    defaulted move constructor (\<open>um_move\<close>) and \<open>operator=(initializer_list)\<close>
    (\<open>um_assign_list\<close>); the lemmas show that a range that fits the capacity is built
    without eviction and that the list assignment throws exactly when its pre-check says
    so, leaving the map unaltered, and otherwise never reaches its assertion.
  \<^item> \<open>Limited_Reach\<close>: the facade as a state machine. A datatype of the
    operations that change the state (\<open>um_op\<close>), one step of each
    (\<open>um_apply\<close>), the contract of the caller and the allocator (\<open>op_ok\<close>: fresh
    nodes, range weights that fit \<open>size_t\<close>), and the states reachable from a
    constructed map (the inductive \<open>um_reach\<close>). The lemma on reachable states shows
    by rule induction that they all satisfy the invariant and that on each of them every
    operation returns.
  \<^item> \<open>Limited_Api\<close>: the remaining members that reach the state: \<open>can_fit\<close>,
    \<open>provide_space(obj)\<close>, \<open>access\<close> through an iterator, \<open>replacement_begin\<close> and
    \<open>replacement_end\<close>, the hinted insertions (each the unhinted call, its iterator
    returned), \<open>insert(initializer_list)\<close>, and the node handles and insert results of
    \<open>limited/base.h\<close> with \<open>insert(node_type&&)\<close> returning them; the lemma on the
    replacement order shows that walking it from \<open>replacement_begin\<close> visits exactly
    the entries of the index. The observers \<open>empty()\<close>, \<open>size()\<close>, \<open>weight()\<close>,
    \<open>capacity()\<close>, \<open>weigher()\<close>, \<open>policy()\<close>; \<open>equal_range\<close> and
    \<open>quiet_equal_range\<close> (the range as the list of nodes it spans), shown to act as
    \<open>find\<close>; \<open>erase(first, last)\<close> over iterators of the index (the nodes it visits
    a parameter in hash order), shown to remove exactly those nodes. \<open>operator==\<close> is
    \<open>um_equal\<close> and \<open>operator!=\<close> its negation; compared with the abstract map
    \<open>um_abs\<close> (key to mapped value) the facade stands for, \<open>operator==\<close> holds
    exactly when the two abstract maps are equal.
  \<^item> \<open>Limited_Copy\<close>: the operations on whole maps. The copy constructor
    (\<open>um_copy\<close>) and the copy assignment (\<open>um_copy_assign\<close>) read the other's
    entries in hash order, which the model leaves open as a function \<open>enum\<close> from a
    map to the nodes \<open>begin()\<close> to \<open>end()\<close> visits; the copy assignment acts on a
    store of maps (\<open>'o \<Rightarrow> umap\<close>), so that its source may be the map assigned to.
    The defaulted move assignment (\<open>um_move_assign\<close>) and \<open>swap\<close> (\<open>um_swap\<close>)
    act on two maps over one memory, through the manager's move assignment and swap.
    The lemmas show that a range with distinct keys inserted into an empty map gives
    the range's abstract map, that a copy has the abstract map of its source, that the
    moved-to and swapped maps take over the other's entries, and that self-assignment
    empties a map.
  \<^item> \<open>Limited_Iter\<close>: iteration in index order: \<open>begin()\<close>, \<open>end()\<close> and
    \<open>wrapped_iterator\<close> of \<open>limited/base.h\<close> (\<open>*\<close>, \<open>++\<close>, \<open>==\<close>) over the list
    \<open>hs\<close> of the nodes the hash table visits, and the loop \<open>for (it = begin(); it !=
    end(); ++it)\<close> as \<open>wi_read\<close>; the lemmas show the loop returns and reads exactly
    the abstract map, in the table's order, whatever that order is.
  \<^item> This theory: concrete caches and maps of the design's scenarios, the design's
    priority rule (\<open>spec_prio_pick\<close>), the properties that combine the components, and
    the witnesses of the lemmas.

  \<^bold>\<open>Correspondence.\<close> A member function of C++ is a function from the heap and
  the manager (for the facade: the record \<open>umap\<close>) to the new state and the result;
  iterators are node addresses, and the address of a node the allocator creates is an
  argument. A thrown \<open>no_space_error\<close> or \<open>std::out_of_range\<close> is \<open>Inl\<close> of the
  datatype \<open>error\<close>. An \<open>assert\<close> of the manager is a hypothesis of its lemmas, the
  assertion of \<open>priority_policy::erase_position\<close> is the value \<open>None\<close>. The pointer
  loops (\<open>locked_policy\<close> and \<open>priority_policy\<close> scans, the weight loop of
  \<open>erase(first, last)\<close>, \<open>reverse\<close>, the eviction loops of the facade) are
  \<open>partial_function (option)\<close>, whose \<open>None\<close> is divergence; the lemmas on a
  well-formed list show they return (\<open>Some\<close>), by induction on the length of the
  list, so no fuel is needed. Priorities are words of any width, so \<open>max()\<close> is
  \<open>-1\<close>. Weights and capacities are \<open>size_t\<close> and wrap as in C++; the invariants
  read them with \<open>unat\<close>.

  \<^bold>\<open>Results.\<close> Every state reachable from a constructed map through the
  facade's operations, called within their contracts, is well-formed, and no operation
  diverges or aborts on it. Insert, erase, access and clear keep the manager's invariant and move
  the replacement order as the policy table says; \<open>next()\<close> and \<open>next_except\<close>
  compute the table's victim under every policy but the priority policy, and never evict a locked entry or one of priority
  \<open>MAX\<close> while another remains; erase followed by reinsert restores the state; the iterator's \<open>++\<close> and
  \<open>--\<close> never trip their assertions on a well-formed list and undo each other;
  \<open>rotate\<close> exchanges the two parts of a range. For the facade: \<open>insert\<close>,
  \<open>free_space\<close> and \<open>provide_space\<close> return, keep the facade's invariant (I1, I3) on
  success and leave the map unchanged on \<open>no_space_error\<close> (I5); \<open>erase(key)\<close>,
  \<open>clear\<close> and the erasure of a list of nodes keep it, and the erasure lowers the
  weight counter by the weights of the nodes; \<open>equal_range\<close> returns exactly the
  nodes of the key; \<open>assign\<close> under a plain policy never evicts the entry assigned
  and rolls back exactly on \<open>no_space_error\<close>; \<open>extract\<close> then \<open>insert(node)\<close> puts the entry back without
  eviction (scenario 6); \<open>at\<close> throws exactly on absent keys; the lookups answer as their
  quiet variants; a plain policy always makes room for an entry that fits the capacity;
  \<open>insert(first, last)\<close> with a weight sum that fits \<open>size_t\<close> is atomic: it
  either inserts every key of the range or throws with the index and the list as before. A map
  built from a range that fits its capacity holds every key of the range;
  \<open>operator=(initializer_list)\<close> throws exactly when the list is too heavy and then
  leaves the map unaltered; moving a map keeps its entries and order;
  \<open>swap\<close> and the move assignment between two maps over one memory exchange (or
  transfer) their abstract maps and leave both maps well-formed; the copy
  constructor and the copy assignment from another map give a well-formed map with the
  abstract map of the source, whatever the hash order; \<open>operator==\<close> compares the
  abstract maps, whatever the iteration order of \<open>lhs\<close>; iterating from \<open>begin()\<close> to
  \<open>end()\<close> returns and reads each entry once, and the pairs read are the abstract map; a
  default-constructed map has capacity 0 and refuses every insertion.
  Scenarios 5 (under LRU) and 6 of the design hold. Departures from the design are proved on concrete
  inputs: the priority scan spends its first step comparing the candidate with itself
  (it disagrees with the design's rule on priorities \<open>[1, 0]\<close>);
  \<open>next_except(hint, except)\<close> has no guard for \<open>hint == end\<close> and then trips the
  priority policy's assertion, so scenario 5 under the priority policy aborts;
  \<open>rotate(first, first, last)\<close> cuts the range out of the list; \<open>can_fit\<close>
  overflows, and it admits a weight beyond the capacity exactly when \<open>W + w\<close> wraps
  to a value within it (a general lemma); \<open>insert(first, last)\<close> sums the weights in \<open>size_t\<close>, so a sum that
  wraps passes the capacity check and breaks I3, and so does the pre-check of
  \<open>operator=(initializer_list)\<close>. Moving a manager transfers its list
  correctly, and move assignment and \<open>swap\<close> leave both managers valid; but the move
  constructor leaves the moved-from manager pointing into the moved list, and an insert
  into it corrupts the list of the manager it was moved into. The copy assignment clears
  the map before it reads the source, so \<open>x = x\<close> empties \<open>x\<close>. Index-order
  iterators expose the whole entry as \<open>const\<close>, where the design makes only the key
  read-only.

  \<^bold>\<open>Not modelled.\<close> The hash table itself (\<open>std::unordered_map\<close>, a library the
  sources call: it is the finite map \<open>um_index\<close>), the bucket and hash-policy
  pass-through (\<open>rehash\<close>, \<open>reserve\<close>, \<open>max_load_factor\<close>, local iterators: they
  change the table's layout only; \<open>max_load_factor(ml)\<close> calls the observer
  \<open>_map.load_factor(ml)\<close> and would not compile), the hash order itself (a parameter
  where an operation depends on it; an iterator of \<open>limited/base.h\<close> is the address
  of its node), the state a moved-from \<open>std::unordered_map\<close> is left in (taken
  empty), the observers of configuration the model does not hold (\<open>get_allocator\<close>,
  \<open>max_size\<close>, \<open>hash_function\<close>, \<open>key_eq\<close>), allocators and the exceptions a weigher or an
  allocation may throw (the \<open>catch\<close> blocks that undo them), the
  \<open>CACHE_STORE_WEIGHT\<close> build (it does not compile: \<open>erase\<close> reads
  \<open>node->weight\<close>), and the tests.
\<close>

section \<open>Concrete caches\<close>

text \<open>
  A replacement list over the sentinel \<open>0\<close> and the nodes \<open>xs\<close>, built with
  \<open>__link\<close> as the manager builds it; node \<open>p\<close> holds the value \<open>val p\<close> and caches
  the weight \<open>wt (val p)\<close>.
\<close>

definition mk_ring :: "(nat \<Rightarrow> 'v) \<Rightarrow> ('v \<Rightarrow> size_t) \<Rightarrow> nat list \<Rightarrow> (nat, 'v) heap" where
  "mk_ring val wt xs =
     foldr (\<lambda>(a, b). link a b) (zip (0 # xs) (xs @ [0]))
       \<lparr>node_value = val, node_prev = id, node_next = id, node_weight = (\<lambda>p. wt (val p))\<rparr>"

definition mk_manager ::
  "size_t \<Rightarrow> size_t \<Rightarrow> ('v \<Rightarrow> size_t) \<Rightarrow> ('v, 'r) policy \<Rightarrow> (nat, 'v, 'r) cache_manager" where
  "mk_manager c w wt pol =
     \<lparr>cm_capacity = c, cm_first = 0, cm_weight = w, cm_weigher = wt, cm_policy = pol\<rparr>"

text \<open>Node \<open>p\<close> of the list holds the value \<open>vs ! p\<close>.\<close>

definition vals :: "nat list \<Rightarrow> nat \<Rightarrow> nat" where
  "vals vs p = (if p < length vs then vs ! p else 0)"

definition unit_weight :: "nat \<Rightarrow> size_t" where
  "unit_weight v = 1"

definition lru_pol :: "(nat, 8 word) policy" where
  "lru_pol = Plain Lru"

definition prio_fifo :: "(nat, 8 word) policy" where
  "prio_fifo = Priority Fifo of_nat"

definition locked_fifo :: "(nat, 8 word) policy" where
  "locked_fifo = Locked Fifo odd"

text \<open>Scenario 1: LRU, capacity 3, unit weights, entries \<open>1, 2\<close> and then \<open>1, 2, 3\<close>.\<close>

definition lru_heap2 :: "(nat, nat) heap" where
  "lru_heap2 = mk_ring (vals [0, 1, 2, 3]) unit_weight [1, 2]"

definition lru_heap3 :: "(nat, nat) heap" where
  "lru_heap3 = mk_ring (vals [0, 1, 2, 3]) unit_weight [1, 2, 3]"

definition lru_cm :: "size_t \<Rightarrow> (nat, nat, 8 word) cache_manager" where
  "lru_cm w = mk_manager 3 w unit_weight lru_pol"

text \<open>Scenario 4: priority over FIFO, capacity 5, priorities \<open>[5, 5, 1, 5, 5]\<close>.\<close>

definition prio_heap :: "(nat, nat) heap" where
  "prio_heap = mk_ring (vals [0, 5, 5, 1, 5, 5]) unit_weight [1, 2, 3, 4, 5]"

definition prio_cm :: "(nat, nat, 8 word) cache_manager" where
  "prio_cm = mk_manager 5 5 unit_weight prio_fifo"

text \<open>A single entry under the priority policy, and a locked-over-FIFO list locking odd values.\<close>

definition prio1_heap :: "(nat, nat) heap" where
  "prio1_heap = mk_ring (vals [0, 7]) unit_weight [1]"

definition prio1_cm :: "(nat, nat, 8 word) cache_manager" where
  "prio1_cm = mk_manager 1 1 unit_weight prio_fifo"

definition locked_heap :: "(nat, nat) heap" where
  "locked_heap = mk_ring (vals [0, 1, 3, 4]) unit_weight [1, 2, 3]"

definition locked_cm :: "(nat, nat, 8 word) cache_manager" where
  "locked_cm = mk_manager 3 3 unit_weight locked_fifo"

text \<open>Two entries of priorities \<open>1\<close> and \<open>0\<close> over FIFO.\<close>

definition prio2_heap :: "(nat, nat) heap" where
  "prio2_heap = mk_ring (vals [0, 1, 0]) unit_weight [1, 2]"

definition prio2_cm :: "(nat, nat, 8 word) cache_manager" where
  "prio2_cm = mk_manager 2 2 unit_weight prio_fifo"

text \<open>
  A manager constructed empty with its sentinel at \<open>7\<close>, and a heap holding two lists:
  \<open>[1, 2]\<close> under the sentinel \<open>0\<close> and \<open>[6]\<close> under the sentinel \<open>5\<close>.
\<close>

definition fresh_cm :: "(nat, nat, 8 word) cache_manager" where
  "fresh_cm = \<lparr>cm_capacity = 5, cm_first = 7, cm_weight = 0, cm_weigher = unit_weight, cm_policy = lru_pol\<rparr>"

definition two_heap :: "(nat, nat) heap" where
  "two_heap = link 6 5 (link 5 6 lru_heap2)"

definition other_cm :: "(nat, nat, 8 word) cache_manager" where
  "other_cm = \<lparr>cm_capacity = 4, cm_first = 5, cm_weight = 1, cm_weigher = unit_weight, cm_policy = lru_pol\<rparr>"

section \<open>The priority rule of the design\<close>

text \<open>
  The eviction rule of the design's policy table, step by step: skip the entries of
  priority \<open>MAX\<close>; take the first other entry as candidate with its priority as budget;
  then advance up to that many further steps, taking an entry of lower priority than
  the current budget as the new candidate, and spending one unit of budget otherwise.
\<close>

fun spec_scan :: "('p \<Rightarrow> 'w::len word) \<Rightarrow> 'p list \<Rightarrow> 'p \<Rightarrow> 'w word \<Rightarrow> 'p" where
  "spec_scan f [] c cur = c"
| "spec_scan f (y # ys) c cur =
     (if cur = 0 then c
      else if f y < cur then spec_scan f ys y (f y) else spec_scan f ys c (cur - 1))"

definition spec_prio_pick :: "('p \<Rightarrow> 'w::len word) \<Rightarrow> 'p list \<Rightarrow> 'p \<Rightarrow> 'p" where
  "spec_prio_pick f ys q =
     (case dropWhile (\<lambda>y. f y = - 1) ys of [] \<Rightarrow> q | y # zs \<Rightarrow> spec_scan f zs y (f y))"

text \<open>
  Scenario 1 on the facade: LRU, capacity 3, unit weights, keys \<open>1, 2, 3\<close> with
  values \<open>10, 20, 30\<close> at the nodes of the same addresses.
\<close>

definition entry :: "nat \<Rightarrow> nat \<times> nat" where
  "entry p = (p, 10 * p)"

definition unit_entry_weight :: "nat \<times> nat \<Rightarrow> size_t" where
  "unit_entry_weight kv = 1"

definition lru_map :: "(nat, nat, nat, 8 word) umap" where
  "lru_map =
     \<lparr>um_index = [3 \<mapsto> 3, 2 \<mapsto> 2, 1 \<mapsto> 1],
      um_heap = mk_ring entry unit_entry_weight [1, 2, 3],
      um_cm = mk_manager 3 3 unit_entry_weight (Plain Lru)\<rparr>"

text \<open>
  Scenario 5 of the design: capacity 10, the weigher reads the value, entries
  \<open>(1, 4)\<close> and \<open>(2, 4)\<close> inserted in this order, under LRU and under the priority
  policy over FIFO with every priority 0.
\<close>

definition value_weight :: "nat \<times> nat \<Rightarrow> size_t" where
  "value_weight kv = of_nat (snd kv)"

definition entry4 :: "nat \<Rightarrow> nat \<times> nat" where
  "entry4 p = (p, 4)"

definition lru_map5 :: "(nat, nat, nat, 8 word) umap" where
  "lru_map5 =
     \<lparr>um_index = [2 \<mapsto> 2, 1 \<mapsto> 1], um_heap = mk_ring entry4 value_weight [1, 2],
      um_cm = mk_manager 10 8 value_weight (Plain Lru)\<rparr>"

definition prio_map5 :: "(nat, nat, nat, 8 word) umap" where
  "prio_map5 =
     \<lparr>um_index = [2 \<mapsto> 2, 1 \<mapsto> 1], um_heap = mk_ring entry4 value_weight [1, 2],
      um_cm = mk_manager 10 8 value_weight (Priority Fifo (\<lambda>kv. 0))\<rparr>"

text \<open>An empty map of capacity \<open>2^63\<close> whose every entry weighs \<open>2^63\<close>.\<close>

definition half_weight :: "nat \<times> nat \<Rightarrow> size_t" where
  "half_weight kv = 2 ^ 63"

definition wrap_map :: "(nat, nat, nat, 8 word) umap" where
  "wrap_map =
     \<lparr>um_index = Map.empty, um_heap = mk_ring entry half_weight [],
      um_cm = mk_manager (2 ^ 63) 0 half_weight (Plain Fifo)\<rparr>"

text \<open>
  Two maps over one memory: keys \<open>1, 2\<close> under the sentinel \<open>0\<close> and key \<open>6\<close> under
  the sentinel \<open>5\<close>, for \<open>swap\<close> and the move assignment.
\<close>

definition pair_heap :: "(nat, nat \<times> nat) heap" where
  "pair_heap = link 6 5 (link 5 6 (mk_ring entry unit_entry_weight [1, 2]))"

definition swap_map_a :: "(nat, nat, nat, 8 word) umap" where
  "swap_map_a =
     \<lparr>um_index = [2 \<mapsto> 2, 1 \<mapsto> 1], um_heap = pair_heap,
      um_cm = mk_manager 3 2 unit_entry_weight (Plain Lru)\<rparr>"

definition swap_map_b :: "(nat, nat, nat, 8 word) umap" where
  "swap_map_b =
     \<lparr>um_index = [6 \<mapsto> 6], um_heap = pair_heap,
      um_cm = \<lparr>cm_capacity = 4, cm_first = 5, cm_weight = 1, cm_weigher = unit_entry_weight,
               cm_policy = Plain Lru\<rparr>\<rparr>"

lemmas fixture_defs = mk_ring_def mk_manager_def vals_def unit_weight_def
  lru_pol_def prio_fifo_def locked_fifo_def lru_heap2_def lru_heap3_def lru_cm_def
  prio_heap_def prio_cm_def prio1_heap_def prio1_cm_def
  locked_heap_def locked_cm_def prio2_heap_def prio2_cm_def
  entry_def unit_entry_weight_def lru_map_def value_weight_def entry4_def lru_map5_def
  prio_map5_def half_weight_def wrap_map_def fresh_cm_def two_heap_def other_cm_def
  pair_heap_def swap_map_a_def swap_map_b_def

section \<open>Victim selection\<close>

text \<open>
  C33. The priority policy never evicts an entry of priority \<open>MAX\<close> while another entry
  remains: \<open>next()\<close> returns an entry of lower priority, or the end of the list when
  every entry has priority \<open>MAX\<close>.
\<close>

theorem priority_victim_safe:
  assumes inv: "cm_inv h m xs" and pol: "cm_policy m = Priority b pr"
    and nx: "cm_next (h, m) = Some v"
  shows "v \<in> set xs \<and> pr (node_value h v) \<noteq> - 1 \<or>
         v = cm_first m \<and> (\<forall>y \<in> set xs. pr (node_value h y) = - 1)"
proof (cases "xs = []")
  case True
  then show ?thesis using nx cm_inv_empty [OF inv] by (simp add: cm_next_def)
next
  case False
  then have "v = prio_pick (\<lambda>y. pr (node_value h y)) xs (cm_first m)"
    using nx cm_next_pick [OF inv] pol by simp
  then show ?thesis using prio_pick_cases [of "\<lambda>y. pr (node_value h y)" xs "cm_first m"] by auto
qed


text \<open>
  Scenario 4 of the design: with priorities \<open>[5, 5, 1, 5, 5]\<close> over FIFO,
  \<open>next()\<close> picks the entry of priority \<open>1\<close>, and erasing it leaves the others in
  their FIFO order, with the weight counter down by one.
\<close>

theorem scenario_priority_selection:
  "cm_next (prio_heap, prio_cm) = Some 3 \<and>
   dl_ring (fst (fst (cm_erase 3 (prio_heap, prio_cm)))) 0 [1, 2, 4, 5] \<and>
   cm_weight (snd (fst (cm_erase 3 (prio_heap, prio_cm)))) = 4"
proof -
  have "cm_inv prio_heap prio_cm [1, 2, 3, 4, 5]"
    by (simp add: fixture_defs cm_inv_def dl_ring_def)
  from cm_next_pick [OF this] have "cm_next (prio_heap, prio_cm) = Some 3"
    by (simp add: fixture_defs prio_pick_def)
  moreover have "dl_ring (fst (fst (cm_erase 3 (prio_heap, prio_cm)))) 0 [1, 2, 4, 5]"
    by (simp add: fixture_defs cm_erase_def cm_erase_node_def dl_ring_def)
  moreover have "cm_weight (snd (fst (cm_erase 3 (prio_heap, prio_cm)))) = 4"
    by (simp add: fixture_defs cm_erase_def cm_erase_node_def calculate_weight_def)
  ultimately show ?thesis by simp
qed

text \<open>
  \<open>priority_policy::erase_position\<close> starts its scan at the first candidate
  itself, comparing its priority with itself and spending one unit of budget on it.
  With priorities \<open>[1, 0]\<close> it evicts the entry of priority \<open>1\<close>, where the rule
  of the design (and the comment of the source) takes the entry of priority \<open>0\<close> one
  step further.
\<close>

theorem priority_first_step_divergence:
  "cm_next (prio2_heap, prio2_cm) = Some 1 \<and>
   spec_prio_pick (\<lambda>p. of_nat (vals [0, 1, 0] p) :: 8 word) [1, 2] 0 = 2"
proof -
  have "cm_inv prio2_heap prio2_cm [1, 2]"
    by (simp add: fixture_defs cm_inv_def dl_ring_def)
  from cm_next_pick [OF this] show ?thesis
    by (simp add: fixture_defs prio_pick_def spec_prio_pick_def)
qed

section \<open>The fit check\<close>

text \<open>
  Where the sum does not overflow, \<open>can_fit(w)\<close> is the fit check of the design,
  \<open>W + w \<le> C\<close> read in the natural numbers.
\<close>

theorem can_fit_exact:
  assumes "unat (cm_weight m) + unat w < 2 ^ 64"
  shows "can_fit m w \<longleftrightarrow> unat (cm_weight m) + unat w \<le> unat (cm_capacity m)"
  using assms by (simp add: can_fit_def word_le_nat_alt unat_add_no_wrap)

text \<open>
  \<open>can_fit\<close> adds in \<open>size_t\<close>: a weight near \<open>2^64\<close> wraps the sum, and
  the check accepts an entry far larger than the capacity.
\<close>

theorem can_fit_wraps:
  "can_fit (lru_cm 1) (- 1) \<and>
   unat (cm_capacity (lru_cm 1)) < unat (cm_weight (lru_cm 1)) + unat (- 1 :: size_t)"
  by (simp add: fixture_defs can_fit_def unsigned_minus_1_eq_mask mask_eq_exp_minus_1)

text \<open>
  C25. \<open>can_fit(w)\<close> accepts a weight that takes the total past the capacity exactly when
  \<open>W + w\<close> overflows \<open>size_t\<close> and the wrapped sum is within the capacity.
\<close>

theorem can_fit_overflow:
  "(can_fit m w \<and> unat (cm_capacity m) < unat (cm_weight m) + unat w) \<longleftrightarrow>
   (2 ^ 64 \<le> unat (cm_weight m) + unat w \<and> unat (cm_weight m) + unat w - 2 ^ 64 \<le> unat (cm_capacity m))"
proof -
  let ?S = "unat (cm_weight m) + unat w"
  have c: "unat (cm_capacity m) < 2 ^ 64" using unat_bound [of "cm_capacity m"] by simp
  have b: "?S < 2 ^ 64 + 2 ^ 64" using unat_bound [of "cm_weight m"] unat_bound [of w] by simp
  have u: "unat (cm_weight m + w) = (if ?S < 2 ^ 64 then ?S else ?S - 2 ^ 64)"
  proof (cases "?S < 2 ^ 64")
    case True
    then show ?thesis by (simp add: unat_add_no_wrap)
  next
    case False
    then have "?S mod 2 ^ 64 = ?S - 2 ^ 64" using b by (simp add: le_mod_geq)
    then show ?thesis using False by (simp add: unat_word_ariths(1))
  qed
  show ?thesis using c u by (auto simp: can_fit_def word_le_nat_alt)
qed

section \<open>Scenarios of the facade\<close>

text \<open>
  Scenario 5 of the design under LRU: \<open>assign\<close> of 7 to the entry of key 1 needs 3
  more, evicts the entry of key 2 (the entry assigned is excluded from eviction), and
  leaves the map holding \<open>(1, 7)\<close> alone with weight 7, well-formed.
\<close>

theorem scenario_assign_grows_weight:
  "case um_assign 1 7 lru_map5 of
     Some (U', Inr q) \<Rightarrow> q = 1 \<and> um_index U' = [1 \<mapsto> 1] \<and>
       node_value (um_heap U') 1 = (1, 7) \<and> cm_weight (um_cm U') = 7 \<and> um_inv U' [1]
   | _ \<Rightarrow> False"
  apply (simp add: um_assign_def fixture_defs calculate_weight_def provideSpace_except_def
      freeSpace_except_def free_space_except_cm_def Let_def key_of_def cm_next_except_def)
  apply (subst free_loop_except.simps)
  apply (simp add: Let_def cm_erase_def cm_erase_node_def calculate_weight_def cm_next_except_hint_def
      entry4_def value_weight_def)
  apply (subst free_loop_except.simps)
  apply (simp add: entry4_def value_weight_def Let_def commit_free_def drop_keys_def key_of_def
      lift_cm_def cm_update_weight_def cm_access_def)
  apply (simp add: um_inv_def cm_inv_def dl_ring_def idx_of_def key_of_def value_weight_def)
  done

text \<open>
  The same scenario under the priority policy aborts: after evicting the entry of key 2,
  \<open>freeSpace(weight, except)\<close> calls \<open>next_except(hint, except)\<close> with the end of
  the list as hint, and with the excepted entry unlinked the policy is asked about an
  empty range, which fails the assertion of \<open>priority_policy::erase_position\<close>
  (the value \<open>None\<close>), although enough space has been freed.
\<close>

theorem scenario_priority_assign_aborts:
  "um_inv prio_map5 [1, 2] \<and> um_assign 1 7 prio_map5 = None"
proof
  show "um_inv prio_map5 [1, 2]"
    by (simp add: fixture_defs um_inv_def cm_inv_def dl_ring_def idx_of_def key_of_def)
  show "um_assign 1 7 prio_map5 = None"
    apply (simp add: um_assign_def fixture_defs calculate_weight_def provideSpace_except_def
        freeSpace_except_def free_space_except_cm_def Let_def key_of_def cm_next_except_def
        priority_erase_position_def)
    apply (subst skip_max.simps, simp)
    apply (subst prio_scan.simps, simp)
    apply (subst free_loop_except.simps)
    apply (simp add: Let_def cm_erase_def cm_erase_node_def calculate_weight_def cm_next_except_hint_def)
    apply (simp add: priority_erase_position_def)
    done
qed

text \<open>
  \<open>insert(first, last)\<close> adds the weights of the new entries in \<open>size_t\<close>: two
  entries of weight \<open>2^63\<close> into an empty map of capacity \<open>2^63\<close> sum to 0, pass the
  check \<open>weight > capacity\<close> and \<open>provideSpace(0)\<close>, and are both inserted; the
  weight counter wraps to 0 while the entries weigh \<open>2^64\<close>, and the map violates the
  invariant (I3).
\<close>

theorem scenario_range_insert_wraps:
  "\<exists>U'. um_insert_range [(1, (1, 10)), (2, (2, 20))] wrap_map = Some (U', Inr ()) \<and>
     um_index U' 1 = Some 1 \<and> um_index U' 2 = Some 2 \<and> cm_weight (um_cm U') = 0 \<and>
     unat (cm_capacity (um_cm U')) < unat (node_weight (um_heap U') 1) + unat (node_weight (um_heap U') 2) \<and>
     \<not> um_inv U' [1, 2]"
  by (simp add: um_insert_range_def fixture_defs index_insert_def calculate_weight_def
      provideSpace_def Let_def lift_cm_def cm_insert_def um_inv_def cm_inv_def)

text \<open>
  \<open>operator=(initializer_list)\<close> checks the list's weight with the same
  \<open>size_t\<close> sum: the two entries of weight \<open>2^63\<close> pass the check against the
  capacity \<open>2^63\<close>, so the assignment neither throws, as its documentation promises
  for a list heavier than the capacity, nor keeps the invariant.
\<close>

theorem scenario_assign_list_wraps:
  "\<exists>U'. um_assign_list [(1, (1, 10)), (2, (2, 20))] wrap_map = Some (U', Inr ()) \<and>
     um_index U' 1 = Some 1 \<and> um_index U' 2 = Some 2 \<and> cm_weight (um_cm U') = 0 \<and>
     \<not> um_inv U' [1, 2]"
  by (simp add: um_assign_list_def um_clear_def lift_cm_def cm_clear_def um_insert_range_def
      fixture_defs index_insert_def calculate_weight_def provideSpace_def Let_def cm_insert_def
      um_inv_def cm_inv_def)

section \<open>Moving a manager\<close>

text \<open>
  Using a manager after it was moved from corrupts the manager it was moved into:
  after the list \<open>[1, 2]\<close> is moved to the sentinel \<open>9\<close>, inserting the node
  \<open>3\<close> into the moved-from manager links it after node \<open>2\<close>, the last node of
  the moved list, which then no longer forms a ring with its sentinel.
\<close>

theorem scenario_moved_from_insert:
  "let (h1, m1) = cm_move_construct 9 lru_heap2 (lru_cm 2); h2 = fst (cm_insert 3 (h1, lru_cm 2))
   in cm_inv h1 m1 [1, 2] \<and> node_next h2 2 = 3 \<and> \<not> cm_inv h2 m1 [1, 2]"
  by (simp add: fixture_defs cm_move_construct_def fix_first_def copy_links_def cm_insert_def
      cm_inv_def dl_ring_def Let_def calculate_weight_def)

section \<open>Witnesses of the facade's lemmas\<close>

lemma lru_map_inv: "um_inv lru_map [1, 2, 3]"
  by (simp add: fixture_defs um_inv_def cm_inv_def dl_ring_def idx_of_def key_of_def)

theorem um_insert_correct_witness: "\<exists>U' r. um_insert 4 (4, 40) lru_map = Some (U', r)"
  using um_insert_correct [OF lru_map_inv, of 4 "(4, 40)"] by (auto simp: fixture_defs)

theorem um_free_space_correct_witness: "\<exists>U' r. um_free_space 1 lru_map = Some (U', r)"
  using um_free_space_correct [OF lru_map_inv, of 1] by auto

theorem um_provide_space_correct_witness: "\<exists>U' r. um_provide_space 1 lru_map = Some (U', r)"
  using um_provide_space_correct [OF lru_map_inv, of 1] by auto

theorem um_erase_key_correct_witness: "snd (um_erase_key 2 lru_map) = 1"
proof -
  have "(2::nat) \<in> key_of (um_heap lru_map) ` set [1, 2, 3]"
    by (simp add: fixture_defs key_of_def)
  then show ?thesis
    using um_erase_key_correct [OF lru_map_inv, of 2] by (cases "um_erase_key 2 lru_map") simp
qed

theorem um_extract_insert_node_witness:
  "\<exists>U2. um_insert_node 2 (fst (um_extract_key 2 lru_map)) = Some (U2, Inr (2, True))"
  using um_extract_insert_node [OF lru_map_inv, of 2 2] by (auto simp: lru_map_def)

theorem um_at_correct_witness: "snd (um_at 5 lru_map) = Inl OutOfRange"
  using um_at_correct [OF lru_map_inv, of 5]
  by (cases "um_at 5 lru_map") (auto simp: fixture_defs split: sum.splits)

theorem um_replacement_walk_witness:
  "um_replacement_begin lru_map = Some (hd ([1, 2, 3] @ [um_replacement_end lru_map]))"
  using um_replacement_walk [OF lru_map_inv] by (rule conjunct1)

lemma lru_map5_inv: "um_inv lru_map5 [1, 2]"
  by (simp add: fixture_defs um_inv_def cm_inv_def dl_ring_def idx_of_def key_of_def)

theorem um_assign_plain_correct_witness: "\<exists>U' r. um_assign 1 7 lru_map5 = Some (U', r)"
  using um_assign_plain_correct [OF lru_map5_inv, of 1 Lru 7] by (auto simp: fixture_defs)

theorem um_insert_range_correct_witness:
  "\<exists>U' r. um_insert_range [(4, (4, 40)), (5, (5, 50))] lru_map = Some (U', r)"
  using um_insert_range_correct [OF lru_map_inv, of "[(4, (4, 40)), (5, (5, 50))]"]
  by (auto simp: fixture_defs)

theorem um_lookup_quiet_equiv_witness:
  "um_subscript 9 (2, 0) lru_map = Some (um_access_key 2 lru_map, um_quiet_at 2 lru_map)"
  using um_lookup_quiet_equiv [of 2 lru_map "(2, 0)" 9] by (simp add: lru_map_def)

theorem um_insert_plain_never_full_witness:
  "\<exists>U' qb. um_insert 4 (4, 40) lru_map = Some (U', Inr qb)"
  using um_insert_plain_never_full [OF lru_map_inv, of 4 Lru "(4, 40)"] by (simp add: fixture_defs)

section \<open>Witnesses of the manager's lemmas\<close>

text \<open>
  The lemmas of the components applied to the caches of the design's scenarios.
\<close>

theorem cm_insert_inv_witness:
  "cm_inv (fst (cm_insert 3 (lru_heap2, lru_cm 2))) (snd (cm_insert 3 (lru_heap2, lru_cm 2)))
     [1, 2, 3]"
  using cm_insert_inv [of lru_heap2 "lru_cm 2" "[1, 2]" 3 "fst (cm_insert 3 (lru_heap2, lru_cm 2))"
      "snd (cm_insert 3 (lru_heap2, lru_cm 2))"]
  by (simp add: fixture_defs cm_inv_def dl_ring_def insert_list_def)

theorem cm_erase_inv_witness:
  "cm_inv (fst (fst (cm_erase 3 (prio_heap, prio_cm)))) (snd (fst (cm_erase 3 (prio_heap, prio_cm))))
     [1, 2, 4, 5] \<and> snd (cm_erase 3 (prio_heap, prio_cm)) = 4"
proof -
  have "cm_inv prio_heap prio_cm ([1, 2] @ 3 # [4, 5])"
    by (simp add: fixture_defs cm_inv_def dl_ring_def)
  from cm_erase_inv [OF this, of "fst (fst (cm_erase 3 (prio_heap, prio_cm)))"
      "snd (fst (cm_erase 3 (prio_heap, prio_cm)))" "snd (cm_erase 3 (prio_heap, prio_cm))"]
  show ?thesis by simp
qed

theorem cm_access_inv_witness:
  "cm_inv (fst (cm_access 1 (lru_heap3, lru_cm 3))) (snd (cm_access 1 (lru_heap3, lru_cm 3))) [2, 3, 1]"
proof -
  have "cm_inv lru_heap3 (lru_cm 3) [1, 2, 3]"
    by (simp add: fixture_defs cm_inv_def dl_ring_def)
  from cm_access_inv [OF this, of 1 "fst (cm_access 1 (lru_heap3, lru_cm 3))"
      "snd (cm_access 1 (lru_heap3, lru_cm 3))"]
  show ?thesis by (simp add: fixture_defs)
qed

theorem cm_next_spec_witness: "cm_next (lru_heap3, lru_cm 3) = Some 1"
proof -
  have "cm_inv lru_heap3 (lru_cm 3) [1, 2, 3]"
    by (simp add: fixture_defs cm_inv_def dl_ring_def)
  moreover have "\<not> is_priority (cm_policy (lru_cm 3))" by (simp add: fixture_defs)
  ultimately show ?thesis using cm_next_spec [of lru_heap3 "lru_cm 3" "[1, 2, 3]"] by (simp add: fixture_defs)
qed

theorem priority_victim_safe_witness:
  "3 \<in> set [1, 2, 3, 4, 5 :: nat] \<and> (of_nat (node_value prio_heap 3) :: 8 word) \<noteq> - 1"
proof -
  have inv: "cm_inv prio_heap prio_cm [1, 2, 3, 4, 5]"
    by (simp add: fixture_defs cm_inv_def dl_ring_def)
  have "cm_next (prio_heap, prio_cm) = Some 3"
    using cm_next_pick [OF inv] by (simp add: fixture_defs prio_pick_def)
  from priority_victim_safe [OF inv _ this, of Fifo of_nat] show ?thesis
    by (simp add: fixture_defs)
qed


theorem cm_next_except_spec_witness:
  "cm_next_except 3 (prio_heap, prio_cm) = Some (prio_heap, 1)"
proof -
  have "cm_inv prio_heap prio_cm [1, 2, 3, 4, 5]"
    by (simp add: fixture_defs cm_inv_def dl_ring_def)
  from cm_next_except_spec [OF this, of 3] show ?thesis
    by (simp add: fixture_defs erase_spec_def prio_pick_def)
qed

theorem cm_erase_reinsert_witness:
  "cm_reinsert 3 (cm_erase_node 3 (prio_heap, prio_cm)) = (prio_heap, prio_cm)"
proof -
  have "cm_inv prio_heap prio_cm [1, 2, 3, 4, 5]"
    by (simp add: fixture_defs cm_inv_def dl_ring_def)
  from cm_erase_reinsert [OF this, of 3] show ?thesis by simp
qed

theorem cm_next_except_hint_end_witness:
  "cm_next_except_hint 0 1 (prio1_heap, prio1_cm) = None"
proof -
  have "cm_inv prio1_heap prio1_cm [1]"
    by (simp add: fixture_defs cm_inv_def dl_ring_def)
  from cm_next_except_hint_end [OF this, of 1] show ?thesis
    by (simp add: fixture_defs erase_spec_def)
qed

theorem rotate_iop_ring_witness: "dl_ring (rotate_iop 1 2 3 lru_heap3) 0 [2, 1, 3]"
proof -
  have "dl_ring lru_heap3 0 ([] @ [1] @ [2] @ [3])"
    by (simp add: fixture_defs dl_ring_def)
  from rotate_iop_ring [OF this] show ?thesis by simp
qed

theorem ri_next_prev_roundtrip_witness:
  "ri_next lru_heap3 2 = Some (node_next lru_heap3 2) \<and> ri_prev lru_heap3 (node_next lru_heap3 2) = Some 2"
proof -
  have r: "dl_ring lru_heap3 0 [1, 2, 3]" by (simp add: fixture_defs dl_ring_def)
  have "(2::nat) \<in> set (0 # [1, 2, 3])" by simp
  from ri_next_prev_roundtrip [OF r this] show ?thesis by blast
qed

theorem rotate_iop_empty_prefix_witness: "dl_ring (rotate_iop 1 1 0 lru_heap3) 0 []"
proof -
  have "dl_ring lru_heap3 0 ([] @ [1, 2, 3])"
    by (simp add: fixture_defs dl_ring_def)
  from rotate_iop_empty_prefix [OF this] show ?thesis by simp
qed

theorem um_equal_abs_witness: "um_equal lru_map [3, 1, 2] lru_map"
proof -
  have "mset [3, 1, 2 :: nat] = mset [1, 2, 3]" by simp
  from um_equal_abs [OF lru_map_inv lru_map_inv this] show ?thesis by simp
qed

theorem um_copy_correct_witness:
  "\<exists>U' zs. um_copy (\<lambda>_. [3, 1, 2]) [7, 8, 9] 5 (um_heap lru_map) lru_map = Some (U', Inr ()) \<and>
     um_inv U' zs \<and> um_abs U' = um_abs lru_map"
proof -
  have "mset ((\<lambda>_. [3, 1, 2 :: nat]) lru_map) = mset [1, 2, 3]" "length [7, 8, 9 :: nat] = length [1, 2, 3 :: nat]"
    "distinct ([7, 8, 9] @ [5 :: nat])"
    by simp_all
  from um_copy_correct [OF lru_map_inv this, of "um_heap lru_map"] show ?thesis by blast
qed

theorem um_copy_assign_correct_witness:
  "\<exists>U' zs. um_copy_assign (\<lambda>_. [3, 1, 2]) [7, 8, 9] 5 (0 :: nat) 1 (\<lambda>_. lru_map) =
     Some ((\<lambda>_. lru_map)(0 := U')) \<and> um_inv U' zs \<and> um_abs U' = um_abs lru_map"
proof -
  have ne: "(0 :: nat) \<noteq> 1" by simp
  have iv: "um_inv ((\<lambda>_. lru_map) (1 :: nat)) [1, 2, 3]" using lru_map_inv by simp
  have perm: "mset ((\<lambda>_. [3, 1, 2 :: nat]) ((\<lambda>_. lru_map) (1 :: nat))) = mset [1, 2, 3]" by simp
  have len: "length [7, 8, 9 :: nat] = length [1, 2, 3 :: nat]" by simp
  have fr: "distinct ([7, 8, 9] @ [cm_first (um_cm ((\<lambda>_. lru_map) (0 :: nat)))])"
    by (simp add: fixture_defs)
  from um_copy_assign_correct [OF ne iv perm len fr, of 5] show ?thesis by simp blast
qed

theorem um_copy_assign_self_witness:
  "\<exists>U'. um_copy_assign (\<lambda>_. []) [] 5 (0 :: nat) 0 (\<lambda>_. lru_map) = Some ((\<lambda>_. lru_map)(0 := U')) \<and>
     um_abs U' = Map.empty \<and> um_abs lru_map 1 = Some 10"
proof -
  have "um_abs lru_map 1 = Some 10" by (simp add: fixture_defs um_abs_def)
  then show ?thesis using um_copy_assign_self [of "\<lambda>_. []" "[]" 5 0 "\<lambda>_. lru_map"] by auto
qed

theorem um_iterate_abs_witness:
  "\<exists>kvs. wi_read [3, 1, 2] (um_heap lru_map) (um_begin [3, 1, 2]) = Some kvs \<and> map_of kvs = um_abs lru_map"
proof -
  have "mset [3, 1, 2 :: nat] = mset [1, 2, 3]" by simp
  from um_iterate_abs [OF lru_map_inv this] show ?thesis by blast
qed

lemma swap_maps_inv: "um_inv swap_map_a [1, 2] \<and> um_inv swap_map_b [6] \<and> um_heap swap_map_b = um_heap swap_map_a"
  by (simp add: fixture_defs um_inv_def cm_inv_def dl_ring_def idx_of_def key_of_def link_def)

theorem um_swap_inv_witness:
  "um_abs (fst (um_swap swap_map_a swap_map_b)) = um_abs swap_map_b \<and>
   um_abs (snd (um_swap swap_map_a swap_map_b)) = um_abs swap_map_a"
proof -
  have i: "um_inv swap_map_a [1, 2]" "um_inv swap_map_b [6]" "um_heap swap_map_b = um_heap swap_map_a"
    using swap_maps_inv by simp_all
  have dj: "set (cm_first (um_cm swap_map_a) # [1, 2]) \<inter> set (cm_first (um_cm swap_map_b) # [6]) = {}"
    by (simp add: fixture_defs)
  from um_swap_inv [OF i dj] show ?thesis by blast
qed

theorem um_move_assign_inv_witness:
  "um_abs (fst (um_move_assign swap_map_a swap_map_b)) = um_abs swap_map_b \<and>
   um_inv (snd (um_move_assign swap_map_a swap_map_b)) []"
proof -
  have i: "um_inv swap_map_b [6]" "um_heap swap_map_b = um_heap swap_map_a"
    using swap_maps_inv by simp_all
  have fr: "cm_first (um_cm swap_map_a) \<notin> set (cm_first (um_cm swap_map_b) # [6])"
    by (simp add: fixture_defs)
  from um_move_assign_inv [OF i fr] show ?thesis by blast
qed

theorem um_erase_hash_range_inv_witness: "um_inv (um_erase_hash_range [2, 1] lru_map) [3]"
proof -
  have "distinct [2, 1 :: nat]" "set [2, 1 :: nat] \<subseteq> set [1, 2, 3]" by simp_all
  from um_erase_hash_range_inv [OF lru_map_inv this]
  have "um_inv (um_erase_hash_range [2, 1] lru_map) (filter (\<lambda>q. q \<notin> set [2, 1]) [1, 2, 3])" by blast
  then show ?thesis by simp
qed

theorem um_equal_range_inv_witness:
  "set (snd (um_equal_range 2 lru_map)) = {p \<in> set [1, 2, 3]. key_of (um_heap lru_map) p = 2}"
  using um_equal_range_inv [OF lru_map_inv, of 2] by (rule conjunct2)

theorem can_fit_exact_witness: "can_fit (lru_cm 2) 1"
  using can_fit_exact [of "lru_cm 2" 1] by (simp add: fixture_defs)

section \<open>Witness of the reachability lemma\<close>

text \<open>
  An empty LRU map of capacity 3 built at the sentinel 0, then cleared: the state is
  reachable, and inserting a range of two fresh nodes into it returns.
\<close>

theorem um_reach_wf_witness:
  "\<exists>U'. um_apply (OpInsertRange [(1, (1, 10)), (2, (2, 20))])
     (um_clear (um_new 3 unit_entry_weight (Plain Lru :: (nat \<times> nat, 8 word) policy) (0::nat)
        (mk_ring entry unit_entry_weight []))) = Some U'"
proof -
  let ?U0 = "um_new 3 unit_entry_weight (Plain Lru :: (nat \<times> nat, 8 word) policy) (0::nat)
        (mk_ring entry unit_entry_weight [])"
  have r0: "um_reach ?U0" by (rule um_reach.new)
  have "um_reach (um_clear ?U0)" by (rule um_reach.step [OF r0, of OpClear]) simp_all
  moreover have "op_ok (OpInsertRange [(1::nat, (1::nat, 10::nat)), (2, (2, 20))]) (um_clear ?U0)"
    by (simp add: fresh_node_def um_clear_def um_new_def cm_construct_def lift_cm_def cm_clear_def
        Let_def unit_entry_weight_def)
  ultimately show ?thesis using um_reach_wf by blast
qed

section \<open>Witnesses of the lemmas on building a map\<close>

theorem um_from_range_correct_witness:
  "\<exists>U'. um_from_range [(1, (1, 10)), (2, (2, 20))] 3 unit_entry_weight (Plain Lru :: (nat \<times> nat, 8 word) policy) (0::nat)
     (mk_ring entry unit_entry_weight []) = Some (U', Inr ())"
proof -
  have "distinct (map fst [(1::nat, (1::nat, 10::nat)), (2, (2, 20))] @ [0])"
    "unat_sum (unit_entry_weight \<circ> snd) [(1::nat, (1::nat, 10::nat)), (2, (2, 20))] \<le> unat (3::size_t)"
    by (simp_all add: unit_entry_weight_def)
  from um_from_range_correct [OF this, of "Plain Lru :: (nat \<times> nat, 8 word) policy" "mk_ring entry unit_entry_weight []"]
  show ?thesis by blast
qed

theorem um_assign_list_correct_witness:
  "\<exists>U'. um_assign_list [(7, (7, 70)), (8, (8, 80))] lru_map = Some (U', Inr ())"
proof -
  have "distinct (map fst [(7::nat, (7::nat, 70::nat)), (8, (8, 80))] @ [cm_first (um_cm lru_map)])"
    "unat_sum (cm_weigher (um_cm lru_map) \<circ> snd) [(7::nat, (7::nat, 70::nat)), (8, (8, 80))] < 2 ^ 64"
    "\<not> unat (cm_capacity (um_cm lru_map)) < unat_sum (cm_weigher (um_cm lru_map) \<circ> snd) [(7::nat, (7::nat, 70::nat)), (8, (8, 80))]"
    by (simp_all add: fixture_defs)
  with um_assign_list_correct [OF this(1,2)] show ?thesis by auto
qed

theorem um_move_inv_witness: "um_inv (um_move 9 lru_map) [1, 2, 3]"
proof -
  have "(9::nat) \<notin> set (cm_first (um_cm lru_map) # [1, 2, 3])" by (simp add: fixture_defs)
  from um_move_inv [OF lru_map_inv this] show ?thesis by simp
qed

section \<open>Witnesses of the lemmas on moving a manager\<close>

lemma lru2_inv: "cm_inv lru_heap2 (lru_cm 2) [1, 2]"
  by (simp add: fixture_defs cm_inv_def dl_ring_def)

theorem cm_move_construct_inv_witness:
  "cm_inv (fst (cm_move_construct 9 lru_heap2 (lru_cm 2))) (snd (cm_move_construct 9 lru_heap2 (lru_cm 2))) [1, 2]"
proof -
  have fr: "(9::nat) \<notin> set (cm_first (lru_cm 2) # [1, 2])" by (simp add: fixture_defs)
  have "cm_move_construct 9 lru_heap2 (lru_cm 2) =
      (fst (cm_move_construct 9 lru_heap2 (lru_cm 2)), snd (cm_move_construct 9 lru_heap2 (lru_cm 2)))"
    by simp
  from cm_move_construct_inv [OF lru2_inv fr this] show ?thesis by (rule conjunct1)
qed

theorem cm_move_construct_source_stale_witness:
  "\<not> cm_inv (fst (cm_move_construct 9 lru_heap2 (lru_cm 2))) (lru_cm 2) [1, 2]"
  using cm_move_construct_source_stale [OF lru2_inv, of 9 "[1, 2]"] by (simp add: fixture_defs)

theorem cm_move_assign_inv_witness:
  "cm_inv (fst (cm_move_assign lru_heap2 fresh_cm (lru_cm 2))) (fst (snd (cm_move_assign lru_heap2 fresh_cm (lru_cm 2)))) [1, 2] \<and>
   cm_inv (fst (cm_move_assign lru_heap2 fresh_cm (lru_cm 2))) (snd (snd (cm_move_assign lru_heap2 fresh_cm (lru_cm 2)))) []"
proof -
  have fr: "cm_first fresh_cm \<notin> set (cm_first (lru_cm 2) # [1, 2])" by (simp add: fixture_defs)
  have "cm_move_assign lru_heap2 fresh_cm (lru_cm 2) =
      (fst (cm_move_assign lru_heap2 fresh_cm (lru_cm 2)), fst (snd (cm_move_assign lru_heap2 fresh_cm (lru_cm 2))),
       snd (snd (cm_move_assign lru_heap2 fresh_cm (lru_cm 2))))"
    by simp
  from cm_move_assign_inv [OF lru2_inv fr this] show ?thesis by blast
qed

theorem cm_swap_inv_witness:
  "cm_inv (fst (cm_swap two_heap (lru_cm 2) other_cm)) (fst (snd (cm_swap two_heap (lru_cm 2) other_cm))) [6] \<and>
   cm_inv (fst (cm_swap two_heap (lru_cm 2) other_cm)) (snd (snd (cm_swap two_heap (lru_cm 2) other_cm))) [1, 2]"
proof -
  have i1: "cm_inv two_heap (lru_cm 2) [1, 2]" and i2: "cm_inv two_heap other_cm [6]"
    by (simp_all add: fixture_defs cm_inv_def dl_ring_def)
  have dj: "set (cm_first (lru_cm 2) # [1, 2]) \<inter> set (cm_first other_cm # [6]) = {}"
    by (simp add: fixture_defs other_cm_def)
  have "cm_swap two_heap (lru_cm 2) other_cm =
      (fst (cm_swap two_heap (lru_cm 2) other_cm), fst (snd (cm_swap two_heap (lru_cm 2) other_cm)),
       snd (snd (cm_swap two_heap (lru_cm 2) other_cm)))"
    by simp
  from cm_swap_inv [OF i1 i2 dj this] show ?thesis by blast
qed

end
